(* ===== verification/BT_Prelude.thy ===== *)
theory BT_Prelude
  imports Main "HOL-Library.Word"
begin

text \<open>
  Shared vocabulary of the development: the machine types of the Rust code, its error
  values (\<open>library/src/utils/error.rs\<close>) and protocol constants
  (\<open>library/src/core/constants.rs\<close>), the result type with its sequencing
  operator, the checked and saturating arithmetic of the standard library, the
  big-endian byte encodings of the integer types, decimal printing and parsing of
  unsigned integers, and lemmas on slices and words that the components share.
\<close>

unbundle bit_operations_syntax

section \<open>Machine types\<close>

type_synonym u8 = "8 word"
type_synonym u16 = "16 word"
type_synonym u32 = "32 word"
type_synonym u64 = "64 word"
type_synonym bytes = "u8 list"

named_theorems codec_simps \<open>length and decoding facts of the fixed-width codecs\<close>
named_theorems slice_simps \<open>slices of concatenated buffers\<close>

section \<open>Errors as values\<close>

datatype BencodeError =
    UnexpectedEnd
  | InvalidDigit
  | UnterminatedInteger
  | InvalidIntegerFormat
  | InvalidStringLength
  | StringTooLong
  | IntegerTooLong
  | TrailingBytes
  | NestingDepthExceeded
  | InvalidByte u8
  | Custom string

text \<open>The kinds of \<open>std::io::Error\<close> the code distinguishes, with the error's own text.\<close>

datatype ErrorKind = WouldBlock | TimedOut | OtherKind

datatype BitTorrentError =
    Io ErrorKind string
  | BencodeE BencodeError
  | MissingField string
  | Parse string
  | NotParsed string
  | Protocol string
  | LockPoisoned
  | MessageTooLarge nat
  | PieceHashMismatch nat
  | Storage string string
  | Tracker string
  | ProtocolViolation string string
  | SessionClosed

type_synonym 'a result = "BitTorrentError + 'a"

text \<open>The \<open>?\<close> operator: continue with the value, return the error.\<close>

definition rbind :: "'e + 'a \<Rightarrow> ('a \<Rightarrow> 'e + 'b) \<Rightarrow> 'e + 'b" where
  "rbind m f = (case m of Inl e \<Rightarrow> Inl e | Inr x \<Rightarrow> f x)"

lemma rbind_simps [simp]:
  "rbind (Inl e) f = Inl e"
  "rbind (Inr x) f = f x"
  by (simp_all add: rbind_def)

lemma rbind_eq_Inr: "rbind m f = Inr y \<longleftrightarrow> (\<exists>x. m = Inr x \<and> f x = Inr y)"
  by (cases m) auto

lemma rbind_cong [fundef_cong]:
  "m = m' \<Longrightarrow> (\<And>x. m' = Inr x \<Longrightarrow> f x = f' x) \<Longrightarrow> rbind m f = rbind m' f'"
  by (cases m') auto

section \<open>Slices\<close>

text \<open>\<open>&buf[start..end]\<close>, for bounds the caller has checked.\<close>

definition bslice :: "'a list \<Rightarrow> nat \<Rightarrow> nat \<Rightarrow> 'a list" where
  "bslice xs a b = take (b - a) (drop a xs)"

lemma length_bslice [simp]: "length (bslice xs a b) = min (b - a) (length xs - a)"
  by (simp add: bslice_def)

lemma bslice_0 [simp]: "bslice xs 0 b = take b xs"
  by (simp add: bslice_def)

lemma bslice_same [simp]: "bslice xs a a = []"
  by (simp add: bslice_def)

lemma bslice_append_mid [slice_simps]:
  "a = length pre \<Longrightarrow> b = length pre + length mid \<Longrightarrow> bslice (pre @ mid @ post) a b = mid"
  by (simp add: bslice_def)

lemma bslice_split:
  assumes "a \<le> b" and "b \<le> c"
  shows "bslice xs a c = bslice xs a b @ bslice xs b c"
proof -
  have "c - a = (b - a) + (c - b)" and "drop b xs = drop (b - a) (drop a xs)"
    using assms by auto
  then show ?thesis by (simp only: bslice_def take_add)
qed

lemma bslice_Suc: "a < length xs \<Longrightarrow> bslice xs a (Suc a) = [xs ! a]"
  by (simp add: bslice_def Suc_diff_le take_Suc_conv_app_nth)

lemma bslice_Cons: "a < b \<Longrightarrow> a < length xs \<Longrightarrow> bslice xs a b = xs ! a # bslice xs (Suc a) b"
  using bslice_split [of a "Suc a" b xs] bslice_Suc [of a xs] by simp

section \<open>Checked and saturating arithmetic\<close>

text \<open>
  \<open>usize\<close> and \<open>u64\<close> quantities that only count bytes held in memory are naturals. The
  operations whose overflow behaviour the code relies on are written out at their width.
\<close>

definition U64_MAX :: nat where "U64_MAX = 2 ^ 64 - 1"
definition U32_MAX :: nat where "U32_MAX = 2 ^ 32 - 1"

definition checked_add :: "nat \<Rightarrow> nat \<Rightarrow> nat \<Rightarrow> nat option" where
  "checked_add mx a b = (if a + b \<le> mx then Some (a + b) else None)"

definition saturating_add :: "nat \<Rightarrow> nat \<Rightarrow> nat \<Rightarrow> nat" where
  "saturating_add mx a b = min (a + b) mx"

definition word_saturating_sub :: "'a::len word \<Rightarrow> 'a word \<Rightarrow> 'a word" where
  "word_saturating_sub a b = (if b \<le> a then a - b else 0)"

lemma unat_word_saturating_sub: "unat (word_saturating_sub a b) = unat a - unat b"
  by (simp add: word_saturating_sub_def unat_sub word_le_nat_alt)

section \<open>Big-endian encodings\<close>

definition to_be :: "nat \<Rightarrow> 'a::len word \<Rightarrow> bytes" where
  "to_be n w = map (\<lambda>i. ucast (drop_bit (8 * i) w)) (rev [0..<n])"

definition from_be :: "bytes \<Rightarrow> 'a::len word" where
  "from_be bs = foldl (\<lambda>acc b. push_bit 8 acc OR ucast b) 0 bs"

abbreviation u16_to_be_bytes :: "u16 \<Rightarrow> bytes" where "u16_to_be_bytes \<equiv> to_be 2"
abbreviation u32_to_be_bytes :: "u32 \<Rightarrow> bytes" where "u32_to_be_bytes \<equiv> to_be 4"
abbreviation u64_to_be_bytes :: "u64 \<Rightarrow> bytes" where "u64_to_be_bytes \<equiv> to_be 8"

lemma length_to_be [simp, codec_simps]: "length (to_be n w) = n"
  by (simp add: to_be_def)

lemma nth_to_be: "i < n \<Longrightarrow> to_be n w ! i = ucast (drop_bit (8 * (n - Suc i)) w)"
  by (simp add: to_be_def rev_nth)

lemma from_be_snoc: "from_be (bs @ [b]) = push_bit 8 (from_be bs) OR ucast b"
  by (simp add: from_be_def)

lemma bit_from_be:
  "bit (from_be bs :: 'a::len word) k \<longleftrightarrow>
     k < LENGTH('a) \<and> k div 8 < length bs \<and> bit (rev bs ! (k div 8)) (k mod 8)"
proof (induction bs arbitrary: k rule: rev_induct)
  case Nil
  then show ?case by (simp add: from_be_def)
next
  case (snoc b bs)
  show ?case
  proof (cases "k < 8")
    case True
    then show ?thesis
      by (auto simp: from_be_snoc bit_simps)
  next
    case False
    then obtain j where j: "k = 8 + j" by (metis le_add_diff_inverse linorder_not_less)
    have "\<not> bit (ucast b :: 'a word) k"
      using False by (auto simp: bit_simps dest: bit_imp_le_length)
    moreover have "(8 + j) div 8 = Suc (j div 8)" and "(8 + j) mod 8 = j mod 8"
      by simp_all
    ultimately show ?thesis
      using snoc.IH [of j] by (auto simp: from_be_snoc bit_simps j)
  qed
qed

lemma from_be_to_be:
  fixes w :: "'a::len word"
  assumes "LENGTH('a) \<le> 8 * n"
  shows "from_be (to_be n w) = w"
proof (rule bit_word_eqI)
  fix k assume k: "k < LENGTH('a)"
  then have *: "k div 8 < n" using assms by auto
  have "rev (to_be n w) ! (k div 8) = ucast (drop_bit (8 * (k div 8)) w)"
    using * by (simp add: to_be_def flip: rev_map)
  then show "bit (from_be (to_be n w) :: 'a word) k = bit w k"
    using * k by (auto simp: bit_from_be bit_simps)
qed

lemma to_be_from_be:
  assumes "length bs = n" and "8 * n \<le> LENGTH('a)"
  shows "to_be n (from_be bs :: 'a::len word) = bs"
proof (rule nth_equalityI)
  show "length (to_be n (from_be bs :: 'a word)) = length bs"
    using assms by simp
next
  fix i assume i: "i < length (to_be n (from_be bs :: 'a word))"
  then have i: "i < n" by simp
  show "to_be n (from_be bs :: 'a word) ! i = bs ! i"
  proof (rule bit_word_eqI)
    fix k assume k: "k < LENGTH(8)"
    have "(8 * (n - Suc i) + k) div 8 = n - Suc i" "(8 * (n - Suc i) + k) mod 8 = k"
      using k by auto
    moreover have "8 * (n - Suc i) + k < LENGTH('a)"
      using i k assms(2) by auto
    ultimately show "bit (to_be n (from_be bs :: 'a word) ! i) k = bit (bs ! i) k"
      using i k assms(1) by (auto simp: nth_to_be bit_simps bit_from_be rev_nth)
  qed
qed

lemmas from_be_u16 [simp, codec_simps] = from_be_to_be [where 'a = 16 and n = 2, simplified]
lemmas from_be_u32 [simp, codec_simps] = from_be_to_be [where 'a = 32 and n = 4, simplified]
lemmas from_be_u64 [simp, codec_simps] = from_be_to_be [where 'a = 64 and n = 8, simplified]

section \<open>Decimal numerals\<close>

text \<open>
  \<open>usize::to_string\<close> and \<open>str::parse::<usize>\<close> on ASCII digits. \<open>dec_string\<close> prints without
  leading zeros, \<open>parse_dec\<close> reads the value of a run of digits.
\<close>

definition is_ascii_digit :: "u8 \<Rightarrow> bool" where
  "is_ascii_digit b \<longleftrightarrow> 48 \<le> b \<and> b \<le> 57"

fun dec_string :: "nat \<Rightarrow> bytes" where
  "dec_string n =
     (if n < 10 then [of_nat (48 + n)] else dec_string (n div 10) @ [of_nat (48 + n mod 10)])"

declare dec_string.simps [simp del]

definition parse_dec :: "bytes \<Rightarrow> nat" where
  "parse_dec bs = foldl (\<lambda>acc b. acc * 10 + (unat b - 48)) 0 bs"

text \<open>A canonical numeral: digits only, not empty, no leading zero except \<open>"0"\<close> itself.\<close>

definition canonical_dec :: "bytes \<Rightarrow> bool" where
  "canonical_dec bs \<longleftrightarrow> bs \<noteq> [] \<and> (\<forall>b \<in> set bs. is_ascii_digit b) \<and> (hd bs = 48 \<longrightarrow> bs = [48])"

lemma parse_dec_Nil [simp]: "parse_dec [] = 0"
  by (simp add: parse_dec_def)

lemma parse_dec_snoc [simp]: "parse_dec (bs @ [b]) = parse_dec bs * 10 + (unat b - 48)"
  by (simp add: parse_dec_def)

lemma unat_digit: "n < 10 \<Longrightarrow> unat (of_nat (48 + n) :: u8) = 48 + n"
  by (simp only: unat_of_nat) simp

lemma digit_of_nat: "n < 10 \<Longrightarrow> is_ascii_digit (of_nat (48 + n))"
  unfolding is_ascii_digit_def word_le_nat_alt unat_digit by simp

lemma digit_unat: "is_ascii_digit b \<Longrightarrow> 48 \<le> unat b \<and> unat b \<le> 57"
  by (simp add: is_ascii_digit_def word_le_nat_alt)

lemma digit_split: "is_ascii_digit b \<Longrightarrow> of_nat (48 + (unat b - 48)) = b"
  using digit_unat [of b] by simp

lemma parse_dec_single [simp]: "parse_dec [b] = unat b - 48"
  by (simp add: parse_dec_def)

lemma parse_dec_string [simp]: "parse_dec (dec_string n) = n"
proof (induction n rule: dec_string.induct)
  case (1 n)
  have u: "unat (of_nat (48 + n mod 10) :: u8) = 48 + n mod 10" by (rule unat_digit) simp
  show ?case
  proof (cases "n < 10")
    case True
    then show ?thesis by (subst dec_string.simps) (simp del: of_nat_add add: unat_digit)
  next
    case False
    with 1 have "parse_dec (dec_string (n div 10)) = n div 10" by simp
    with False u show ?thesis by (subst dec_string.simps) (simp del: of_nat_add)
  qed
qed

lemma dec_string_nonempty [simp]: "dec_string n \<noteq> []"
  by (subst dec_string.simps) simp

lemma dec_string_digits: "b \<in> set (dec_string n) \<Longrightarrow> is_ascii_digit b"
proof (induction n rule: dec_string.induct)
  case (1 n)
  then show ?case
    by (cases "n < 10") (auto simp: dec_string.simps [of n] simp del: of_nat_add intro: digit_of_nat)
qed

lemma dec_string_length: "n < 10 ^ Suc k \<Longrightarrow> length (dec_string n) \<le> Suc k"
proof (induction k arbitrary: n)
  case 0
  then show ?case by (simp add: dec_string.simps)
next
  case (Suc k)
  then have "n div 10 < 10 ^ Suc k" by auto
  then show ?case
    using Suc.IH [of "n div 10"] by (cases "n < 10") (simp_all add: dec_string.simps [of n])
qed

lemma dec_string_hd: "hd (dec_string n) = 48 \<longleftrightarrow> n = 0"
proof (induction n rule: dec_string.induct)
  case (1 n)
  show ?case
  proof (cases "n < 10")
    case True
    then have "of_nat (48 + n) = (48 :: u8) \<longleftrightarrow> n = 0"
      using unat_digit [OF True] by (auto simp del: of_nat_add)
    with True show ?thesis by (simp add: dec_string.simps [of n])
  next
    case False
    with 1 have "hd (dec_string (n div 10)) = 48 \<longleftrightarrow> n div 10 = 0" by simp
    with False show ?thesis by (simp add: dec_string.simps [of n])
  qed
qed

lemma canonical_dec_string: "canonical_dec (dec_string n)"
proof -
  have "dec_string 0 = [48]" by (simp add: dec_string.simps)
  then show ?thesis
    using dec_string_hd [of n] by (auto simp: canonical_dec_def intro: dec_string_digits)
qed

lemma dec_string_parse: "canonical_dec bs \<Longrightarrow> dec_string (parse_dec bs) = bs"
proof (induction bs rule: rev_induct)
  case Nil
  then show ?case by (simp add: canonical_dec_def)
next
  case (snoc b bs)
  then have b: "is_ascii_digit b" by (simp add: canonical_dec_def)
  show ?case
  proof (cases "bs = []")
    case True
    have "unat b - 48 < 10" using digit_unat [OF b] by arith
    with True digit_split [OF b] show ?thesis
      by (simp add: dec_string.simps del: of_nat_add)
  next
    case False
    with snoc.prems have c: "canonical_dec bs"
      by (auto simp: canonical_dec_def hd_append split: if_splits)
    then have IH: "dec_string (parse_dec bs) = bs" by (rule snoc.IH)
    have "hd bs \<noteq> 48" using snoc.prems False by (auto simp: canonical_dec_def)
    then have "parse_dec bs \<noteq> 0" using IH dec_string_hd [of "parse_dec bs"] by auto
    then have ge: "\<not> parse_dec (bs @ [b]) < 10" by simp
    have "unat b - 48 < 10" using digit_unat [OF b] by arith
    then have "parse_dec (bs @ [b]) div 10 = parse_dec bs"
      and "parse_dec (bs @ [b]) mod 10 = unat b - 48" by simp_all
    then show ?thesis
      using ge IH digit_split [OF b] by (subst dec_string.simps) (simp del: of_nat_add)
  qed
qed

section \<open>Text\<close>

text \<open>
  Rust strings are character lists; every text the code builds or splits here is ASCII.
  \<open>string_of_nat\<close> is the \<open>Display\<close> of the unsigned integers.
\<close>

definition string_of_bytes :: "bytes \<Rightarrow> string" where
  "string_of_bytes bs = map (\<lambda>b. char_of (unat b)) bs"

definition bytes_of_string :: "string \<Rightarrow> bytes" where
  "bytes_of_string s = map (\<lambda>c. of_nat (of_char c)) s"

definition string_of_nat :: "nat \<Rightarrow> string" where
  "string_of_nat n = string_of_bytes (dec_string n)"

lemma bytes_of_string_of_bytes [simp]: "bytes_of_string (string_of_bytes bs) = bs"
proof -
  have "unat b < 2 ^ LENGTH(8)" for b :: u8 by (rule unsigned_less)
  then have "of_char (char_of (unat b) :: char) = unat b" for b :: u8
    by simp
  then show ?thesis by (simp add: bytes_of_string_def string_of_bytes_def map_idI)
qed

fun bencode_error_display :: "BencodeError \<Rightarrow> string" where
  "bencode_error_display UnexpectedEnd = ''Unexpected end of input''"
| "bencode_error_display InvalidDigit = ''Invalid integer digit''"
| "bencode_error_display UnterminatedInteger = ''Unterminated integer''"
| "bencode_error_display InvalidIntegerFormat = ''Invalid integer format''"
| "bencode_error_display InvalidStringLength = ''Invalid string length''"
| "bencode_error_display StringTooLong = ''String length exceeds safe limit''"
| "bencode_error_display IntegerTooLong = ''Integer representation is too long''"
| "bencode_error_display TrailingBytes = ''Trailing bytes after parsing''"
| "bencode_error_display NestingDepthExceeded = ''Nesting depth limit exceeded''"
| "bencode_error_display (InvalidByte b) = ''Unexpected byte: '' @ string_of_nat (unat b)"
| "bencode_error_display (Custom msg) = msg"

fun error_display :: "BitTorrentError \<Rightarrow> string" where
  "error_display (Io _ err) = ''I/O error: '' @ err"
| "error_display (BencodeE err) = ''Invalid Bencode: '' @ bencode_error_display err"
| "error_display (MissingField field) = ''Missing field: '' @ field"
| "error_display (Parse msg) = ''Parse error: '' @ msg"
| "error_display (NotParsed msg) = ''BitTorrent Error: '' @ msg"
| "error_display (Protocol msg) = ''Protocol error: '' @ msg"
| "error_display LockPoisoned = ''Lock was poisoned by a panicked thread''"
| "error_display (MessageTooLarge len) =
     ''Wire message length '' @ string_of_nat len @ '' exceeds allowed threshold''"
| "error_display (PieceHashMismatch piece) =
     ''Piece '' @ string_of_nat piece @ '' hash verification failed''"
| "error_display (Storage path reason) =
     ''Storage failure on '' @ [CHR 0x27] @ path @ [CHR 0x27] @ '': '' @ reason"
| "error_display (Tracker msg) = ''Tracker error: '' @ msg"
| "error_display (ProtocolViolation peer reason) =
     ''Protocol violation from peer '' @ peer @ '': '' @ reason"
| "error_display SessionClosed = ''Torrent session is closed''"

section \<open>Protocol constants\<close>

definition BLOCK_SIZE :: nat where "BLOCK_SIZE = 1024 * 16"
definition HASH_LENGTH :: nat where "HASH_LENGTH = 20"
definition PEER_ID_LENGTH :: nat where "PEER_ID_LENGTH = 20"
definition SIZE_OF_U32 :: nat where "SIZE_OF_U32 = 4"
definition ENDGAME_THRESHOLD :: nat where "ENDGAME_THRESHOLD = 5"
definition INITIAL_HANDSHAKE_LENGTH :: nat where "INITIAL_HANDSHAKE_LENGTH = 68"

end
