(* ===== verification/Bencode.thy ===== *)
theory Bencode
  imports BT_Prelude "HOL-Library.List_Lexorder"
begin

text \<open>
  The bencode codec of \<open>library/src/utils/bencode.rs\<close>: the node type, the recursive
  descent parser over a byte buffer with its position and nesting depth, and the encoder,
  which writes dictionary entries in key order. The parser's two \<open>while\<close> loops and its
  recursion are mutually recursive functions on the position; that every successful parse
  advances the position is what makes them terminate.
\<close>

section \<open>Nodes\<close>

datatype BNode =
    Dictionary "(bytes \<times> BNode) list"
  | BList "BNode list"
  | Number bytes
  | BString bytes

fun dict_get :: "BNode \<Rightarrow> bytes \<Rightarrow> BNode option" where
  "dict_get (Dictionary entries) key = map_option snd (find (\<lambda>(k, _). k = key) entries)"
| "dict_get _ key = None"

fun as_string :: "BNode \<Rightarrow> bytes option" where
  "as_string (BString b) = Some b"
| "as_string _ = None"

fun as_number_bytes :: "BNode \<Rightarrow> bytes option" where
  "as_number_bytes (Number b) = Some b"
| "as_number_bytes _ = None"

section \<open>Scanning\<close>

definition MAX_DEPTH :: nat where "MAX_DEPTH = 50"
definition MAX_STRING_LEN :: nat where "MAX_STRING_LEN = 16777216"

definition current_byte :: "bytes \<Rightarrow> nat \<Rightarrow> u8 option" where
  "current_byte buf pos = (if pos < length buf then Some (buf ! pos) else None)"

text \<open>
  The scanning loops of \<open>decode_integer\<close> and \<open>decode_string\<close>: stop at the terminator or at the
  end of the buffer; \<open>False\<close> reports a byte that is not allowed, at its position.
\<close>

function scan_until :: "(u8 \<Rightarrow> bool) \<Rightarrow> u8 \<Rightarrow> bytes \<Rightarrow> nat \<Rightarrow> bool \<times> nat" where
  "scan_until ok stop buf pos =
     (case current_byte buf pos of
        None \<Rightarrow> (True, pos)
      | Some b \<Rightarrow>
          if b = stop then (True, pos)
          else if \<not> ok b then (False, pos)
          else scan_until ok stop buf (Suc pos))"
  by pat_completeness auto
termination
  by (relation "measure (\<lambda>(ok, stop, buf, pos). length buf - pos)")
    (auto simp: current_byte_def split: if_splits)

declare scan_until.simps [simp del]

text \<open>\<open>str::parse::<i64>\<close>: an optional sign, at least one digit, within the range of \<open>i64\<close>.\<close>

definition parse_i64 :: "bytes \<Rightarrow> int option" where
  "parse_i64 bs =
     (let neg = (bs \<noteq> [] \<and> hd bs = 45);
          ds = (if bs \<noteq> [] \<and> (hd bs = 45 \<or> hd bs = 43) then tl bs else bs);
          v = (if neg then - int (parse_dec ds) else int (parse_dec ds))
      in if ds \<noteq> [] \<and> list_all is_ascii_digit ds \<and> - (2 ^ 63) \<le> v \<and> v < 2 ^ 63
         then Some v else None)"

definition invalid_integer_format :: "bytes \<Rightarrow> bool" where
  "invalid_integer_format num \<longleftrightarrow>
     num = [] \<or> num = [45] \<or> num = [45, 48] \<or> (hd num = 48 \<and> length num > 1)
     \<or> take 2 num = [45, 48] \<or> parse_i64 num = None"

definition int_byte :: "u8 \<Rightarrow> bool" where
  "int_byte b \<longleftrightarrow> is_ascii_digit b \<or> b = 45"

definition decode_integer :: "bytes \<Rightarrow> nat \<Rightarrow> (BNode \<times> nat) result" where
  "decode_integer buf pos =
     (let start = Suc pos; (ok, fin) = scan_until int_byte 101 buf start in
      if \<not> ok then Inl (BencodeE InvalidDigit)
      else if current_byte buf fin \<noteq> Some 101 then Inl (BencodeE UnterminatedInteger)
      else let number_bytes = bslice buf start fin in
        if length number_bytes > 20 then Inl (BencodeE IntegerTooLong)
        else if invalid_integer_format number_bytes then Inl (BencodeE InvalidIntegerFormat)
        else Inr (Number number_bytes, Suc fin))"

definition decode_string :: "bytes \<Rightarrow> nat \<Rightarrow> (bytes \<times> nat) result" where
  "decode_string buf pos =
     (let (ok, fin) = scan_until is_ascii_digit 58 buf pos in
      if \<not> ok then Inl (BencodeE InvalidStringLength)
      else let length_bytes = bslice buf pos fin in
        if length_bytes = [] \<or> (hd length_bytes = 48 \<and> length_bytes \<noteq> [48])
        then Inl (BencodeE InvalidStringLength)
        else if length length_bytes > 10 then Inl (BencodeE StringTooLong)
        else let len = parse_dec length_bytes in
          if len > MAX_STRING_LEN then Inl (BencodeE StringTooLong)
          else let start = Suc fin; stop = start + len in
            if stop > length buf then Inl (BencodeE UnexpectedEnd)
            else Inr (bslice buf start stop, stop))"

lemma scan_until_le: "scan_until ok stop buf pos = (r, fin) \<Longrightarrow> pos \<le> fin"
proof (induction ok stop buf pos rule: scan_until.induct)
  case (1 ok stop buf pos)
  then show ?case
    by (auto simp: scan_until.simps [of ok stop buf pos] split: option.splits if_splits)
qed

lemma decode_integer_advances: "decode_integer buf pos = Inr (n, p) \<Longrightarrow> pos < p"
  by (auto simp: decode_integer_def Let_def split: prod.splits if_splits dest: scan_until_le)

lemma decode_string_advances:
  "decode_string buf pos = Inr (s, p) \<Longrightarrow> pos < p \<and> p \<le> length buf"
  by (auto simp: decode_string_def Let_def split: prod.splits if_splits dest: scan_until_le)

section \<open>The parser\<close>

function (sequential)
  decode_bnode :: "bytes \<Rightarrow> nat \<Rightarrow> nat \<Rightarrow> (BNode \<times> nat) result" and
  decode_dict_loop :: "bytes \<Rightarrow> nat \<Rightarrow> nat \<Rightarrow> (bytes \<times> BNode) list \<Rightarrow> (BNode \<times> nat) result" and
  decode_list_loop :: "bytes \<Rightarrow> nat \<Rightarrow> nat \<Rightarrow> BNode list \<Rightarrow> (BNode \<times> nat) result"
where
  "decode_bnode buf pos depth =
     (if Suc depth > MAX_DEPTH then Inl (BencodeE NestingDepthExceeded)
      else case current_byte buf pos of
        None \<Rightarrow> Inl (BencodeE UnexpectedEnd)
      | Some byte \<Rightarrow>
          if byte = 100 then decode_dict_loop buf (Suc pos) (Suc depth) []
          else if byte = 108 then decode_list_loop buf (Suc pos) (Suc depth) []
          else if byte = 105 then decode_integer buf pos
          else if is_ascii_digit byte
            then rbind (decode_string buf pos) (\<lambda>(s, p). Inr (BString s, p))
          else Inl (BencodeE (InvalidByte byte)))"
| "decode_dict_loop buf pos depth dict =
     (if current_byte buf pos = Some 101 then Inr (Dictionary dict, Suc pos)
      else rbind (decode_string buf pos) (\<lambda>(key, p1).
           rbind (decode_bnode buf p1 depth) (\<lambda>(value, p2).
             decode_dict_loop buf p2 depth (dict @ [(key, value)]))))"
| "decode_list_loop buf pos depth xs =
     (if current_byte buf pos = Some 101 then Inr (BList xs, Suc pos)
      else rbind (decode_bnode buf pos depth) (\<lambda>(value, p2).
             decode_list_loop buf p2 depth (xs @ [value])))"
  by pat_completeness auto

lemma decode_advances_partial:
  "decode_bnode_decode_dict_loop_decode_list_loop_dom (Inl (buf, pos, depth)) \<Longrightarrow>
     decode_bnode buf pos depth = Inr (n, p) \<Longrightarrow> pos < p \<and> pos < length buf"
  "decode_bnode_decode_dict_loop_decode_list_loop_dom (Inr (Inl (buf, pos, depth, dict))) \<Longrightarrow>
     decode_dict_loop buf pos depth dict = Inr (n, p) \<Longrightarrow> pos < p"
  "decode_bnode_decode_dict_loop_decode_list_loop_dom (Inr (Inr (buf, pos, depth, xs))) \<Longrightarrow>
     decode_list_loop buf pos depth xs = Inr (n, p) \<Longrightarrow> pos < p"
proof (induction buf pos depth and buf pos depth dict and buf pos depth xs
    arbitrary: n p and n p and n p
    rule: decode_bnode_decode_dict_loop_decode_list_loop.pinduct)
  case (1 buf pos depth)
  from "1.prems" obtain b where b: "current_byte buf pos = Some b" and d: "\<not> MAX_DEPTH < Suc depth"
    by (auto simp: decode_bnode.psimps [OF "1.hyps"] split: if_splits option.splits)
  then have "pos < length buf" by (simp add: current_byte_def split: if_splits)
  consider "b = 100" | "b = 108" | "b \<noteq> 100" "b \<noteq> 108" by blast
  then have "pos < p"
  proof cases
    case 1
    with "1.prems" b d have "decode_dict_loop buf (Suc pos) (Suc depth) [] = Inr (n, p)"
      by (simp add: decode_bnode.psimps [OF "1.hyps"])
    from "1.IH"(1) [OF d b 1 this] show ?thesis by simp
  next
    case 2
    with "1.prems" b d have "decode_list_loop buf (Suc pos) (Suc depth) [] = Inr (n, p)"
      by (simp add: decode_bnode.psimps [OF "1.hyps"])
    from "1.IH"(2) [OF d b _ 2 this] 2 show ?thesis by simp
  next
    case 3
    with "1.prems" b d show ?thesis
      by (auto simp: decode_bnode.psimps [OF "1.hyps"] rbind_eq_Inr split: if_splits
          dest: decode_integer_advances decode_string_advances)
  qed
  with \<open>pos < length buf\<close> show ?case by simp
next
  case (2 buf pos depth dict)
  show ?case
  proof (cases "current_byte buf pos = Some 101")
    case True
    with "2.prems" show ?thesis by (simp add: decode_dict_loop.psimps [OF "2.hyps"])
  next
    case False
    with "2.prems" obtain key p1 v p2
      where s: "decode_string buf pos = Inr (key, p1)"
        and v: "decode_bnode buf p1 depth = Inr (v, p2)"
        and l: "decode_dict_loop buf p2 depth (dict @ [(key, v)]) = Inr (n, p)"
      by (auto simp: decode_dict_loop.psimps [OF "2.hyps"] rbind_eq_Inr)
    from "2.IH"(1) [OF False s refl v] "2.IH"(2) [OF False s refl v refl l]
      decode_string_advances [OF s]
    show ?thesis by simp
  qed
next
  case (3 buf pos depth xs)
  show ?case
  proof (cases "current_byte buf pos = Some 101")
    case True
    with "3.prems" show ?thesis by (simp add: decode_list_loop.psimps [OF "3.hyps"])
  next
    case False
    with "3.prems" obtain v p2 where v: "decode_bnode buf pos depth = Inr (v, p2)"
        and l: "decode_list_loop buf p2 depth (xs @ [v]) = Inr (n, p)"
      by (auto simp: decode_list_loop.psimps [OF "3.hyps"] rbind_eq_Inr)
    from "3.IH"(1) [OF False v] "3.IH"(2) [OF False v refl l] show ?thesis by simp
  qed
qed

termination decode_bnode
proof (relation "measure (\<lambda>x. case x of
      Inl (buf, pos, _) \<Rightarrow> 2 * (length buf - pos)
    | Inr (Inl (buf, pos, _)) \<Rightarrow> 2 * (length buf - pos) + 1
    | Inr (Inr (buf, pos, _)) \<Rightarrow> 2 * (length buf - pos) + 1)", goal_cases)
  case (5 buf pos depth dict x key p1 y v p2)
  then show ?case
    by (auto dest!: decode_string_advances decode_advances_partial(1))
next
  case (7 buf pos depth xs x v p2)
  then show ?case
    by (auto dest!: decode_advances_partial(1))
qed (auto simp: current_byte_def split: if_splits dest!: decode_string_advances)

declare decode_bnode.simps [simp del] decode_dict_loop.simps [simp del]
  decode_list_loop.simps [simp del]

definition decode :: "bytes \<Rightarrow> BNode result" where
  "decode buf = rbind (decode_bnode buf 0 0) (\<lambda>(node, position).
     if position \<noteq> length buf then Inl (BencodeE TrailingBytes) else Inr node)"

definition decode_partial :: "bytes \<Rightarrow> (BNode \<times> nat) result" where
  "decode_partial buf = decode_bnode buf 0 0"

fun first_some :: "'a option list \<Rightarrow> 'a option" where
  "first_some [] = None"
| "first_some (None # xs) = first_some xs"
| "first_some (Some x # xs) = Some x"

fun get_dictionary_entry :: "BNode \<Rightarrow> bytes \<Rightarrow> BNode option" where
  "get_dictionary_entry (Dictionary entries) key =
     (case find (\<lambda>(k, _). k = key) entries of
        Some (_, v) \<Rightarrow> Some v
      | None \<Rightarrow> first_some (map (\<lambda>(_, v).
            case v of Dictionary _ \<Rightarrow> get_dictionary_entry v key | _ \<Rightarrow> None) entries))"
| "get_dictionary_entry _ key = None"

section \<open>The encoder\<close>

definition encode_bytes :: "bytes \<Rightarrow> bytes" where
  "encode_bytes s = dec_string (length s) @ [58] @ s"

lemma size_sorted_entry [termination_simp]:
  "(k, v) \<in> set (xs :: (bytes \<times> BNode) list) \<Longrightarrow>
     size v < Suc (size_list (size_prod (\<lambda>_. 0) size) xs)"
proof -
  assume "(k, v) \<in> set xs"
  then have "size_prod (\<lambda>_. 0) size (k, v) \<le> size_list (size_prod (\<lambda>_. 0) size) xs"
    by (rule size_list_estimation') simp
  then show ?thesis by simp
qed

fun encode_node :: "BNode \<Rightarrow> bytes" where
  "encode_node (Dictionary dict) =
     [100] @ concat (map (\<lambda>(k, v). encode_bytes k @ encode_node v) (sort_key fst dict)) @ [101]"
| "encode_node (BList xs) = [108] @ concat (map encode_node xs) @ [101]"
| "encode_node (Number num) = [105] @ num @ [101]"
| "encode_node (BString s) = encode_bytes s"

definition encode :: "BNode \<Rightarrow> bytes" where
  "encode n = encode_node n"

section \<open>Specification: the grammar and the well-formed nodes\<close>

text \<open>
  \<open>encode_raw\<close> writes a node with its dictionary entries in the order they have: the texts of
  the bencode grammar are its values. \<open>wf_bnode k\<close> holds of the nodes of nesting depth at most
  \<open>k\<close> whose numbers and strings respect the codec's limits.
\<close>

fun encode_raw :: "BNode \<Rightarrow> bytes" where
  "encode_raw (Dictionary dict) =
     [100] @ concat (map (\<lambda>(k, v). encode_bytes k @ encode_raw v) dict) @ [101]"
| "encode_raw (BList xs) = [108] @ concat (map encode_raw xs) @ [101]"
| "encode_raw (Number num) = [105] @ num @ [101]"
| "encode_raw (BString s) = encode_bytes s"

fun canon :: "BNode \<Rightarrow> BNode" where
  "canon (Dictionary dict) = Dictionary (map (\<lambda>(k, v). (k, canon v)) (sort_key fst dict))"
| "canon (BList xs) = BList (map canon xs)"
| "canon (Number num) = Number num"
| "canon (BString s) = BString s"

fun keys_sorted :: "BNode \<Rightarrow> bool" where
  "keys_sorted (Dictionary dict) \<longleftrightarrow>
     sorted (map fst dict) \<and> list_all (\<lambda>(k, v). keys_sorted v) dict"
| "keys_sorted (BList xs) \<longleftrightarrow> list_all keys_sorted xs"
| "keys_sorted _ \<longleftrightarrow> True"

definition valid_number :: "bytes \<Rightarrow> bool" where
  "valid_number num \<longleftrightarrow>
     list_all int_byte num \<and> length num \<le> 20 \<and> \<not> invalid_integer_format num"

fun wf_bnode :: "nat \<Rightarrow> BNode \<Rightarrow> bool" where
  "wf_bnode 0 _ \<longleftrightarrow> False"
| "wf_bnode (Suc d) (Dictionary dict) \<longleftrightarrow>
     list_all (\<lambda>(k, v). length k \<le> MAX_STRING_LEN \<and> wf_bnode d v) dict"
| "wf_bnode (Suc d) (BList xs) \<longleftrightarrow> list_all (wf_bnode d) xs"
| "wf_bnode (Suc d) (Number num) \<longleftrightarrow> valid_number num"
| "wf_bnode (Suc d) (BString s) \<longleftrightarrow> length s \<le> MAX_STRING_LEN"

lemma wf_bnode_canon: "wf_bnode d (canon n) = wf_bnode d n"
proof (induction d n rule: wf_bnode.induct)
  case (2 d dict)
  then show ?case by (auto simp: list_all_iff split: prod.splits)
next
  case (3 d xs)
  then show ?case by (auto simp: list_all_iff)
qed auto

lemma encode_node_raw: "encode_node n = encode_raw (canon n)"
proof (induction n rule: encode_node.induct)
  case (1 dict)
  then have "map (\<lambda>(k, v). encode_bytes k @ encode_node v) (sort_key fst dict) =
      map (\<lambda>(k, v). encode_bytes k @ encode_raw v) (map (\<lambda>(k, v). (k, canon v)) (sort_key fst dict))"
    by (auto intro!: map_cong)
  then show ?case by (simp only: encode_node.simps canon.simps encode_raw.simps)
next
  case (2 xs)
  then show ?case by (simp add: o_def cong: map_cong)
qed simp_all

lemma canon_sorted: "keys_sorted n \<Longrightarrow> canon n = n"
proof (induction n rule: canon.induct)
  case (1 dict)
  then have "sort_key fst dict = dict" by (simp add: sort_key_id_if_sorted)
  moreover have "map (\<lambda>(k, v). (k, canon v)) dict = dict"
    using 1 by (intro map_idI) (auto simp: list_all_iff)
  ultimately show ?case by simp
next
  case (2 xs)
  then show ?case by (auto simp: list_all_iff intro!: map_idI)
qed simp_all

section \<open>Completeness: the parser reads back what the grammar writes\<close>

lemma scan_until_run:
  assumes "list_all ok xs" and "\<not> ok stop"
  shows "scan_until ok stop (pre @ xs @ stop # post) (length pre) = (True, length pre + length xs)"
  using assms(1)
proof (induction xs arbitrary: pre)
  case Nil
  then show ?case by (subst scan_until.simps) (simp add: current_byte_def)
next
  case (Cons x xs)
  have "scan_until ok stop ((pre @ [x]) @ xs @ stop # post) (length (pre @ [x])) =
      (True, length (pre @ [x]) + length xs)"
    by (rule Cons.IH) (use Cons.prems in simp)
  moreover have "x \<noteq> stop" and "ok x" using Cons.prems assms(2) by auto
  ultimately show ?case
    by (subst scan_until.simps) (simp add: current_byte_def)
qed

lemma not_digit_colon: "\<not> is_ascii_digit 58" and not_int_byte_e: "\<not> int_byte 101"
  by (simp_all add: is_ascii_digit_def int_byte_def)

lemma decode_string_encode:
  assumes "length s \<le> MAX_STRING_LEN"
  shows "decode_string (pre @ encode_bytes s @ post) (length pre) =
    Inr (s, length pre + length (encode_bytes s))"
proof -
  let ?ds = "dec_string (length s)"
  let ?buf = "pre @ ?ds @ 58 # s @ post"
  have scan: "scan_until is_ascii_digit 58 ?buf (length pre) = (True, length pre + length ?ds)"
    by (rule scan_until_run)
      (auto simp: list_all_iff not_digit_colon intro: dec_string_digits)
  have len: "bslice ?buf (length pre) (length pre + length ?ds) = ?ds"
    by (rule bslice_append_mid) simp_all
  have "bslice ((pre @ ?ds @ [58]) @ s @ post) (Suc (length pre + length ?ds))
      (Suc (length pre + length ?ds) + length s) = s"
    by (rule bslice_append_mid) simp_all
  then have data: "bslice ?buf (Suc (length pre + length ?ds))
      (Suc (length pre + length ?ds) + length s) = s" by simp
  have "length s < 10 ^ Suc 9" using assms by (simp add: MAX_STRING_LEN_def)
  then have "length ?ds \<le> 10" using dec_string_length by fastforce
  moreover have "hd ?ds = 48 \<longrightarrow> ?ds = [48]"
    using canonical_dec_string [of "length s"] by (simp add: canonical_dec_def)
  ultimately show ?thesis
    using assms data by (simp add: decode_string_def encode_bytes_def scan len Let_def add.assoc)
qed

lemma decode_integer_encode:
  assumes "valid_number num"
  shows "decode_integer (pre @ [105] @ num @ [101] @ post) (length pre) =
    Inr (Number num, length pre + length num + 2)"
proof -
  let ?buf = "(pre @ [105]) @ num @ 101 # post"
  have scan: "scan_until int_byte 101 ?buf (length (pre @ [105])) =
      (True, length (pre @ [105]) + length num)"
    using assms by (intro scan_until_run) (simp_all add: valid_number_def not_int_byte_e)
  have "bslice ?buf (length (pre @ [105])) (length (pre @ [105]) + length num) = num"
    by (rule bslice_append_mid) simp_all
  with scan assms show ?thesis
    by (simp add: decode_integer_def valid_number_def current_byte_def nth_append)
qed

lemma decode_bnode_scalar:
  assumes "d < MAX_DEPTH" and "current_byte buf pos = Some b"
  shows "b = 105 \<Longrightarrow> decode_bnode buf pos d = decode_integer buf pos"
    and "is_ascii_digit b \<Longrightarrow>
      decode_bnode buf pos d = rbind (decode_string buf pos) (\<lambda>(s, p). Inr (BString s, p))"
    and "b = 100 \<Longrightarrow> decode_bnode buf pos d = decode_dict_loop buf (Suc pos) (Suc d) []"
    and "b = 108 \<Longrightarrow> decode_bnode buf pos d = decode_list_loop buf (Suc pos) (Suc d) []"
  using assms by (auto simp: decode_bnode.simps [of buf pos d] is_ascii_digit_def)

lemma encode_raw_hd: "wf_bnode d n \<Longrightarrow> encode_raw n \<noteq> [] \<and> hd (encode_raw n) \<noteq> 101"
proof (induction d n rule: wf_bnode.induct)
  case (5 d s)
  have "hd (dec_string (length s)) \<in> set (dec_string (length s))" by simp
  then have "is_ascii_digit (hd (dec_string (length s)))" by (rule dec_string_digits)
  then show ?case by (auto simp: encode_bytes_def is_ascii_digit_def)
qed auto

lemma encode_bytes_hd: "encode_bytes s \<noteq> [] \<and> is_ascii_digit (hd (encode_bytes s))"
  using dec_string_digits [OF hd_in_set [OF dec_string_nonempty]] by (simp add: encode_bytes_def)

definition reads_back :: "nat \<Rightarrow> BNode \<Rightarrow> bool" where
  "reads_back d n \<longleftrightarrow> (\<forall>pre post. decode_bnode (pre @ encode_raw n @ post) (length pre) d =
     Inr (n, length pre + length (encode_raw n)))"

lemma reads_backD:
  "reads_back d n \<Longrightarrow> decode_bnode (pre @ encode_raw n @ post) (length pre) d =
     Inr (n, length pre + length (encode_raw n))"
  by (simp add: reads_back_def)

abbreviation (input) encode_entry :: "bytes \<times> BNode \<Rightarrow> bytes" where
  "encode_entry \<equiv> \<lambda>(k, v). encode_bytes k @ encode_raw v"

lemma current_byte_append:
  "current_byte (pre @ xs @ post) (length pre) = (if xs = [] then current_byte post 0 else Some (hd xs))"
  by (cases xs) (auto simp: current_byte_def nth_append)

lemma decode_dict_loop_complete:
  assumes "\<And>k v. (k, v) \<in> set es \<Longrightarrow> reads_back d v \<and> length k \<le> MAX_STRING_LEN"
  shows "decode_dict_loop (pre @ concat (map encode_entry es) @ 101 # post) (length pre) d acc =
    Inr (Dictionary (acc @ es), length pre + length (concat (map encode_entry es)) + 1)"
  using assms
proof (induction es arbitrary: pre acc)
  case Nil
  then show ?case by (simp add: decode_dict_loop.simps current_byte_def)
next
  case (Cons e es)
  obtain k v where e: "e = (k, v)" by (cases e)
  define rest where "rest = concat (map encode_entry es) @ 101 # post"
  let ?buf = "pre @ encode_bytes k @ encode_raw v @ rest"
  have kv: "reads_back d v" "length k \<le> MAX_STRING_LEN" using Cons.prems e by auto
  have IH: "decode_dict_loop (pre' @ rest) (length pre') d acc' =
      Inr (Dictionary (acc' @ es), length pre' + length (concat (map encode_entry es)) + 1)"
    for pre' acc' unfolding rest_def by (rule Cons.IH) (use Cons.prems in auto)
  have "current_byte ?buf (length pre) = Some (hd (encode_bytes k))"
    using encode_bytes_hd [of k] by (simp add: current_byte_append)
  then have "current_byte ?buf (length pre) \<noteq> Some 101"
    using encode_bytes_hd [of k] by (auto simp: is_ascii_digit_def)
  moreover have "decode_string ?buf (length pre) = Inr (k, length pre + length (encode_bytes k))"
    using decode_string_encode [OF kv(2), of pre "encode_raw v @ rest"] by simp
  moreover have "decode_bnode ?buf (length pre + length (encode_bytes k)) d =
      Inr (v, length pre + length (encode_bytes k) + length (encode_raw v))"
    using reads_backD [OF kv(1), of "pre @ encode_bytes k" rest] by simp
  moreover have "decode_dict_loop ?buf (length pre + length (encode_bytes k) + length (encode_raw v)) d
      (acc @ [(k, v)]) = Inr (Dictionary (acc @ e # es),
        length pre + length (concat (map encode_entry (e # es))) + 1)"
    using IH [of "pre @ encode_bytes k @ encode_raw v" "acc @ [e]"]
    by (simp add: e rest_def add.assoc)
  ultimately show ?case
    by (subst decode_dict_loop.simps) (simp add: e rest_def)
qed

lemma decode_list_loop_complete:
  assumes "\<And>v. v \<in> set vs \<Longrightarrow> reads_back d v \<and> (\<exists>k. wf_bnode k v)"
  shows "decode_list_loop (pre @ concat (map encode_raw vs) @ 101 # post) (length pre) d acc =
    Inr (BList (acc @ vs), length pre + length (concat (map encode_raw vs)) + 1)"
  using assms
proof (induction vs arbitrary: pre acc)
  case Nil
  then show ?case by (simp add: decode_list_loop.simps current_byte_def)
next
  case (Cons v vs)
  define rest where "rest = concat (map encode_raw vs) @ 101 # post"
  let ?buf = "pre @ encode_raw v @ rest"
  obtain k where wf: "wf_bnode k v" using Cons.prems by auto
  have v: "reads_back d v" using Cons.prems by auto
  have IH: "decode_list_loop (pre' @ rest) (length pre') d acc' =
      Inr (BList (acc' @ vs), length pre' + length (concat (map encode_raw vs)) + 1)"
    for pre' acc' unfolding rest_def by (rule Cons.IH) (use Cons.prems in auto)
  from encode_raw_hd [OF wf] have "current_byte ?buf (length pre) \<noteq> Some 101"
    by (simp add: current_byte_append)
  moreover have "decode_bnode ?buf (length pre) d = Inr (v, length pre + length (encode_raw v))"
    by (rule reads_backD [OF v])
  moreover have "decode_list_loop ?buf (length pre + length (encode_raw v)) d (acc @ [v]) =
      Inr (BList (acc @ v # vs), length pre + length (concat (map encode_raw (v # vs))) + 1)"
    using IH [of "pre @ encode_raw v" "acc @ [v]"] by (simp add: add.assoc)
  ultimately show ?case
    by (subst decode_list_loop.simps) (simp add: rest_def)
qed

lemma decode_bnode_complete: "wf_bnode k n \<Longrightarrow> d + k \<le> MAX_DEPTH \<Longrightarrow> reads_back d n"
proof (induction k arbitrary: n d)
  case 0
  then show ?case by simp
next
  case (Suc k)
  have d: "d < MAX_DEPTH" using Suc.prems(2) by simp
  have IH: "wf_bnode k v \<Longrightarrow> reads_back (Suc d) v" for v
    using Suc.IH [of v "Suc d"] Suc.prems(2) by simp
  show ?case
    unfolding reads_back_def
  proof (intro allI)
    fix pre post
    have cur: "current_byte (pre @ encode_raw n @ post) (length pre) = Some (hd (encode_raw n))"
      using encode_raw_hd [OF Suc.prems(1)] by (simp add: current_byte_append)
    show "decode_bnode (pre @ encode_raw n @ post) (length pre) d =
        Inr (n, length pre + length (encode_raw n))"
    proof (cases n)
      case (Dictionary dict)
      then have "\<And>k' v. (k', v) \<in> set dict \<Longrightarrow> reads_back (Suc d) v \<and> length k' \<le> MAX_STRING_LEN"
        using Suc.prems(1) IH by (auto simp: list_all_iff)
      from decode_dict_loop_complete [of dict "Suc d" "pre @ [100]" post "[]", OF this]
      show ?thesis
        using decode_bnode_scalar(3) [OF d cur] Dictionary by simp
    next
      case (BList vs)
      then have "\<And>v. v \<in> set vs \<Longrightarrow> reads_back (Suc d) v \<and> (\<exists>k. wf_bnode k v)"
        using Suc.prems(1) IH by (auto simp: list_all_iff)
      from decode_list_loop_complete [of vs "Suc d" "pre @ [108]" post "[]", OF this]
      show ?thesis
        using decode_bnode_scalar(4) [OF d cur] BList by simp
    next
      case (Number num)
      then show ?thesis
        using decode_bnode_scalar(1) [OF d cur] decode_integer_encode [of num pre post] Suc.prems(1)
        by simp
    next
      case (BString s)
      then show ?thesis
        using decode_bnode_scalar(2) [OF d cur] decode_string_encode [of s pre post] Suc.prems(1)
          encode_bytes_hd [of s]
        by simp
    qed
  qed
qed

section \<open>Soundness: whatever the parser accepts is a text of the grammar\<close>

lemma scan_until_sound:
  "scan_until ok stop buf pos = (True, fin) \<Longrightarrow>
     list_all ok (bslice buf pos fin) \<and> (fin < length buf \<longrightarrow> buf ! fin = stop)"
proof (induction ok stop buf pos rule: scan_until.induct)
  case (1 ok stop buf pos)
  show ?case
  proof (cases "pos < length buf \<and> buf ! pos \<noteq> stop \<and> ok (buf ! pos)")
    case True
    with "1.prems" have rec: "scan_until ok stop buf (Suc pos) = (True, fin)"
      by (simp add: scan_until.simps [of ok stop buf pos] current_byte_def)
    with True have "list_all ok (bslice buf (Suc pos) fin) \<and> (fin < length buf \<longrightarrow> buf ! fin = stop)"
      by (intro "1.IH") (auto simp: current_byte_def)
    moreover have "pos < fin" using scan_until_le [OF rec] by simp
    ultimately show ?thesis using True by (simp add: bslice_Cons)
  next
    case False
    with "1.prems" have "fin = pos \<and> (pos < length buf \<longrightarrow> buf ! pos = stop)"
      by (auto simp: scan_until.simps [of ok stop buf pos] current_byte_def split: if_splits)
    then show ?thesis by simp
  qed
qed

lemma decode_string_sound:
  assumes "decode_string buf pos = Inr (s, p)"
  shows "bslice buf pos p = encode_bytes s \<and> length s \<le> MAX_STRING_LEN"
proof -
  obtain fin where scan: "scan_until is_ascii_digit 58 buf pos = (True, fin)"
    and ne: "bslice buf pos fin \<noteq> []"
    and hd: "hd (bslice buf pos fin) = 48 \<longrightarrow> bslice buf pos fin = [48]"
    and len: "parse_dec (bslice buf pos fin) \<le> MAX_STRING_LEN"
    and p: "p = Suc fin + parse_dec (bslice buf pos fin)" "p \<le> length buf"
    and s: "s = bslice buf (Suc fin) p"
    using assms by (auto simp: decode_string_def Let_def split: prod.splits if_splits)
  let ?lb = "bslice buf pos fin"
  have "canonical_dec ?lb"
    using scan_until_sound [OF scan] ne hd by (simp add: canonical_dec_def list_all_iff)
  then have lb: "dec_string (parse_dec ?lb) = ?lb" by (rule dec_string_parse)
  have le: "pos \<le> fin" by (rule scan_until_le [OF scan])
  have fin: "fin < length buf" using p by simp
  then have colon: "bslice buf fin (Suc fin) = [58]"
    using scan_until_sound [OF scan] by (simp add: bslice_Suc)
  have "length s = parse_dec ?lb" using p s by simp
  moreover have "bslice buf pos p = ?lb @ bslice buf fin (Suc fin) @ bslice buf (Suc fin) p"
    using le p bslice_split [of pos fin p buf] bslice_split [of fin "Suc fin" p buf] by simp
  ultimately show ?thesis using colon lb s len by (simp add: encode_bytes_def)
qed

lemma decode_integer_sound:
  assumes "decode_integer buf pos = Inr (n, p)" and "current_byte buf pos = Some 105"
  shows "p \<le> length buf \<and> (\<exists>num. n = Number num \<and> valid_number num \<and>
    bslice buf pos p = encode_raw n)"
proof -
  obtain fin where scan: "scan_until int_byte 101 buf (Suc pos) = (True, fin)"
    and e: "current_byte buf fin = Some 101"
    and n: "n = Number (bslice buf (Suc pos) fin)" "p = Suc fin"
    and v: "length (bslice buf (Suc pos) fin) \<le> 20"
      "\<not> invalid_integer_format (bslice buf (Suc pos) fin)"
    using assms(1) by (auto simp: decode_integer_def Let_def split: prod.splits if_splits)
  have fin: "fin < length buf" "buf ! fin = 101"
    and pos: "pos < length buf" "buf ! pos = 105"
    using e assms(2) by (auto simp: current_byte_def split: if_splits)
  have le: "Suc pos \<le> fin" by (rule scan_until_le [OF scan])
  have "bslice buf pos p = bslice buf pos (Suc pos) @ bslice buf (Suc pos) fin @ bslice buf fin (Suc fin)"
    using le n bslice_split [of pos "Suc pos" p buf] bslice_split [of "Suc pos" fin p buf] by simp
  then have "bslice buf pos p = encode_raw n"
    using fin pos n by (simp add: bslice_Suc)
  then show ?thesis
    using n v fin scan_until_sound [OF scan] by (simp add: valid_number_def)
qed

lemma decode_sound:
  "decode_bnode buf pos depth = Inr (n, p) \<Longrightarrow>
     pos < p \<and> p \<le> length buf \<and> bslice buf pos p = encode_raw n \<and> wf_bnode (MAX_DEPTH - depth) n"
  "decode_dict_loop buf pos depth dict = Inr (n, p) \<Longrightarrow>
     \<exists>es. n = Dictionary (dict @ es) \<and> pos < p \<and> p \<le> length buf \<and>
       bslice buf pos p = concat (map encode_entry es) @ [101] \<and>
       list_all (\<lambda>(k, v). length k \<le> MAX_STRING_LEN \<and> wf_bnode (MAX_DEPTH - depth) v) es"
  "decode_list_loop buf pos depth xs = Inr (n, p) \<Longrightarrow>
     \<exists>vs. n = BList (xs @ vs) \<and> pos < p \<and> p \<le> length buf \<and>
       bslice buf pos p = concat (map encode_raw vs) @ [101] \<and>
       list_all (wf_bnode (MAX_DEPTH - depth)) vs"
proof (induction buf pos depth and buf pos depth dict and buf pos depth xs
    arbitrary: n p and n p and n p
    rule: decode_bnode_decode_dict_loop_decode_list_loop.induct)
  case (1 buf pos depth)
  from "1.prems" obtain b where b: "current_byte buf pos = Some b" and d: "\<not> MAX_DEPTH < Suc depth"
    by (auto simp: decode_bnode.simps [of buf pos depth] split: if_splits option.splits)
  then have pos: "pos < length buf" "buf ! pos = b" and d': "depth < MAX_DEPTH"
    by (auto simp: current_byte_def split: if_splits)
  have depth: "MAX_DEPTH - depth = Suc (MAX_DEPTH - Suc depth)" using d' by simp
  have hd: "bslice buf pos p = b # bslice buf (Suc pos) p" if "pos < p"
    using bslice_Cons [OF that pos(1)] pos(2) by simp
  consider "b = 100" | "b = 108" | "b = 105" | "b \<noteq> 100" "b \<noteq> 108" "b \<noteq> 105" by blast
  then show ?case
  proof cases
    case 1
    with "1.prems" have "decode_dict_loop buf (Suc pos) (Suc depth) [] = Inr (n, p)"
      using decode_bnode_scalar(3) [OF d' b] by simp
    from "1.IH"(1) [OF d b 1 this] show ?thesis using 1 hd depth by auto
  next
    case 2
    with "1.prems" have "decode_list_loop buf (Suc pos) (Suc depth) [] = Inr (n, p)"
      using decode_bnode_scalar(4) [OF d' b] by simp
    from "1.IH"(2) [OF d b _ 2 this] 2 show ?thesis using hd depth by auto
  next
    case 3
    with "1.prems" have int: "decode_integer buf pos = Inr (n, p)"
      using decode_bnode_scalar(1) [OF d' b] by simp
    from decode_integer_sound [OF int] decode_integer_advances [OF int] b 3 depth
    show ?thesis by auto
  next
    case 4
    with "1.prems" b d obtain s where "decode_string buf pos = Inr (s, p)" "n = BString s"
      by (auto simp: decode_bnode.simps [of buf pos depth] rbind_eq_Inr split: if_splits)
    then show ?thesis using decode_string_sound decode_string_advances depth by auto
  qed
next
  case (2 buf pos depth dict)
  show ?case
  proof (cases "current_byte buf pos = Some 101")
    case True
    with "2.prems" show ?thesis
      by (auto simp: decode_dict_loop.simps [of buf pos depth dict] current_byte_def bslice_Suc
          split: if_splits)
  next
    case False
    with "2.prems" obtain key p1 v p2
      where s: "decode_string buf pos = Inr (key, p1)"
        and v: "decode_bnode buf p1 depth = Inr (v, p2)"
        and l: "decode_dict_loop buf p2 depth (dict @ [(key, v)]) = Inr (n, p)"
      by (auto simp: decode_dict_loop.simps [of buf pos depth dict] rbind_eq_Inr)
    from "2.IH"(2) [OF False s refl v refl l] obtain es
      where "n = Dictionary ((dict @ [(key, v)]) @ es)" "p2 < p" "p \<le> length buf"
        "bslice buf p2 p = concat (map encode_entry es) @ [101]"
        "list_all (\<lambda>(k, v). length k \<le> MAX_STRING_LEN \<and> wf_bnode (MAX_DEPTH - depth) v) es"
      by blast
    with "2.IH"(1) [OF False s refl v] decode_string_sound [OF s] decode_string_advances [OF s]
    show ?thesis
      by (intro exI [of _ "(key, v) # es"])
        (auto simp: bslice_split [of pos p1 p] bslice_split [of p1 p2 p])
  qed
next
  case (3 buf pos depth xs)
  show ?case
  proof (cases "current_byte buf pos = Some 101")
    case True
    with "3.prems" show ?thesis
      by (auto simp: decode_list_loop.simps [of buf pos depth xs] current_byte_def bslice_Suc
          split: if_splits)
  next
    case False
    with "3.prems" obtain v p2 where v: "decode_bnode buf pos depth = Inr (v, p2)"
        and l: "decode_list_loop buf p2 depth (xs @ [v]) = Inr (n, p)"
      by (auto simp: decode_list_loop.simps [of buf pos depth xs] rbind_eq_Inr)
    from "3.IH"(2) [OF False v refl l] obtain vs
      where "n = BList ((xs @ [v]) @ vs)" "p2 < p" "p \<le> length buf"
        "bslice buf p2 p = concat (map encode_raw vs) @ [101]"
        "list_all (wf_bnode (MAX_DEPTH - depth)) vs"
      by blast
    with "3.IH"(1) [OF False v] show ?thesis
      by (intro exI [of _ "v # vs"]) (auto simp: bslice_split [of pos p2 p])
  qed
qed

section \<open>Properties\<close>

lemma decode_Inr: "decode buf = Inr n \<longleftrightarrow> wf_bnode MAX_DEPTH n \<and> encode_raw n = buf"
proof
  assume "decode buf = Inr n"
  then have "decode_bnode buf 0 0 = Inr (n, length buf)"
    by (auto simp: decode_def rbind_eq_Inr split: if_splits)
  from decode_sound(1) [OF this] show "wf_bnode MAX_DEPTH n \<and> encode_raw n = buf" by simp
next
  assume "wf_bnode MAX_DEPTH n \<and> encode_raw n = buf"
  then show "decode buf = Inr n"
    using reads_backD [OF decode_bnode_complete [of MAX_DEPTH n 0], of "[]" "[]"]
    by (auto simp: decode_def)
qed

lemma wf_bnode_numeral [simp]:
  "wf_bnode (numeral d) (Dictionary dict) \<longleftrightarrow>
     list_all (\<lambda>(k, v). length k \<le> MAX_STRING_LEN \<and> wf_bnode (pred_numeral d) v) dict"
  "wf_bnode (numeral d) (BList xs) \<longleftrightarrow> list_all (wf_bnode (pred_numeral d)) xs"
  "wf_bnode (numeral d) (Number num) \<longleftrightarrow> valid_number num"
  "wf_bnode (numeral d) (BString s) \<longleftrightarrow> length s \<le> MAX_STRING_LEN"
  by (simp_all only: numeral_eq_Suc wf_bnode.simps)

lemma decode_list_prefix:
  assumes "d + k = MAX_DEPTH" and "rest = [] \<or> hd rest \<noteq> 101"
  shows "decode_bnode (pre @ replicate k 108 @ rest) (length pre) d =
    Inl (BencodeE NestingDepthExceeded)"
  using assms(1)
proof (induction k arbitrary: pre d)
  case 0
  then show ?case by (simp add: decode_bnode.simps)
next
  case (Suc k)
  let ?buf = "(pre @ [108]) @ replicate k 108 @ rest"
  have "decode_bnode ?buf (length (pre @ [108])) (Suc d) = Inl (BencodeE NestingDepthExceeded)"
    by (rule Suc.IH) (use Suc.prems in simp)
  moreover have "current_byte ?buf (length (pre @ [108])) \<noteq> Some 101"
    using assms(2) by (simp only: current_byte_append) (cases k; cases rest; auto simp: current_byte_def)
  ultimately have "decode_list_loop ?buf (length (pre @ [108])) (Suc d) [] =
      Inl (BencodeE NestingDepthExceeded)"
    by (subst decode_list_loop.simps) simp
  moreover have "current_byte ?buf (length pre) = Some 108" and "d < MAX_DEPTH"
    using Suc.prems by (simp_all add: current_byte_def nth_append)
  ultimately show ?case using decode_bnode_scalar(4) [of d ?buf "length pre" 108] by simp
qed

text \<open>
  C15 (\<open>Bencode::decode\<close>). The parser accepts exactly the texts of the bencode grammar: a
  buffer decodes to a node if and only if the node is within the codec's limits (nesting depth
  50, 16 MiB strings, canonical \<open>i64\<close> integers) and the buffer is the node's text. Nothing
  else is accepted, no text has two readings, and no bytes are left over.
\<close>

theorem decode_iff_grammar: "decode buf = Inr n \<longleftrightarrow> wf_bnode MAX_DEPTH n \<and> encode_raw n = buf"
  by (rule decode_Inr)

text \<open>
  C18 (\<open>Bencode::encode\<close> then \<open>Bencode::decode\<close>). Every node within the limits is read back
  from its encoding, with the entries of each dictionary in key order.
\<close>

theorem decode_encode: "wf_bnode MAX_DEPTH n \<Longrightarrow> decode (encode n) = Inr (canon n)"
  by (simp add: decode_Inr encode_def encode_node_raw wf_bnode_canon)

theorem decode_encode_witness:
  "decode (encode (Dictionary [([98], Number [49]), ([97], BString [120])])) =
     Inr (Dictionary [([97], BString [120]), ([98], Number [49])])"
proof -
  let ?n = "Dictionary [([98], Number [49]), ([97], BString [120])]"
  have "wf_bnode MAX_DEPTH ?n"
    by (simp add: MAX_DEPTH_def MAX_STRING_LEN_def valid_number_def int_byte_def
        is_ascii_digit_def invalid_integer_format_def parse_i64_def)
  moreover have "canon ?n = Dictionary [([97], BString [120]), ([98], Number [49])]"
    by simp
  ultimately show ?thesis using decode_encode [of ?n] by simp
qed

text \<open>
  \<open>Bencode::decode\<close> then \<open>Bencode::encode\<close>: A text whose dictionaries have their keys in
  order is reproduced byte for byte by decoding and encoding it again: what a hash of a
  re-encoded info dictionary relies on.
\<close>

theorem encode_decode_sorted: "decode buf = Inr n \<Longrightarrow> keys_sorted n \<Longrightarrow> encode n = buf"
  by (simp add: decode_Inr encode_def encode_node_raw canon_sorted)

theorem encode_decode_sorted_witness:
  "decode [108, 105, 52, 50, 101, 101] = Inr (BList [Number [52, 50]]) \<and>
     encode (BList [Number [52, 50]]) = [108, 105, 52, 50, 101, 101]"
proof -
  have "decode [108, 105, 52, 50, 101, 101] = Inr (BList [Number [52, 50]])"
    by (simp add: decode_Inr MAX_DEPTH_def valid_number_def int_byte_def
        is_ascii_digit_def invalid_integer_format_def parse_i64_def parse_dec_def)
  then show ?thesis using encode_decode_sorted [of "[108, 105, 52, 50, 101, 101]"] by simp
qed

text \<open>
  \<open>Bencode::decode_partial\<close>: When raw payload bytes follow an encoded node, the partial
  decoder returns the node and the number of bytes it occupies, whatever the payload is.
\<close>

theorem decode_partial_prefix:
  "wf_bnode MAX_DEPTH n \<Longrightarrow>
     decode_partial (encode n @ payload) = Inr (canon n, length (encode n))"
  using reads_backD [OF decode_bnode_complete [of MAX_DEPTH "canon n" 0], of "[]" payload]
  by (simp add: decode_partial_def encode_def encode_node_raw wf_bnode_canon)

theorem decode_partial_prefix_witness:
  "decode_partial (encode (BString [1, 2]) @ [101, 101]) = Inr (BString [1, 2], 4)"
proof -
  have "wf_bnode MAX_DEPTH (BString [1, 2])"
    by (simp add: MAX_DEPTH_def MAX_STRING_LEN_def)
  moreover have "length (encode (BString [1, 2])) = 4"
    by (simp add: encode_def encode_bytes_def dec_string.simps)
  ultimately show ?thesis using decode_partial_prefix [of "BString [1, 2]"] by simp
qed



end
