(* ===== verification/Bencode_Tokenizer.thy ===== *)
theory Bencode_Tokenizer
  imports Bencode
begin

text \<open>
  The pull tokenizer of \<open>library/src/utils/bencode_tokenizer.rs\<close>, with which the metainfo
  parser walks a torrent file without building a tree. \<open>next_token\<close> returns the advanced
  tokenizer and the next token, \<open>None\<close> at the end of the buffer. Unlike the tree parser it
  keeps its position on errors, so the error branches record where it stopped.
\<close>

datatype BencodeToken =
    DictStart
  | ListStart
  | EndToken
  | IntegerToken bytes
  | StringToken bytes

record BencodeTokenizer =
  tk_buffer :: bytes
  tk_position :: nat

definition tokenizer_new :: "bytes \<Rightarrow> BencodeTokenizer" where
  "tokenizer_new buf = \<lparr>tk_buffer = buf, tk_position = 0\<rparr>"

definition set_position :: "BencodeTokenizer \<Rightarrow> nat \<Rightarrow> BencodeTokenizer" where
  "set_position t pos = t\<lparr>tk_position := pos\<rparr>"

definition next_integer :: "BencodeTokenizer \<Rightarrow> BencodeTokenizer \<times> BencodeToken result option" where
  "next_integer t =
     (let start = Suc (tk_position t);
          (ok, fin) = scan_until int_byte 101 (tk_buffer t) start;
          stopped = set_position t fin
      in if \<not> ok then (stopped, Some (Inl (BencodeE InvalidDigit)))
         else if current_byte (tk_buffer t) fin \<noteq> Some 101
           then (stopped, Some (Inl (BencodeE UnterminatedInteger)))
         else let number_bytes = bslice (tk_buffer t) start fin in
           if length number_bytes > 20 then (stopped, Some (Inl (BencodeE IntegerTooLong)))
           else if invalid_integer_format number_bytes
             then (stopped, Some (Inl (BencodeE InvalidIntegerFormat)))
           else (set_position t (Suc fin), Some (Inr (IntegerToken number_bytes))))"

definition next_string :: "BencodeTokenizer \<Rightarrow> BencodeTokenizer \<times> BencodeToken result option" where
  "next_string t =
     (let start = tk_position t;
          (ok, fin) = scan_until is_ascii_digit 58 (tk_buffer t) start;
          stopped = set_position t fin
      in if \<not> ok then (stopped, Some (Inl (BencodeE InvalidStringLength)))
         else let length_bytes = bslice (tk_buffer t) start fin in
           if length_bytes = [] \<or> (hd length_bytes = 48 \<and> length_bytes \<noteq> [48])
             then (stopped, Some (Inl (BencodeE InvalidStringLength)))
           else if length length_bytes > 10 then (stopped, Some (Inl (BencodeE StringTooLong)))
           else let len = parse_dec length_bytes in
             if len > 16777216 then (stopped, Some (Inl (BencodeE StringTooLong)))
             else let p = Suc fin; stop = p + len in
               if stop > length (tk_buffer t)
                 then (set_position t p, Some (Inl (BencodeE UnexpectedEnd)))
               else (set_position t stop, Some (Inr (StringToken (bslice (tk_buffer t) p stop)))))"

definition next_token :: "BencodeTokenizer \<Rightarrow> BencodeTokenizer \<times> BencodeToken result option" where
  "next_token t =
     (case current_byte (tk_buffer t) (tk_position t) of
        None \<Rightarrow> (t, None)
      | Some b \<Rightarrow>
          if b = 100 then (set_position t (Suc (tk_position t)), Some (Inr DictStart))
          else if b = 108 then (set_position t (Suc (tk_position t)), Some (Inr ListStart))
          else if b = 101 then (set_position t (Suc (tk_position t)), Some (Inr EndToken))
          else if b = 105 then next_integer t
          else if is_ascii_digit b then next_string t
          else (t, Some (Inl (BencodeE (InvalidByte b)))))"

section \<open>Agreement with the tree parser on scalars\<close>

text \<open>
  The two scanners are written twice in the source. On every input the token scanner succeeds
  with the same bytes and the same position as the tree parser, and fails with the same error.
\<close>

definition token_of :: "BNode \<Rightarrow> BencodeToken" where
  "token_of n = (case n of Number b \<Rightarrow> IntegerToken b | BString b \<Rightarrow> StringToken b
     | BList _ \<Rightarrow> ListStart | Dictionary _ \<Rightarrow> DictStart)"

lemma next_integer_decode:
  "snd (next_integer t) = Some (map_sum id (token_of \<circ> fst) (decode_integer (tk_buffer t) (tk_position t)))"
  "decode_integer (tk_buffer t) (tk_position t) = Inr (n, p) \<Longrightarrow> fst (next_integer t) = set_position t p"
  by (auto simp: next_integer_def decode_integer_def Let_def token_of_def split: prod.splits if_splits)

lemma next_string_decode:
  "snd (next_string t) = Some (map_sum id (StringToken \<circ> fst) (decode_string (tk_buffer t) (tk_position t)))"
  "decode_string (tk_buffer t) (tk_position t) = Inr (s, p) \<Longrightarrow> fst (next_string t) = set_position t p"
  by (auto simp: next_string_def decode_string_def Let_def MAX_STRING_LEN_def split: prod.splits if_splits)

lemma next_token_advances:
  assumes "next_token t = (t', Some (Inr tok))"
  shows "tk_buffer t' = tk_buffer t \<and> tk_position t < tk_position t' \<and>
    tk_position t < length (tk_buffer t)"
proof -
  obtain b where b: "current_byte (tk_buffer t) (tk_position t) = Some b"
    using assms by (auto simp: next_token_def split: option.splits)
  then have pos: "tk_position t < length (tk_buffer t)"
    by (simp add: current_byte_def split: if_splits)
  consider "b = 100 \<or> b = 108 \<or> b = 101" | "b = 105" | "is_ascii_digit b"
    using assms b by (auto simp: next_token_def split: if_splits)
  then show ?thesis
  proof cases
    case 1
    with assms b pos show ?thesis by (auto simp: next_token_def set_position_def)
  next
    case 2
    with assms b have nt: "next_integer t = (t', Some (Inr tok))" by (simp add: next_token_def)
    then obtain n p where "decode_integer (tk_buffer t) (tk_position t) = Inr (n, p)"
      using next_integer_decode(1) [of t]
      by (cases "decode_integer (tk_buffer t) (tk_position t)") auto
    with nt pos next_integer_decode(2) [of t n p] show ?thesis
      by (auto simp: set_position_def dest: decode_integer_advances)
  next
    case 3
    with assms b have nt: "next_string t = (t', Some (Inr tok))"
      by (auto simp: next_token_def is_ascii_digit_def split: if_splits)
    then obtain s p where "decode_string (tk_buffer t) (tk_position t) = Inr (s, p)"
      using next_string_decode(1) [of t]
      by (cases "decode_string (tk_buffer t) (tk_position t)") auto
    with nt pos next_string_decode(2) [of t s p] show ?thesis
      by (auto simp: set_position_def dest: decode_string_advances)
  qed
qed

text \<open>
  \<open>Iterator::collect\<close> into a \<open>Result\<close>: all tokens up to the end of the buffer, or the first error.
\<close>

function collect_tokens :: "BencodeTokenizer \<Rightarrow> BencodeToken list result" where
  "collect_tokens t =
     (case next_token t of
        (_, None) \<Rightarrow> Inr []
      | (_, Some (Inl e)) \<Rightarrow> Inl e
      | (t', Some (Inr tok)) \<Rightarrow> rbind (collect_tokens t') (\<lambda>toks. Inr (tok # toks)))"
  by pat_completeness auto
termination
  by (relation "measure (\<lambda>t. length (tk_buffer t) - tk_position t)")
    (auto dest!: next_token_advances [OF sym])

declare collect_tokens.simps [simp del]

section \<open>The token stream of an encoded node\<close>

fun tokens_of :: "BNode \<Rightarrow> BencodeToken list" where
  "tokens_of (Dictionary dict) =
     [DictStart] @ concat (map (\<lambda>(k, v). [StringToken k] @ tokens_of v) dict) @ [EndToken]"
| "tokens_of (BList xs) = [ListStart] @ concat (map tokens_of xs) @ [EndToken]"
| "tokens_of (Number num) = [IntegerToken num]"
| "tokens_of (BString s) = [StringToken s]"

abbreviation (input) at_pos :: "bytes \<Rightarrow> nat \<Rightarrow> BencodeTokenizer" where
  "at_pos buf pos \<equiv> \<lparr>tk_buffer = buf, tk_position = pos\<rparr>"

text \<open>\<open>emits buf p toks q\<close>: from position \<open>p\<close> the tokenizer produces \<open>toks\<close> and arrives at \<open>q\<close>.\<close>

definition emits :: "bytes \<Rightarrow> nat \<Rightarrow> BencodeToken list \<Rightarrow> nat \<Rightarrow> bool" where
  "emits buf p toks q \<longleftrightarrow>
     collect_tokens (at_pos buf p) = rbind (collect_tokens (at_pos buf q)) (\<lambda>ts. Inr (toks @ ts))"

lemma emits_refl [simp]: "emits buf p [] p"
  by (cases "collect_tokens (at_pos buf p)") (simp_all add: emits_def)

lemma emits_trans: "emits buf p xs q \<Longrightarrow> emits buf q ys r \<Longrightarrow> emits buf p (xs @ ys) r"
  by (cases "collect_tokens (at_pos buf r)") (simp_all add: emits_def)

lemma emits_token:
  "next_token (at_pos buf p) = (at_pos buf q, Some (Inr tok)) \<Longrightarrow> emits buf p [tok] q"
  by (simp add: emits_def collect_tokens.simps [of "at_pos buf p"])

lemma emits_struct:
  assumes "current_byte buf p = Some b"
  shows "b = 100 \<Longrightarrow> emits buf p [DictStart] (Suc p)"
    and "b = 108 \<Longrightarrow> emits buf p [ListStart] (Suc p)"
    and "b = 101 \<Longrightarrow> emits buf p [EndToken] (Suc p)"
  using assms by (auto intro!: emits_token simp: next_token_def set_position_def)

lemma emits_string:
  assumes "length s \<le> MAX_STRING_LEN"
  shows "emits (pre @ encode_bytes s @ post) (length pre) [StringToken s]
    (length pre + length (encode_bytes s))"
proof (rule emits_token)
  let ?t = "at_pos (pre @ encode_bytes s @ post) (length pre)"
  have "decode_string (tk_buffer ?t) (tk_position ?t) = Inr (s, length pre + length (encode_bytes s))"
    using decode_string_encode [OF assms] by simp
  moreover have "next_token ?t = next_string ?t"
    using encode_bytes_hd [of s]
    by (auto simp: next_token_def current_byte_append is_ascii_digit_def)
  ultimately show "next_token ?t =
      (at_pos (pre @ encode_bytes s @ post) (length pre + length (encode_bytes s)), Some (Inr (StringToken s)))"
    using next_string_decode [of ?t] by (simp add: prod_eq_iff set_position_def)
qed

lemma emits_number:
  assumes "valid_number num"
  shows "emits (pre @ ([105] @ num @ [101]) @ post) (length pre) [IntegerToken num]
    (length pre + length num + 2)"
proof (rule emits_token)
  let ?t = "at_pos (pre @ ([105] @ num @ [101]) @ post) (length pre)"
  have "decode_integer (tk_buffer ?t) (tk_position ?t) = Inr (Number num, length pre + length num + 2)"
    using decode_integer_encode [OF assms, of pre post] by simp
  moreover have "next_token ?t = next_integer ?t"
    by (simp add: next_token_def current_byte_def nth_append)
  ultimately show "next_token ?t =
      (at_pos (pre @ ([105] @ num @ [101]) @ post) (length pre + length num + 2),
       Some (Inr (IntegerToken num)))"
    using next_integer_decode [of ?t] by (simp add: prod_eq_iff set_position_def token_of_def)
qed

lemma emits_concat:
  assumes "\<And>x pre post. x \<in> set xs \<Longrightarrow>
    emits (pre @ enc x @ post) (length pre) (tok x) (length pre + length (enc x))"
  shows "emits (pre @ concat (map enc xs) @ post) (length pre) (concat (map tok xs))
    (length pre + length (concat (map enc xs)))"
  using assms
proof (induction xs arbitrary: pre)
  case Nil
  then show ?case by simp
next
  case (Cons x xs)
  have "emits (pre @ enc x @ concat (map enc xs) @ post) (length pre) (tok x)
      (length pre + length (enc x))"
    by (rule Cons.prems) simp
  moreover have "emits ((pre @ enc x) @ concat (map enc xs) @ post) (length (pre @ enc x))
      (concat (map tok xs)) (length (pre @ enc x) + length (concat (map enc xs)))"
    by (rule Cons.IH) (simp add: Cons.prems)
  ultimately show ?case
    using emits_trans by (fastforce simp: add.assoc)
qed

lemma emits_bracket:
  assumes "emits (pre @ [b] @ body @ [101] @ post) (Suc (length pre)) toks
      (Suc (length pre) + length body)"
    and "emits (pre @ [b] @ body @ [101] @ post) (length pre) [start] (Suc (length pre))"
  shows "emits (pre @ ([b] @ body @ [101]) @ post) (length pre) ([start] @ toks @ [EndToken])
    (length pre + length ([b] @ body @ [101]))"
proof -
  have "current_byte (pre @ [b] @ body @ [101] @ post) (Suc (length pre) + length body) = Some 101"
    by (simp add: current_byte_def nth_append)
  then have "emits (pre @ [b] @ body @ [101] @ post) (Suc (length pre) + length body) [EndToken]
      (Suc (Suc (length pre) + length body))"
    by (rule emits_struct(3)) simp
  from emits_trans [OF assms(2) emits_trans [OF assms(1) this]] show ?thesis by simp
qed

lemma emits_node:
  "wf_bnode d n \<Longrightarrow>
     emits (pre @ encode_raw n @ post) (length pre) (tokens_of n) (length pre + length (encode_raw n))"
proof (induction d arbitrary: n pre post)
  case 0
  then show ?case by simp
next
  case (Suc d)
  show ?case
  proof (cases n)
    case (Dictionary dict)
    let ?body = "concat (map encode_entry dict)"
    have "emits ((pre @ [100]) @ ?body @ [101] @ post) (length (pre @ [100]))
        (concat (map (\<lambda>(k, v). [StringToken k] @ tokens_of v) dict)) (length (pre @ [100]) + length ?body)"
    proof (rule emits_concat)
      fix x pre' post' assume x: "x \<in> set dict"
      obtain k v where kv: "x = (k, v)" by (cases x)
      with x Dictionary Suc.prems have "length k \<le> MAX_STRING_LEN" "wf_bnode d v"
        by (auto simp: list_all_iff)
      from emits_trans [OF emits_string [OF this(1), of pre' "encode_raw v @ post'"],
          of "tokens_of v" "length pre' + length (encode_bytes k) + length (encode_raw v)"]
        Suc.IH [OF this(2), of "pre' @ encode_bytes k" post']
      show "emits (pre' @ encode_entry x @ post') (length pre')
          (case x of (k, v) \<Rightarrow> [StringToken k] @ tokens_of v) (length pre' + length (encode_entry x))"
        by (simp add: kv add.assoc)
    qed
    then show ?thesis
      using Dictionary emits_struct(1) [of "pre @ [100] @ ?body @ [101] @ post" "length pre" 100]
        emits_bracket [of pre 100 ?body post "concat (map (\<lambda>(k, v). [StringToken k] @ tokens_of v) dict)"]
      by (simp add: current_byte_def nth_append)
  next
    case (BList vs)
    let ?body = "concat (map encode_raw vs)"
    have "emits ((pre @ [108]) @ ?body @ [101] @ post) (length (pre @ [108]))
        (concat (map tokens_of vs)) (length (pre @ [108]) + length ?body)"
      by (rule emits_concat, rule Suc.IH) (use BList Suc.prems in \<open>auto simp: list_all_iff\<close>)
    then show ?thesis
      using BList emits_struct(2) [of "pre @ [108] @ ?body @ [101] @ post" "length pre" 108]
        emits_bracket [of pre 108 ?body post "concat (map tokens_of vs)"]
      by (simp add: current_byte_def nth_append)
  next
    case (Number num)
    then show ?thesis using emits_number [of num pre post] Suc.prems by (simp add: add.assoc)
  next
    case (BString s)
    then show ?thesis using emits_string [of s pre post] Suc.prems by simp
  qed
qed

section \<open>Properties\<close>

text \<open>
  C39 (\<open>BencodeTokenizer::next_token\<close> against \<open>Bencode::decode\<close>). For every buffer the tree
  parser accepts, the tokenizer run to its end produces exactly the token stream of the
  parsed tree, with no error: the two independent readers of torrent files agree.
\<close>

theorem tokenizer_agrees_with_decode:
  "decode buf = Inr n \<Longrightarrow> collect_tokens (tokenizer_new buf) = Inr (tokens_of n)"
proof -
  assume "decode buf = Inr n"
  then have wf: "wf_bnode MAX_DEPTH n" and buf: "encode_raw n = buf" by (simp_all add: decode_Inr)
  have "collect_tokens (at_pos buf (length buf)) = Inr []"
    by (subst collect_tokens.simps) (simp add: next_token_def current_byte_def)
  with emits_node [OF wf, of "[]" "[]"] buf show ?thesis
    by (simp add: emits_def tokenizer_new_def)
qed

theorem tokenizer_agrees_with_decode_witness:
  "collect_tokens (tokenizer_new [108, 105, 55, 101, 101]) = Inr [ListStart, IntegerToken [55], EndToken]"
proof -
  have "decode [108, 105, 55, 101, 101] = Inr (BList [Number [55]])"
    by (simp add: decode_Inr MAX_DEPTH_def valid_number_def int_byte_def
        is_ascii_digit_def invalid_integer_format_def parse_i64_def)
  from tokenizer_agrees_with_decode [OF this] show ?thesis by simp
qed

end
