(* ===== verification/Peer_Message.thy ===== *)
theory Peer_Message
  imports BT_Prelude
begin

text \<open>
  The peer wire protocol: messages, their encoding and decoding and the handshake
  (\<open>library/src/network/peer_message.rs\<close>), and the framed reads of \<open>PeerNetwork\<close>
  (\<open>library/src/network/peer_network.rs\<close>). A fixed-size array is a byte list of that length;
  \<open>valid_message\<close> states the lengths the Rust types give. The socket a \<open>PeerNetwork\<close> reads
  from is the list of what its successive reads return: data in chunks of any size, errors,
  and end of file once the list is used up.
\<close>

section \<open>Messages\<close>

datatype PeerMessage =
    KeepAlive
  | Choke
  | Unchoke
  | Interested
  | NotInterested
  | Have u32
  | Bitfield bytes
  | Request u32 u32 u32
  | Piece u32 u32 bytes
  | Cancel u32 u32 u32
  | Port u16
  | Extended u8 bytes
  | Suggest u32
  | HaveAll
  | HaveNone
  | Reject u32 u32 u32
  | AllowedFast u32
  | HashRequest bytes u32 u32 u32 u32
  | Hashes bytes u32 u32 u32 u32 bytes
  | HashReject bytes u32 u32 u32 u32

definition encode_single_u32 :: "u8 \<Rightarrow> u32 \<Rightarrow> bytes" where
  "encode_single_u32 message_id val = u32_to_be_bytes 5 @ [message_id] @ u32_to_be_bytes val"

definition decode_single_u32 :: "bytes \<Rightarrow> string \<Rightarrow> u32 result" where
  "decode_single_u32 payload name =
     (if length payload \<noteq> SIZE_OF_U32 then Inl (Parse (''Invalid '' @ name @ '' payload length''))
      else Inr (from_be payload))"

definition encode_hash_control :: "u8 \<Rightarrow> bytes \<Rightarrow> u32 \<Rightarrow> u32 \<Rightarrow> u32 \<Rightarrow> u32 \<Rightarrow> bytes" where
  "encode_hash_control message_id root base index len proof_layers =
     u32_to_be_bytes 49 @ [message_id] @ root @ u32_to_be_bytes base @ u32_to_be_bytes index @
       u32_to_be_bytes len @ u32_to_be_bytes proof_layers"

definition decode_hash_control :: "bytes \<Rightarrow> string \<Rightarrow> (bytes \<times> u32 \<times> u32 \<times> u32 \<times> u32) result" where
  "decode_hash_control payload name =
     (if length payload \<noteq> 48 then Inl (Parse (''Invalid '' @ name @ '' payload length''))
      else Inr (bslice payload 0 32, from_be (bslice payload 32 36), from_be (bslice payload 36 40),
                from_be (bslice payload 40 44), from_be (bslice payload 44 48)))"

definition encode_triple_u32 :: "u8 \<Rightarrow> u32 \<Rightarrow> u32 \<Rightarrow> u32 \<Rightarrow> bytes" where
  "encode_triple_u32 message_id v1 v2 v3 =
     u32_to_be_bytes (1 + 12) @ [message_id] @ u32_to_be_bytes v1 @ u32_to_be_bytes v2 @
       u32_to_be_bytes v3"

definition decode_triple_u32 :: "bytes \<Rightarrow> (u32 \<times> u32 \<times> u32) result" where
  "decode_triple_u32 payload =
     (if length payload \<noteq> 12 then Inl (Parse ''Invalid message payload length'')
      else Inr (from_be (bslice payload 0 4), from_be (bslice payload 4 8),
                from_be (bslice payload 8 12)))"

text \<open>\<open>PeerMessage::encode\<close>; the length fields are \<open>usize\<close> values cast to \<open>u32\<close>.\<close>

fun message_encode :: "PeerMessage \<Rightarrow> bytes" where
  "message_encode KeepAlive = [0, 0, 0, 0]"
| "message_encode Choke = [0, 0, 0, 1, 0]"
| "message_encode Unchoke = [0, 0, 0, 1, 1]"
| "message_encode Interested = [0, 0, 0, 1, 2]"
| "message_encode NotInterested = [0, 0, 0, 1, 3]"
| "message_encode (Have index) = encode_single_u32 4 index"
| "message_encode (Bitfield bitfield) =
     u32_to_be_bytes (of_nat (1 + length bitfield)) @ [5] @ bitfield"
| "message_encode (Request index begin len) = encode_triple_u32 6 index begin len"
| "message_encode (Piece index begin block) =
     u32_to_be_bytes (of_nat (1 + 8 + length block)) @ [7] @ u32_to_be_bytes index @
       u32_to_be_bytes begin @ block"
| "message_encode (Cancel index begin len) = encode_triple_u32 8 index begin len"
| "message_encode (Port port) = u32_to_be_bytes 3 @ [9] @ u16_to_be_bytes port"
| "message_encode (Extended ext_id payload) =
     u32_to_be_bytes (of_nat (1 + 1 + length payload)) @ [20] @ [ext_id] @ payload"
| "message_encode (Suggest index) = encode_single_u32 13 index"
| "message_encode HaveAll = [0, 0, 0, 1, 14]"
| "message_encode HaveNone = [0, 0, 0, 1, 15]"
| "message_encode (Reject index begin len) = encode_triple_u32 16 index begin len"
| "message_encode (AllowedFast index) = encode_single_u32 17 index"
| "message_encode (HashRequest root base index len proof_layers) =
     encode_hash_control 21 root base index len proof_layers"
| "message_encode (Hashes root base index len proof_layers hashes) =
     u32_to_be_bytes (of_nat (1 + 32 + 16 + length hashes)) @ [22] @ root @
       u32_to_be_bytes base @ u32_to_be_bytes index @ u32_to_be_bytes len @
       u32_to_be_bytes proof_layers @ hashes"
| "message_encode (HashReject root base index len proof_layers) =
     encode_hash_control 23 root base index len proof_layers"

text \<open>\<open>PeerMessage::decode\<close>, on the message without its length prefix.\<close>

definition message_decode :: "bytes \<Rightarrow> PeerMessage result" where
  "message_decode buffer =
     (case buffer of
        [] \<Rightarrow> Inr KeepAlive
      | message_id # payload \<Rightarrow>
          if message_id = 0 then Inr Choke
          else if message_id = 1 then Inr Unchoke
          else if message_id = 2 then Inr Interested
          else if message_id = 3 then Inr NotInterested
          else if message_id = 4 then rbind (decode_single_u32 payload ''HAVE'') (Inr \<circ> Have)
          else if message_id = 5 then Inr (Bitfield payload)
          else if message_id = 6 then
            rbind (decode_triple_u32 payload) (\<lambda>(index, begin, len). Inr (Request index begin len))
          else if message_id = 7 then
            (if length payload < 8 then Inl (Parse ''Invalid PIECE payload length'')
             else Inr (Piece (from_be (bslice payload 0 4)) (from_be (bslice payload 4 8))
                         (drop 8 payload)))
          else if message_id = 8 then
            rbind (decode_triple_u32 payload) (\<lambda>(index, begin, len). Inr (Cancel index begin len))
          else if message_id = 9 then
            (if length payload \<noteq> 2 then Inl (Parse ''Invalid PORT payload length'')
             else Inr (Port (from_be payload)))
          else if message_id = 20 then
            (case payload of
               [] \<Rightarrow> Inl (Parse ''Invalid EXTENDED payload length'')
             | ext_id # ext_payload \<Rightarrow> Inr (Extended ext_id ext_payload))
          else if message_id = 13 then rbind (decode_single_u32 payload ''SUGGEST'') (Inr \<circ> Suggest)
          else if message_id = 14 then Inr HaveAll
          else if message_id = 15 then Inr HaveNone
          else if message_id = 16 then
            rbind (decode_triple_u32 payload) (\<lambda>(index, begin, len). Inr (Reject index begin len))
          else if message_id = 17 then
            rbind (decode_single_u32 payload ''ALLOWED FAST'') (Inr \<circ> AllowedFast)
          else if message_id = 21 then
            rbind (decode_hash_control payload ''HASH_REQUEST'')
              (\<lambda>(root, base, index, len, layers). Inr (HashRequest root base index len layers))
          else if message_id = 22 then
            (if length payload < 48 \<or> (length payload - 48) mod 32 \<noteq> 0
             then Inl (Parse ''Invalid HASHES payload length'')
             else rbind (decode_hash_control (take 48 payload) ''HASHES'')
               (\<lambda>(root, base, index, len, layers).
                  Inr (Hashes root base index len layers (drop 48 payload))))
          else if message_id = 23 then
            rbind (decode_hash_control payload ''HASH_REJECT'')
              (\<lambda>(root, base, index, len, layers). Inr (HashReject root base index len layers))
          else Inl (Parse ''Unknown peer message ID''))"

section \<open>Handshake\<close>

definition PROTOCOL_STRING :: bytes where
  "PROTOCOL_STRING = bytes_of_string ''BitTorrent protocol''"

definition handshake_encode :: "bytes \<Rightarrow> bytes \<Rightarrow> bytes result" where
  "handshake_encode info_hash peer_id =
     (if length info_hash \<noteq> HASH_LENGTH then Inl (Parse ''Info hash must be 20 bytes'')
      else if length peer_id \<noteq> PEER_ID_LENGTH then Inl (Parse ''Peer ID must be 20 bytes'')
      else
        let reserved0 = replicate 8 (0 :: u8);
            reserved1 = reserved0[5 := reserved0 ! 5 OR 0x10];
            reserved = reserved1[7 := reserved1 ! 7 OR 0x04]
        in Inr ([19] @ PROTOCOL_STRING @ reserved @ info_hash @ peer_id))"

definition handshake_decode_arrays :: "bytes \<Rightarrow> (bytes \<times> bytes \<times> bytes) result" where
  "handshake_decode_arrays buffer =
     (if length buffer \<noteq> INITIAL_HANDSHAKE_LENGTH then Inl (Parse ''Invalid handshake length'')
      else if buffer ! 0 \<noteq> 19 then Inl (Parse ''Invalid handshake protocol length'')
      else if bslice buffer 1 20 \<noteq> PROTOCOL_STRING
        then Inl (Parse ''Invalid handshake protocol string'')
      else Inr (bslice buffer 28 48, bslice buffer 48 68, bslice buffer 20 28))"

definition handshake_decode :: "bytes \<Rightarrow> (bytes \<times> bytes \<times> bytes) result" where
  "handshake_decode buffer =
     rbind (handshake_decode_arrays buffer)
       (\<lambda>(info_hash, peer_id, reserved). Inr (info_hash, peer_id, reserved))"

section \<open>Framed reads\<close>

text \<open>What one \<open>AsyncSocket::read\<close> returns; a read takes at most \<open>limit\<close> bytes of a chunk.\<close>

datatype SockEvent = Data bytes | Fail BitTorrentError

fun socket_read :: "SockEvent list \<Rightarrow> nat \<Rightarrow> bytes result \<times> SockEvent list" where
  "socket_read [] limit = (Inr [], [])"
| "socket_read (Data bs # es) limit =
     (Inr (take limit bs), if length bs \<le> limit then es else Data (drop limit bs) # es)"
| "socket_read (Fail e # es) limit = (Inl e, es)"

fun is_timeout_or_wouldblock :: "BitTorrentError \<Rightarrow> bool" where
  "is_timeout_or_wouldblock (Io k _) \<longleftrightarrow> k = WouldBlock \<or> k = TimedOut"
| "is_timeout_or_wouldblock _ \<longleftrightarrow> False"

fun sock_weight :: "SockEvent list \<Rightarrow> nat" where
  "sock_weight [] = 0"
| "sock_weight (Data bs # es) = Suc (length bs) + sock_weight es"
| "sock_weight (Fail e # es) = Suc (sock_weight es)"

lemma socket_read_weight:
  "socket_read es limit = (r, es') \<Longrightarrow> 0 < limit \<Longrightarrow> r \<noteq> Inr [] \<Longrightarrow> sock_weight es' < sock_weight es"
  by (induction es limit rule: socket_read.induct) (auto split: if_splits)

text \<open>
  The read loop that \<open>read_exact\<close>, \<open>read_handshake_arrays\<close> and \<open>read_message\<close> each contain:
  fill \<open>len\<close> bytes; end of file is the error \<open>eof\<close>; a timeout is retried when
  \<open>may_retry offset retries\<close> allows, any other error is returned as \<open>wrap offset e\<close>.
\<close>

function fill_loop ::
  "(nat \<Rightarrow> nat \<Rightarrow> bool) \<Rightarrow> BitTorrentError \<Rightarrow> (nat \<Rightarrow> BitTorrentError \<Rightarrow> BitTorrentError) \<Rightarrow>
     nat \<Rightarrow> bytes \<Rightarrow> nat \<Rightarrow> SockEvent list \<Rightarrow> bytes result \<times> SockEvent list" where
  "fill_loop may_retry eof wrap len acc retries es =
     (if len \<le> length acc then (Inr acc, es)
      else case socket_read es (len - length acc) of
        (Inr bs, es') \<Rightarrow>
          if bs = [] then (Inl eof, es') else fill_loop may_retry eof wrap len (acc @ bs) 0 es'
      | (Inl e, es') \<Rightarrow>
          if is_timeout_or_wouldblock e \<and> may_retry (length acc) retries
          then fill_loop may_retry eof wrap len acc (Suc retries) es'
          else (Inl (wrap (length acc) e), es'))"
  by pat_completeness auto
termination
  by (relation "measure (\<lambda>(_, _, _, _, _, _, es). sock_weight es)")
    (auto dest!: socket_read_weight [OF sym])

declare fill_loop.simps [simp del]

definition read_exact :: "nat \<Rightarrow> SockEvent list \<Rightarrow> bytes result \<times> SockEvent list" where
  "read_exact len es =
     fill_loop (\<lambda>offset retries. offset > 0 \<and> retries < 15)
       (Parse ''Unexpected EOF reading socket'') (\<lambda>_ e. e) len [] 0 es"

definition read_handshake_arrays :: "SockEvent list \<Rightarrow> (bytes \<times> bytes \<times> bytes) result \<times> SockEvent list" where
  "read_handshake_arrays es =
     (case fill_loop (\<lambda>_ retries. retries < 3) (Parse ''Unexpected EOF reading handshake'')
             (\<lambda>_ e. e) INITIAL_HANDSHAKE_LENGTH [] 0 es of
        (Inl e, es') \<Rightarrow> (Inl e, es')
      | (Inr buffer, es') \<Rightarrow> (handshake_decode_arrays buffer, es'))"

definition MAX_WIRE_MESSAGE_LEN :: nat where
  "MAX_WIRE_MESSAGE_LEN = 32 * 1024"

definition read_payload :: "nat \<Rightarrow> SockEvent list \<Rightarrow> bytes result \<times> SockEvent list" where
  "read_payload len es =
     fill_loop (\<lambda>_ retries. retries < 15) (Parse ''Unexpected EOF reading message payload'')
       (\<lambda>offset err. Parse (''Failed to read full message payload (got '' @ string_of_nat offset @
            '' of '' @ string_of_nat len @ '' bytes): '' @ error_display err))
       len [] 0 es"

text \<open>The length limits by message ID that \<open>read_message\<close> enforces; \<open>cap\<close> is \<open>read_buffer.len()\<close>.\<close>

definition check_length :: "u8 \<Rightarrow> nat \<Rightarrow> nat \<Rightarrow> unit result" where
  "check_length i len cap =
     (if i \<in> {0, 1, 2, 3, 14, 15} then
        (if len \<noteq> 1 then Inl (Parse (''Invalid length '' @ string_of_nat len @
            '' for control message ID '' @ string_of_nat (unat i))) else Inr ())
      else if i \<in> {4, 13, 17} then
        (if len \<noteq> 5 then Inl (Parse (''Invalid length '' @ string_of_nat len @
            '' for ID '' @ string_of_nat (unat i))) else Inr ())
      else if i \<in> {6, 8, 16} then
        (if len \<noteq> 13 then Inl (Parse (''Invalid length '' @ string_of_nat len @
            '' for ID '' @ string_of_nat (unat i))) else Inr ())
      else if i = 9 then
        (if len \<noteq> 3 then Inl (Parse (''Invalid length '' @ string_of_nat len @
            '' for Port ID'')) else Inr ())
      else if i = 7 then
        (if len < 9 \<or> len > 16384 + 9 then Inl (Parse (''Invalid length '' @ string_of_nat len @
            '' for Piece ID'')) else Inr ())
      else if len > cap then Inl (Parse (''Message length '' @ string_of_nat len @
            '' exceeds buffer size''))
      else Inr ())"

definition read_message :: "nat \<Rightarrow> SockEvent list \<Rightarrow> PeerMessage result \<times> SockEvent list" where
  "read_message cap es =
     (case read_exact 4 es of
        (Inl e, es1) \<Rightarrow> (Inl e, es1)
      | (Inr length_buf, es1) \<Rightarrow>
          let len = unat (from_be length_buf :: u32) in
          if len = 0 then (Inr KeepAlive, es1)
          else if len > MAX_WIRE_MESSAGE_LEN then (Inl (MessageTooLarge len), es1)
          else if len > cap then
            (Inl (Parse (''Message length '' @ string_of_nat len @ '' exceeds read buffer size '' @
               string_of_nat cap)), es1)
          else case read_payload len es1 of
              (Inl e, es2) \<Rightarrow> (Inl e, es2)
            | (Inr payload, es2) \<Rightarrow>
                (rbind (check_length (payload ! 0) len cap) (\<lambda>_. message_decode payload), es2))"

section \<open>Well-formed messages and the codec\<close>

fun valid_message :: "PeerMessage \<Rightarrow> bool" where
  "valid_message (HashRequest root _ _ _ _) \<longleftrightarrow> length root = 32"
| "valid_message (Hashes root _ _ _ _ hashes) \<longleftrightarrow> length root = 32 \<and> length hashes mod 32 = 0"
| "valid_message (HashReject root _ _ _ _) \<longleftrightarrow> length root = 32"
| "valid_message _ \<longleftrightarrow> True"

fun control_message :: "PeerMessage \<Rightarrow> bool" where
  "control_message m \<longleftrightarrow> m \<in> {Choke, Unchoke, Interested, NotInterested, HaveAll, HaveNone}"

definition message_body :: "PeerMessage \<Rightarrow> bytes" where
  "message_body m = drop 4 (message_encode m)"

lemmas codec_defs = encode_single_u32_def decode_single_u32_def encode_hash_control_def
  decode_hash_control_def encode_triple_u32_def decode_triple_u32_def SIZE_OF_U32_def

lemma decode_message_body: "valid_message m \<Longrightarrow> message_decode (message_body m) = Inr m"
  by (cases m)
    (simp_all add: message_body_def message_decode_def codec_defs bslice_def)

lemma message_encode_prefix:
  "message_encode m = u32_to_be_bytes (of_nat (length (message_body m))) @ message_body m"
  if "valid_message m"
proof -
  have small: "u32_to_be_bytes 0 = [0, 0, 0, 0]" "u32_to_be_bytes 1 = [0, 0, 0, 1]"
    by (simp_all add: to_be_def upt_rec)
  show ?thesis
    using that by (cases m) (simp_all add: message_body_def codec_defs small)
qed

lemma to_be_u32_slice [simp]:
  "b = a + 4 \<Longrightarrow> b \<le> length xs \<Longrightarrow> u32_to_be_bytes (from_be (bslice xs a b)) = bslice xs a b"
  by (rule to_be_from_be) simp_all

lemma bslice_tail: "a \<le> length xs \<Longrightarrow> b = length xs \<Longrightarrow> bslice xs a b = drop a xs"
  by (simp add: bslice_def)

lemma slices_4_8:
  "8 \<le> length xs \<Longrightarrow> take 4 xs @ bslice xs 4 8 @ drop 8 xs = xs"
  using bslice_split [of 0 4 8 xs] append_take_drop_id [of 8 xs] by simp

lemma decode_single_u32_sound:
  "decode_single_u32 p name = Inr v \<Longrightarrow> u32_to_be_bytes v = p"
  by (auto simp: codec_defs to_be_from_be split: if_splits)

lemma decode_triple_u32_sound:
  assumes "decode_triple_u32 p = Inr (a, b, c)"
  shows "u32_to_be_bytes a @ u32_to_be_bytes b @ u32_to_be_bytes c = p"
proof -
  from assms have l: "length p = 12" and eq: "a = from_be (bslice p 0 4)"
    "b = from_be (bslice p 4 8)" "c = from_be (bslice p 8 12)"
    by (auto simp: decode_triple_u32_def split: if_splits)
  have "bslice p 0 12 = bslice p 0 4 @ bslice p 4 8 @ bslice p 8 12"
    using bslice_split [of 0 4 12 p] bslice_split [of 4 8 12 p] by simp
  with l show ?thesis by (simp add: eq del: bslice_0) simp
qed

lemma decode_hash_control_sound:
  assumes "decode_hash_control p name = Inr (root, a, b, c, d)"
  shows "length root = 32 \<and> root @ u32_to_be_bytes a @ u32_to_be_bytes b @ u32_to_be_bytes c @
    u32_to_be_bytes d = p"
proof -
  from assms have l: "length p = 48" and eq: "root = bslice p 0 32" "a = from_be (bslice p 32 36)"
    "b = from_be (bslice p 36 40)" "c = from_be (bslice p 40 44)" "d = from_be (bslice p 44 48)"
    by (auto simp: decode_hash_control_def simp del: bslice_0 split: if_splits)
  have "bslice p 0 48 = bslice p 0 32 @ bslice p 32 36 @ bslice p 36 40 @ bslice p 40 44 @
      bslice p 44 48"
    using bslice_split [of 0 32 48 p] bslice_split [of 32 36 48 p] bslice_split [of 36 40 48 p]
      bslice_split [of 40 44 48 p] by simp
  with l show ?thesis by (simp add: eq del: bslice_0) simp
qed

lemma message_decode_sound:
  assumes "message_decode buf = Inr m"
  shows "valid_message m \<and> (\<exists>pad. buf = message_body m @ pad \<and> (pad = [] \<or> control_message m))"
proof (cases buf)
  case Nil
  with assms show ?thesis by (auto simp: message_decode_def message_body_def)
next
  case (Cons i p)
  have hashes: "r @ a @ b @ c @ d = take 48 p \<Longrightarrow> p = r @ a @ b @ c @ d @ drop 48 p"
    for r a b c d by (metis append_assoc append_take_drop_id)
  from assms Cons show ?thesis
    by (auto simp: message_decode_def message_body_def rbind_eq_Inr slices_4_8
        encode_single_u32_def encode_triple_u32_def encode_hash_control_def to_be_from_be
        split: if_splits list.splits intro: hashes
        dest!: decode_single_u32_sound decode_triple_u32_sound decode_hash_control_sound)
qed

section \<open>Framing\<close>

text \<open>
  \<open>calm mx budget es\<close>: no read of \<open>es\<close> fails but for timeouts, at most \<open>mx\<close> in a row, and at most
  \<open>budget\<close> before the next data. \<open>stream_data es\<close> is the byte stream that arrives.
\<close>

fun calm :: "nat \<Rightarrow> nat \<Rightarrow> SockEvent list \<Rightarrow> bool" where
  "calm mx budget [] \<longleftrightarrow> True"
| "calm mx budget (Data bs # es) \<longleftrightarrow> bs \<noteq> [] \<and> calm mx mx es"
| "calm mx budget (Fail e # es) \<longleftrightarrow>
     is_timeout_or_wouldblock e \<and> 0 < budget \<and> calm mx (budget - 1) es"

fun stream_data :: "SockEvent list \<Rightarrow> bytes" where
  "stream_data [] = []"
| "stream_data (Data bs # es) = bs @ stream_data es"
| "stream_data (Fail e # es) = stream_data es"

lemma calm_mono: "calm mx b es \<Longrightarrow> b \<le> c \<Longrightarrow> calm mx c es"
proof (induction es arbitrary: b c)
  case (Cons e es)
  then show ?case by (cases e) (auto elim: Cons.IH)
qed simp

lemma fill_loop_calm:
  assumes "\<And>ofs r. 0 < ofs \<Longrightarrow> r < mx \<Longrightarrow> may_retry ofs r"
    and "calm mx b es" and "retries + b \<le> mx"
    and "acc = [] \<Longrightarrow> b = 0 \<or> (\<forall>r < mx. may_retry 0 r)"
    and "length acc \<le> len" and "len \<le> length acc + length (stream_data es)"
  shows "\<exists>es'. fill_loop may_retry eof wrap len acc retries es =
        (Inr (acc @ take (len - length acc) (stream_data es)), es') \<and>
      stream_data es' = drop (len - length acc) (stream_data es) \<and> calm mx mx es'"
  using assms(2-)
proof (induction "sock_weight es" arbitrary: es acc retries b rule: less_induct)
  case less
  show ?case
  proof (cases "len \<le> length acc")
    case True
    with less.prems show ?thesis
      by (auto simp: fill_loop.simps intro: calm_mono)
  next
    case False
    then obtain e es1 where es: "es = e # es1" using less.prems by (cases es) auto
    show ?thesis
    proof (cases e)
      case (Data bs)
      let ?k = "len - length acc"
      let ?es' = "if length bs \<le> ?k then es1 else Data (drop ?k bs) # es1"
      have bs: "bs \<noteq> []" "calm mx mx es1" using less.prems es Data by auto
      have step: "fill_loop may_retry eof wrap len acc retries es =
          fill_loop may_retry eof wrap len (acc @ take ?k bs) 0 ?es'"
        using False es Data bs by (subst fill_loop.simps) simp
      have "\<exists>es'. fill_loop may_retry eof wrap len (acc @ take ?k bs) 0 ?es' =
            (Inr ((acc @ take ?k bs) @ take (len - length (acc @ take ?k bs)) (stream_data ?es')), es') \<and>
          stream_data es' = drop (len - length (acc @ take ?k bs)) (stream_data ?es') \<and> calm mx mx es'"
        by (rule less.hyps [of _ mx]) (use less.prems False es Data bs in \<open>auto\<close>)
      then show ?thesis
        unfolding step using es Data less.prems(4) False by (auto simp: min_def)
    next
      case (Fail err)
      have retry: "is_timeout_or_wouldblock err" "may_retry (length acc) retries" "0 < b"
        using less.prems es Fail assms(1) [of "length acc" retries] by (cases acc; auto)+
      have step: "fill_loop may_retry eof wrap len acc retries es =
          fill_loop may_retry eof wrap len acc (Suc retries) es1"
        using False es Fail retry by (subst fill_loop.simps) simp
      have "\<exists>es'. fill_loop may_retry eof wrap len acc (Suc retries) es1 =
            (Inr (acc @ take (len - length acc) (stream_data es1)), es') \<and>
          stream_data es' = drop (len - length acc) (stream_data es1) \<and> calm mx mx es'"
        by (rule less.hyps [of _ "b - 1"]) (use less.prems es Fail retry in auto)
      then show ?thesis unfolding step using es Fail by simp
    qed
  qed
qed

lemma read_exact_calm:
  assumes "calm 15 0 es" and "len \<le> length (stream_data es)"
  shows "\<exists>es'. read_exact len es = (Inr (take len (stream_data es)), es') \<and>
    stream_data es' = drop len (stream_data es) \<and> calm 15 15 es'"
  using fill_loop_calm [of 15 "\<lambda>offset retries. offset > 0 \<and> retries < 15" 0 es 0 "[]" len] assms
  by (simp add: read_exact_def)

lemma read_payload_calm:
  assumes "calm 15 15 es" and "len \<le> length (stream_data es)"
  shows "\<exists>es'. read_payload len es = (Inr (take len (stream_data es)), es') \<and>
    stream_data es' = drop len (stream_data es) \<and> calm 15 15 es'"
  using fill_loop_calm [of 15 "\<lambda>_ retries. retries < 15" 15 es 0 "[]" len] assms
  by (simp add: read_payload_def)

lemma socket_read_data:
  "socket_read es limit = (Inr bs, es') \<Longrightarrow> length bs \<le> limit \<and> stream_data es = bs @ stream_data es'"
  by (induction es limit rule: socket_read.induct) (auto split: if_splits)

lemma socket_read_fail:
  "socket_read es limit = (Inl e, es') \<Longrightarrow> stream_data es = stream_data es'"
  by (induction es limit rule: socket_read.induct) auto

text \<open>What a completed loop returns is the next \<open>len\<close> bytes of the stream, and no others are taken.\<close>

lemma fill_loop_sound:
  "fill_loop may_retry eof wrap len acc retries es = (Inr bs, es') \<Longrightarrow> length acc \<le> len \<Longrightarrow>
     length bs = len \<and> acc @ stream_data es = bs @ stream_data es'"
proof (induction may_retry eof wrap len acc retries es
    arbitrary: bs es' rule: fill_loop.induct)
  case (1 may_retry eof wrap len acc retries es)
  show ?case
  proof (cases "len \<le> length acc")
    case True
    with "1.prems" show ?thesis by (simp add: fill_loop.simps)
  next
    case False
    obtain r es1 where r: "socket_read es (len - length acc) = (r, es1)" by force
    show ?thesis
    proof (cases r)
      case (Inl e)
      with "1.prems" False r have "is_timeout_or_wouldblock e \<and> may_retry (length acc) retries"
        and "fill_loop may_retry eof wrap len acc (Suc retries) es1 = (Inr bs, es')"
        by (simp_all add: fill_loop.simps [of _ _ _ _ _ _ es] split: if_splits)
      from "1.IH"(1) [OF False r [symmetric] Inl this "1.prems"(2)]
      show ?thesis using socket_read_fail r Inl by simp
    next
      case (Inr cs)
      with "1.prems" False r have "cs \<noteq> []"
        and rec: "fill_loop may_retry eof wrap len (acc @ cs) 0 es1 = (Inr bs, es')"
        by (simp_all add: fill_loop.simps [of _ _ _ _ _ _ es] split: if_splits)
      moreover have "length cs \<le> len - length acc" "stream_data es = cs @ stream_data es1"
        using socket_read_data r Inr by simp_all
      ultimately show ?thesis
        using "1.IH"(2) [OF False r [symmetric] Inr _ rec] False by simp
    qed
  qed
qed

definition wire_limits :: "nat \<Rightarrow> PeerMessage \<Rightarrow> bool" where
  "wire_limits cap m \<longleftrightarrow> length (message_body m) \<le> MAX_WIRE_MESSAGE_LEN \<and>
     length (message_body m) \<le> cap \<and>
     (case m of Piece _ _ block \<Rightarrow> length block \<le> 16384 | _ \<Rightarrow> True)"

lemma check_length_body:
  "valid_message m \<Longrightarrow> wire_limits cap m \<Longrightarrow> m \<noteq> KeepAlive \<Longrightarrow>
     check_length (message_body m ! 0) (length (message_body m)) cap = Inr ()"
  by (cases m) (simp_all add: check_length_def message_body_def wire_limits_def codec_defs)

lemma message_body_empty: "message_body m = [] \<longleftrightarrow> m = KeepAlive"
  by (cases m) (simp_all add: message_body_def codec_defs)

lemma wire_length_unat:
  "len \<le> MAX_WIRE_MESSAGE_LEN \<Longrightarrow> unat (of_nat len :: u32) = len"
  by (simp add: MAX_WIRE_MESSAGE_LEN_def unat_of_nat)

lemma read_message_complete:
  assumes "calm 15 0 es" and data: "stream_data es = message_encode m @ rest"
    and valid: "valid_message m" and limits: "wire_limits cap m"
  shows "\<exists>es'. read_message cap es = (Inr m, es') \<and> stream_data es' = rest \<and> calm 15 15 es'"
proof -
  let ?n = "length (message_body m)"
  have n: "?n \<le> MAX_WIRE_MESSAGE_LEN" "?n \<le> cap" using limits by (simp_all add: wire_limits_def)
  have split: "stream_data es = u32_to_be_bytes (of_nat ?n) @ message_body m @ rest"
    using data message_encode_prefix [OF valid] by simp
  obtain es1 where es1: "read_exact 4 es = (Inr (u32_to_be_bytes (of_nat ?n)), es1)"
      "stream_data es1 = message_body m @ rest" "calm 15 15 es1"
    using read_exact_calm [OF assms(1), of 4] split by auto
  have len: "unat (from_be (u32_to_be_bytes (of_nat ?n)) :: u32) = ?n"
    using wire_length_unat [OF n(1)] by simp
  obtain es2 where es2: "read_payload ?n es1 = (Inr (message_body m), es2)"
      "stream_data es2 = rest" "calm 15 15 es2"
    using read_payload_calm [OF es1(3), of ?n] es1(2) by auto
  show ?thesis
  proof (cases "m = KeepAlive")
    case True
    with es1 len message_body_empty [of m] show ?thesis by (simp add: read_message_def)
  next
    case False
    with es1 es2 len n message_body_empty [of m] check_length_body [OF valid limits]
      decode_message_body [OF valid] show ?thesis
      by (auto simp: read_message_def Let_def)
  qed
qed

lemma check_length_control:
  "check_length (message_body m ! 0) len cap = Inr () \<Longrightarrow> control_message m \<Longrightarrow> len = 1"
  by (cases m) (auto simp: check_length_def message_body_def split: if_splits)

lemma check_length_piece:
  "check_length (message_body (Piece i b block) ! 0) (length (message_body (Piece i b block))) cap =
     Inr () \<Longrightarrow> length block \<le> 16384"
  by (simp add: check_length_def message_body_def split: if_splits)

lemma read_message_sound:
  assumes "read_message cap es = (Inr m, es')"
  shows "stream_data es = message_encode m @ stream_data es' \<and> valid_message m \<and> wire_limits cap m"
proof -
  obtain lb es1 where lb: "read_exact 4 es = (Inr lb, es1)"
    using assms by (auto simp: read_message_def split: prod.splits sum.splits)
  then have lb': "length lb = 4" "stream_data es = lb @ stream_data es1"
    using fill_loop_sound by (fastforce simp: read_exact_def)+
  define len where "len = unat (from_be lb :: u32)"
  have be: "u32_to_be_bytes (of_nat len) = lb"
    using to_be_from_be [OF lb'(1), where 'a = 32] by (simp add: len_def)
  show ?thesis
  proof (cases "len = 0")
    case True
    then have "m = KeepAlive" "es' = es1"
      using assms lb by (simp_all add: read_message_def len_def)
    then show ?thesis
      using True be lb' message_encode_prefix [of KeepAlive]
      by (simp add: wire_limits_def message_body_def)
  next
    case False
    with assms lb have le: "len \<le> MAX_WIRE_MESSAGE_LEN" "len \<le> cap"
      by (auto simp: read_message_def Let_def len_def split: if_splits)
    with assms lb False obtain body where body: "read_payload len es1 = (Inr body, es')"
      and chk: "check_length (body ! 0) len cap = Inr ()" and dec: "message_decode body = Inr m"
      by (auto simp: read_message_def Let_def len_def rbind_eq_Inr split: if_splits prod.splits sum.splits)
    have b: "length body = len" "stream_data es1 = body @ stream_data es'"
      using fill_loop_sound body by (fastforce simp: read_payload_def)+
    obtain pad where pad: "body = message_body m @ pad" "pad = [] \<or> control_message m" "valid_message m"
      using message_decode_sound [OF dec] by blast
    have "m \<noteq> KeepAlive" using pad b False message_body_empty [of m] by auto
    have "pad = []"
    proof (cases "control_message m")
      case True
      then have "message_body m \<noteq> []" "length (message_body m) = 1"
        by (auto simp: message_body_def)
      with True chk pad(1) b(1) show ?thesis
        using check_length_control [of m len cap] by (simp add: nth_append)
    qed (use pad in simp)
    then have "body = message_body m" using pad by simp
    with b chk le have "wire_limits cap m"
      by (auto simp: wire_limits_def split: PeerMessage.split dest: check_length_piece)
    with \<open>pad = []\<close> pad b be lb' show ?thesis
      using message_encode_prefix [OF pad(3)] by simp
  qed
qed

lemma length_PROTOCOL_STRING [simp]: "length PROTOCOL_STRING = 19"
  by (simp add: PROTOCOL_STRING_def bytes_of_string_def)

lemma handshake_text:
  assumes "length res = 8" and "length ih = 20" and "length pid = 20"
  shows "handshake_decode_arrays ([19] @ PROTOCOL_STRING @ res @ ih @ pid) = Inr (ih, pid, res)"
  using assms by (simp add: handshake_decode_arrays_def INITIAL_HANDSHAKE_LENGTH_def bslice_def)

lemma handshake_decode_sound:
  assumes "handshake_decode_arrays buf = Inr (ih, pid, res)"
  shows "buf = [19] @ PROTOCOL_STRING @ res @ ih @ pid"
proof -
  from assms have l: "length buf = 68" and eq: "buf ! 0 = 19" "bslice buf 1 20 = PROTOCOL_STRING"
    "ih = bslice buf 28 48" "pid = bslice buf 48 68" "res = bslice buf 20 28"
    by (auto simp: handshake_decode_arrays_def INITIAL_HANDSHAKE_LENGTH_def split: if_splits)
  have "bslice buf 0 68 = [buf ! 0] @ bslice buf 1 20 @ bslice buf 20 28 @ bslice buf 28 48 @
      bslice buf 48 68"
    using bslice_split [of 0 1 68 buf] bslice_split [of 1 20 68 buf] bslice_split [of 20 28 68 buf]
      bslice_split [of 28 48 68 buf] bslice_Suc [of 0 buf] l by simp
  with l eq show ?thesis by simp
qed

section \<open>Properties\<close>

text \<open>
  C19 (\<open>PeerMessage::encode\<close>, \<open>PeerMessage::decode\<close>). Every message is read back from its wire
  form without the length prefix, and the prefix is the length of what follows it.
\<close>

theorem message_roundtrip:
  "valid_message m \<Longrightarrow> message_decode (drop 4 (message_encode m)) = Inr m \<and>
     take 4 (message_encode m) = u32_to_be_bytes (of_nat (length (message_encode m) - 4))"
  using decode_message_body [of m] message_encode_prefix [of m]
  by (metis append_eq_conv_conj diff_add_inverse length_append length_to_be message_body_def)

theorem message_roundtrip_witness:
  "message_decode (drop 4 (message_encode (Piece 7 16384 [1, 2, 3]))) = Inr (Piece 7 16384 [1, 2, 3]) \<and>
     take 4 (message_encode (Piece 7 16384 [1, 2, 3])) = [0, 0, 0, 12]"
  using message_roundtrip [of "Piece 7 16384 [1, 2, 3]"] by (simp add: to_be_def upt_rec)

text \<open>
  \<open>PeerMessage::decode\<close>: Whatever a remote peer sends, a successful decode returns a message
  whose fields have their fixed lengths and whose own encoding is the received text, except
  that the six control messages ignore trailing bytes.
\<close>

theorem message_decode_canonical:
  "message_decode buf = Inr m \<Longrightarrow>
     valid_message m \<and> (\<exists>pad. buf = drop 4 (message_encode m) @ pad \<and> (pad = [] \<or> control_message m))"
  using message_decode_sound by (simp add: message_body_def)

theorem message_decode_canonical_witness:
  "valid_message (Have 258) \<and> (\<exists>pad. [4, 0, 0, 1, 2] = drop 4 (message_encode (Have 258)) @ pad \<and>
     (pad = [] \<or> control_message (Have 258)))"
proof (rule message_decode_canonical)
  show "message_decode [4, 0, 0, 1, 2] = Inr (Have 258)"
    by (simp add: message_decode_def decode_single_u32_def SIZE_OF_U32_def from_be_def)
qed



text \<open>
  C37 (\<open>PeerNetwork::read_message\<close>, soundness). On any sequence of reads, a message is returned only
  when the bytes taken from the stream are exactly its encoding; it is then well formed, at most
  32 KiB long, fits the caller's buffer, and a piece block is at most 16 KiB.
\<close>

theorem read_message_exact:
  assumes "read_message cap es = (Inr m, es')"
  shows "stream_data es = message_encode m @ stream_data es' \<and> valid_message m \<and> wire_limits cap m"
  using assms by (rule read_message_sound)

theorem read_message_exact_witness:
  "stream_data [Data [0, 0, 0, 0, 9]] = message_encode KeepAlive @ stream_data [Data [9]] \<and>
     valid_message KeepAlive \<and> wire_limits 64 KeepAlive"
proof (rule read_message_exact)
  show "read_message 64 [Data [0, 0, 0, 0, 9]] = (Inr KeepAlive, [Data [9]])"
    by (simp add: read_message_def read_exact_def fill_loop.simps from_be_def)
qed

text \<open>
  \<open>PeerMessage::handshake_encode\<close>, \<open>handshake_decode_arrays\<close>: The handshake decoder accepts
  exactly the 68-byte texts of the protocol header, and reads back the info hash and the peer id
  of every handshake the encoder builds, with the extension and fast bits set.
\<close>

theorem handshake_exact:
  "(handshake_decode_arrays buf = Inr (ih, pid, res) \<longleftrightarrow>
      length ih = 20 \<and> length pid = 20 \<and> length res = 8 \<and>
      buf = [19] @ PROTOCOL_STRING @ res @ ih @ pid) \<and>
   (handshake_encode ih pid = Inr buf \<longleftrightarrow>
      handshake_decode_arrays buf = Inr (ih, pid, [0, 0, 0, 0, 0, 0x10, 0, 0x04]))"
proof -
  have *: "handshake_decode_arrays buf = Inr (ih, pid, res) \<longleftrightarrow>
      length ih = 20 \<and> length pid = 20 \<and> length res = 8 \<and>
      buf = [19] @ PROTOCOL_STRING @ res @ ih @ pid" for res
  proof
    assume d: "handshake_decode_arrays buf = Inr (ih, pid, res)"
    then have "length ih = 20 \<and> length pid = 20 \<and> length res = 8"
      by (auto simp: handshake_decode_arrays_def INITIAL_HANDSHAKE_LENGTH_def split: if_splits)
    with handshake_decode_sound [OF d] show "length ih = 20 \<and> length pid = 20 \<and> length res = 8 \<and>
      buf = [19] @ PROTOCOL_STRING @ res @ ih @ pid" by simp
  qed (use handshake_text in blast)
  show ?thesis
    unfolding * by (auto simp: handshake_encode_def HASH_LENGTH_def PEER_ID_LENGTH_def eval_nat_numeral)
qed

end
