(* ===== verification/Util.thy ===== *)
theory Util
  imports BT_Prelude "HOL-Library.Signed_Division"
begin

text \<open>
  Helpers of \<open>library/src/utils/util.rs\<close> (integer packing, compact peer lists, hexadecimal text,
  bitfield positions, the static receive-buffer pool, the BEP 6 allowed-fast set) and the
  average of \<open>library/src/utils/average.rs\<close>. The SHA-1 function is a parameter. The buffer pool
  is shared by threads without a lock, so it is a step relation in which every compare-exchange
  is one step.
\<close>

section \<open>Packing\<close>

definition pack_u32 :: "u32 \<Rightarrow> bytes" where "pack_u32 value = u32_to_be_bytes value"
definition pack_u64 :: "u64 \<Rightarrow> bytes" where "pack_u64 value = u64_to_be_bytes value"

text \<open>The unpackers panic when the slice is out of range: \<open>None\<close>.\<close>

definition unpack_u32 :: "bytes \<Rightarrow> nat \<Rightarrow> u32 option" where
  "unpack_u32 buffer offset =
     (if offset + 4 \<le> length buffer then Some (from_be (bslice buffer offset (offset + 4))) else None)"

definition unpack_u64 :: "bytes \<Rightarrow> nat \<Rightarrow> u64 option" where
  "unpack_u64 buffer offset =
     (if offset + 8 \<le> length buffer then Some (from_be (bslice buffer offset (offset + 8))) else None)"

lemma unpack_pack_u32: "unpack_u32 (pre @ pack_u32 v @ post) (length pre) = Some v"
  by (simp add: unpack_u32_def pack_u32_def bslice_append_mid)

lemma unpack_pack_u64: "unpack_u64 (pre @ pack_u64 v @ post) (length pre) = Some v"
  by (simp add: unpack_u64_def pack_u64_def bslice_append_mid)

section \<open>Text helpers of the standard library\<close>

text \<open>\<open>str::split(c)\<close> and \<open>str::parse::<u8>\<close> (an optional plus sign, then decimal digits).\<close>

fun split_on :: "char \<Rightarrow> string \<Rightarrow> string list" where
  "split_on c [] = [[]]"
| "split_on c (x # xs) =
     (if x = c then [] # split_on c xs
      else case split_on c xs of p # ps \<Rightarrow> (x # p) # ps | [] \<Rightarrow> [[x]])"

definition parse_u8 :: "string \<Rightarrow> u8 option" where
  "parse_u8 s =
     (let bs = bytes_of_string s;
          ds = (if bs \<noteq> [] \<and> hd bs = 43 then tl bs else bs)
      in if ds \<noteq> [] \<and> list_all is_ascii_digit ds \<and> parse_dec ds \<le> 255
         then Some (of_nat (parse_dec ds)) else None)"

lemma split_on_nonempty [simp]: "split_on c s \<noteq> []"
  by (induction s) (auto split: list.splits)

lemma split_on_append: "c \<notin> set a \<Longrightarrow> split_on c (a @ c # b) = a # split_on c b"
  by (induction a) auto

lemma split_on_none: "c \<notin> set a \<Longrightarrow> split_on c a = [a]"
  by (induction a) auto

lemma parse_u8_display [simp]: "parse_u8 (string_of_nat (unat b)) = Some b"
proof -
  have "unat b < 2 ^ LENGTH(8)" by (rule unsigned_less)
  moreover have "hd (dec_string (unat b)) \<noteq> 43"
    using dec_string_digits [of "hd (dec_string (unat b))" "unat b"]
    by (auto simp: is_ascii_digit_def)
  ultimately show ?thesis
    by (auto simp: parse_u8_def string_of_nat_def list_all_iff Let_def intro: dec_string_digits)
qed

lemma dot_notin_string_of_nat [simp]: "CHR ''.'' \<notin> set (string_of_nat n)"
proof
  assume "CHR ''.'' \<in> set (string_of_nat n)"
  then have "CHR ''.'' \<in> set (string_of_bytes (dec_string n))" by (simp add: string_of_nat_def)
  then have "of_nat (of_char (CHR ''.'')) \<in> set (bytes_of_string (string_of_bytes (dec_string n)))"
    unfolding bytes_of_string_def set_map by (rule imageI)
  then have "is_ascii_digit (of_nat (of_char (CHR ''.'')))"
    by (simp add: dec_string_digits)
  then show False by (simp add: is_ascii_digit_def)
qed

section \<open>Compact peer lists\<close>

definition ipv4_text :: "u8 \<Rightarrow> u8 \<Rightarrow> u8 \<Rightarrow> u8 \<Rightarrow> string" where
  "ipv4_text a b c d = string_of_nat (unat a) @ ''.'' @ string_of_nat (unat b) @ ''.'' @
     string_of_nat (unat c) @ ''.'' @ string_of_nat (unat d)"

function decode_compact_ipv4_peers :: "bytes \<Rightarrow> nat \<Rightarrow> (string \<times> u16) list" where
  "decode_compact_ipv4_peers peers num =
     (if num + 6 \<le> length peers then
        (ipv4_text (peers ! num) (peers ! (num + 1)) (peers ! (num + 2)) (peers ! (num + 3)),
         push_bit 8 (ucast (peers ! (num + 4))) OR ucast (peers ! (num + 5)))
          # decode_compact_ipv4_peers peers (num + 6)
      else [])"
  by pat_completeness auto
termination
  by (relation "measure (\<lambda>(peers, num). length peers - num)") auto

declare decode_compact_ipv4_peers.simps [simp del]

definition encode_compact_ipv4_peer :: "string \<Rightarrow> u16 \<Rightarrow> bytes" where
  "encode_compact_ipv4_peer ip port =
     (case map parse_u8 (split_on CHR ''.'' ip) of
        [Some b0, Some b1, Some b2, Some b3] \<Rightarrow> [b0, b1, b2, b3] @ u16_to_be_bytes port
      | _ \<Rightarrow> [])"

definition encode_compact_ipv4_peers :: "(string \<times> u16) list \<Rightarrow> bytes" where
  "encode_compact_ipv4_peers peers =
     concat (map (\<lambda>(ip, port). encode_compact_ipv4_peer ip port) peers)"

lemma encode_compact_ipv4_text:
  "encode_compact_ipv4_peer (ipv4_text a b c d) port = [a, b, c, d] @ u16_to_be_bytes port"
  by (simp add: encode_compact_ipv4_peer_def ipv4_text_def split_on_append split_on_none)

lemma port_bytes: "u16_to_be_bytes (push_bit 8 (ucast h) OR ucast l) = [h, l]"
  using to_be_from_be [of "[h, l]" 2, where 'a = 16] by (simp add: from_be_def)

lemma encode_decode_from:
  "num \<le> length peers \<Longrightarrow>
     encode_compact_ipv4_peers (decode_compact_ipv4_peers peers num) =
       bslice peers num (num + 6 * ((length peers - num) div 6))"
proof (induction peers num rule: decode_compact_ipv4_peers.induct)
  case (1 peers num)
  show ?case
  proof (cases "num + 6 \<le> length peers")
    case True
    have six: "[peers ! num, peers ! (num + 1), peers ! (num + 2), peers ! (num + 3),
        peers ! (num + 4), peers ! (num + 5)] = bslice peers num (num + 6)"
      using True by (simp add: bslice_Cons eval_nat_numeral)
    let ?k = "(length peers - (num + 6)) div 6"
    have k: "(length peers - num) div 6 = Suc ?k" using True by simp
    have "encode_compact_ipv4_peers (decode_compact_ipv4_peers peers num) =
        bslice peers num (num + 6) @ bslice peers (num + 6) (num + 6 + 6 * ?k)"
      using 1 True
      by (subst decode_compact_ipv4_peers.simps)
        (simp add: encode_compact_ipv4_peers_def encode_compact_ipv4_text port_bytes flip: six)
    also have "\<dots> = bslice peers num (num + 6 * Suc ?k)"
      using bslice_split [of num "num + 6" "num + 6 * Suc ?k" peers] by (simp add: add.assoc)
    finally show ?thesis by (simp only: k)
  next
    case False
    then show ?thesis
      by (subst decode_compact_ipv4_peers.simps) (simp add: encode_compact_ipv4_peers_def)
  qed
qed

lemma length_decode_compact_ipv4:
  "length (decode_compact_ipv4_peers peers num) = (length peers - num) div 6"
proof (induction peers num rule: decode_compact_ipv4_peers.induct)
  case (1 peers num)
  then show ?case
    by (cases "num + 6 \<le> length peers")
      (subst decode_compact_ipv4_peers.simps, simp add: le_div_geq)+
qed

lemma decode_compact_step:
  assumes "num = length pre"
  shows "decode_compact_ipv4_peers (pre @ [a, b, c, d] @ u16_to_be_bytes port @ rest) num =
    (ipv4_text a b c d, port) #
      decode_compact_ipv4_peers (pre @ [a, b, c, d] @ u16_to_be_bytes port @ rest) (num + 6)"
proof -
  have eq: "u16_to_be_bytes port = [u16_to_be_bytes port ! 0, u16_to_be_bytes port ! 1]"
    by (rule nth_equalityI) (simp_all add: nth_Cons less_Suc_eq split: nat.splits)
  have "from_be [u16_to_be_bytes port ! 0, u16_to_be_bytes port ! 1] = port"
    by (simp only: flip: eq) simp
  then have "push_bit 8 (ucast (u16_to_be_bytes port ! 0)) OR ucast (u16_to_be_bytes port ! 1) = port"
    by (simp add: from_be_def)
  with assms show ?thesis
    by (subst decode_compact_ipv4_peers.simps) (simp add: nth_append nth_Cons split: nat.splits)
qed

section \<open>Addresses and hexadecimal text\<close>

definition format_socket_addr :: "string \<Rightarrow> u16 \<Rightarrow> string" where
  "format_socket_addr ip port =
     (if CHR '':'' \<in> set ip \<and> \<not> (ip \<noteq> [] \<and> hd ip = CHR ''['')
      then ''['' @ ip @ '']:'' @ string_of_nat (unat port)
      else ip @ '':'' @ string_of_nat (unat port))"

definition hex_digit :: "nat \<Rightarrow> char" where
  "hex_digit n = (if n < 10 then char_of (48 + n) else char_of (87 + n))"

definition hex_digit_upper :: "nat \<Rightarrow> char" where
  "hex_digit_upper n = (if n < 10 then char_of (48 + n) else char_of (55 + n))"

definition to_hex :: "bytes \<Rightarrow> string" where
  "to_hex bs = concat (map (\<lambda>b. [hex_digit (unat b div 16), hex_digit (unat b mod 16)]) bs)"

definition to_hex_upper :: "bytes \<Rightarrow> string" where
  "to_hex_upper bs =
     concat (map (\<lambda>b. [hex_digit_upper (unat b div 16), hex_digit_upper (unat b mod 16)]) bs)"

definition info_hash_to_string :: "bytes \<Rightarrow> string" where
  "info_hash_to_string info_hash = to_hex info_hash"

text \<open>
  \<open>u8::from_str_radix(s, 16)\<close> on a two-byte slice: a leading plus sign is accepted. The
  characters are the bytes of the UTF-8 text; slicing at a continuation byte panics (\<open>None\<close>).
\<close>

definition hex_value :: "char \<Rightarrow> nat option" where
  "hex_value c = (let n = of_char c in
     if 48 \<le> n \<and> n \<le> 57 then Some (n - 48)
     else if 97 \<le> n \<and> n \<le> 102 then Some (n - 87)
     else if 65 \<le> n \<and> n \<le> 70 then Some (n - 55)
     else None)"

definition from_str_radix16 :: "char \<Rightarrow> char \<Rightarrow> u8 option" where
  "from_str_radix16 c d =
     (if c = CHR ''+'' then map_option of_nat (hex_value d)
      else case (hex_value c, hex_value d) of
        (Some h, Some l) \<Rightarrow> Some (of_nat (16 * h + l))
      | _ \<Rightarrow> None)"

definition utf8_continuation :: "char \<Rightarrow> bool" where
  "utf8_continuation c \<longleftrightarrow> 128 \<le> (of_char c :: nat) \<and> (of_char c :: nat) < 192"

fun from_hex_loop :: "string \<Rightarrow> bytes result option" where
  "from_hex_loop (c # d # rest) =
     (if utf8_continuation c \<or> (rest \<noteq> [] \<and> utf8_continuation (hd rest)) then None
      else case from_str_radix16 c d of
        None \<Rightarrow> Some (Inl (Parse ''invalid digit found in string''))
      | Some b \<Rightarrow> map_option (\<lambda>r. rbind r (\<lambda>bs. Inr (b # bs))) (from_hex_loop rest))"
| "from_hex_loop _ = Some (Inr [])"

definition from_hex :: "string \<Rightarrow> bytes result option" where
  "from_hex hex =
     (if length hex mod 2 \<noteq> 0 then Some (Inl (Parse ''Hex string must have an even length''))
      else from_hex_loop hex)"

lemma of_char_hex_digit:
  assumes "n < 16"
  shows "of_char (hex_digit n) = (if n < 10 then 48 + n else 87 + n)"
    and "of_char (hex_digit_upper n) = (if n < 10 then 48 + n else 55 + n)"
  using assms by (simp_all add: hex_digit_def hex_digit_upper_def)

lemma hex_value_plus: "hex_value CHR ''+'' = None"
  by (simp add: hex_value_def)

lemma hex_digit_cases:
  assumes "n < 16"
  shows "hex_value (hex_digit n) = Some n \<and> hex_digit n \<noteq> CHR ''+'' \<and> \<not> utf8_continuation (hex_digit n)"
    and "hex_value (hex_digit_upper n) = Some n \<and> hex_digit_upper n \<noteq> CHR ''+'' \<and>
      \<not> utf8_continuation (hex_digit_upper n)"
proof -
  have v: "hex_value (hex_digit n) = Some n" "hex_value (hex_digit_upper n) = Some n"
    using assms by (simp_all add: hex_value_def of_char_hex_digit Let_def)
  then have "hex_digit n \<noteq> CHR ''+''" "hex_digit_upper n \<noteq> CHR ''+''"
    using hex_value_plus by (metis option.distinct(1))+
  with v show "hex_value (hex_digit n) = Some n \<and> hex_digit n \<noteq> CHR ''+'' \<and>
      \<not> utf8_continuation (hex_digit n)"
    and "hex_value (hex_digit_upper n) = Some n \<and> hex_digit_upper n \<noteq> CHR ''+'' \<and>
      \<not> utf8_continuation (hex_digit_upper n)"
    using assms by (simp_all add: utf8_continuation_def of_char_hex_digit)
qed

lemma nibbles: "unat (b :: u8) div 16 < 16" "unat b mod 16 < 16"
    "of_nat (16 * (unat b div 16) + unat b mod 16) = b"
proof -
  have "unat b < 2 ^ LENGTH(8)" by (rule unsigned_less)
  then show "unat b div 16 < 16" by simp
  show "unat b mod 16 < 16" by simp
  show "of_nat (16 * (unat b div 16) + unat b mod 16) = b"
    by (simp only: mult_div_mod_eq) simp
qed

lemma from_hex_loop_append:
  assumes "\<And>n. n < 16 \<Longrightarrow> hex_value (dig n) = Some n \<and> dig n \<noteq> CHR ''+'' \<and> \<not> utf8_continuation (dig n)"
  shows "from_hex_loop (concat (map (\<lambda>b. [dig (unat b div 16), dig (unat b mod 16)]) bs)) =
    Some (Inr bs)"
proof (induction bs)
  case (Cons b bs)
  have "from_str_radix16 (dig (unat b div 16)) (dig (unat b mod 16)) = Some b"
    using assms nibbles [of b] by (simp add: from_str_radix16_def del: of_nat_add of_nat_mult)
  moreover have "\<not> utf8_continuation (hd (concat (map (\<lambda>b. [dig (unat b div 16), dig (unat b mod 16)]) bs)))"
    if "bs \<noteq> []"
    using that assms nibbles by (cases bs) auto
  ultimately show ?case using Cons assms nibbles [of b] by auto
qed simp

section \<open>Bitfield positions\<close>

definition get_bitfield_index_and_mask :: "u32 \<Rightarrow> nat \<times> u8" where
  "get_bitfield_index_and_mask piece_number =
     (unat (drop_bit 3 piece_number), drop_bit (unat (piece_number AND 7)) 0x80)"

lemma bitfield_index: "fst (get_bitfield_index_and_mask p) = unat p div 8"
  by (simp only: get_bitfield_index_and_mask_def fst_conv unat_drop_bit_eq) (simp add: drop_bit_eq_div)

lemma bitfield_shift: "unat (p AND 7 :: u32) = unat p mod 8"
proof -
  have "p AND 7 = take_bit 3 p" by (simp add: take_bit_eq_mask mask_eq_exp_minus_1)
  then show ?thesis
    by (simp only: unsigned_take_bit_eq) (simp add: take_bit_eq_mod)
qed

lemma bitfield_mask:
  "bit (snd (get_bitfield_index_and_mask p)) k \<longleftrightarrow> k = 7 - unat p mod 8"
proof -
  have eq: "(0x80 :: u8) = push_bit 7 1" by simp
  have "bit (0x80 :: u8) j \<longleftrightarrow> j = 7" for j
    unfolding eq bit_push_bit_iff bit_1_iff by auto
  moreover have "unat p mod 8 \<le> 7" by (simp add: less_Suc_eq_le [symmetric])
  ultimately show ?thesis
    unfolding get_bitfield_index_and_mask_def snd_conv bitfield_shift bit_drop_bit_eq comp_apply
    by arith
qed

section \<open>The static receive buffers\<close>

text \<open>
  \<open>POOL.used\<close> is an array of atomic flags. \<open>acquire_buffer\<close> scans it with one compare-exchange per
  slot and dropping a \<open>StaticBuffer\<close> clears the flag of its slot. Calls of concurrent threads
  interleave: \<open>calls c\<close> is the state of the call (and of the handle it returned) numbered \<open>c\<close>.
\<close>

definition MAX_BUFFERS :: nat where "MAX_BUFFERS = 8"

definition acquire_buffer :: "bool list \<Rightarrow> nat option \<times> bool list" where
  "acquire_buffer used =
     (case find (\<lambda>i. \<not> used ! i) [0..<MAX_BUFFERS] of
        Some i \<Rightarrow> (Some i, used[i := True])
      | None \<Rightarrow> (None, used))"

definition drop_buffer :: "nat \<Rightarrow> bool list \<Rightarrow> bool list" where
  "drop_buffer i used = used[i := False]"

datatype AcquireCall = Outside | Scanning nat | Holding nat

record Pool =
  pool_used :: "bool list"
  calls :: "nat \<Rightarrow> AcquireCall"

definition pool_init :: Pool where
  "pool_init = \<lparr>pool_used = replicate MAX_BUFFERS False, calls = (\<lambda>_. Outside)\<rparr>"

inductive pool_step :: "Pool \<Rightarrow> Pool \<Rightarrow> bool" where
  call_acquire:
    "calls s c = Outside \<Longrightarrow> pool_step s (s\<lparr>calls := (calls s)(c := Scanning 0)\<rparr>)"
| exchange_ok:
    "calls s c = Scanning i \<Longrightarrow> i < MAX_BUFFERS \<Longrightarrow> \<not> pool_used s ! i \<Longrightarrow>
       pool_step s (s\<lparr>pool_used := (pool_used s)[i := True], calls := (calls s)(c := Holding i)\<rparr>)"
| exchange_failed:
    "calls s c = Scanning i \<Longrightarrow> i < MAX_BUFFERS \<Longrightarrow> pool_used s ! i \<Longrightarrow>
       pool_step s (s\<lparr>calls := (calls s)(c := Scanning (Suc i))\<rparr>)"
| none_free:
    "calls s c = Scanning i \<Longrightarrow> \<not> i < MAX_BUFFERS \<Longrightarrow>
       pool_step s (s\<lparr>calls := (calls s)(c := Outside)\<rparr>)"
| drop_handle:
    "calls s c = Holding i \<Longrightarrow>
       pool_step s (s\<lparr>pool_used := drop_buffer i (pool_used s), calls := (calls s)(c := Outside)\<rparr>)"

definition pool_inv :: "Pool \<Rightarrow> bool" where
  "pool_inv s \<longleftrightarrow> length (pool_used s) = MAX_BUFFERS \<and>
     (\<forall>c i. calls s c = Holding i \<longrightarrow> i < MAX_BUFFERS \<and> pool_used s ! i) \<and>
     (\<forall>c d i. calls s c = Holding i \<longrightarrow> calls s d = Holding i \<longrightarrow> c = d) \<and>
     (\<forall>i < MAX_BUFFERS. pool_used s ! i \<longrightarrow> (\<exists>c. calls s c = Holding i))"

lemma pool_inv_init: "pool_inv pool_init"
  by (simp add: pool_inv_def pool_init_def)

lemma pool_invI:
  assumes "length (pool_used s) = MAX_BUFFERS"
    and "\<And>c i. calls s c = Holding i \<Longrightarrow> i < MAX_BUFFERS \<and> pool_used s ! i"
    and "\<And>c d i. calls s c = Holding i \<Longrightarrow> calls s d = Holding i \<Longrightarrow> c = d"
    and "\<And>i. i < MAX_BUFFERS \<Longrightarrow> pool_used s ! i \<Longrightarrow> \<exists>c. calls s c = Holding i"
  shows "pool_inv s"
  unfolding pool_inv_def using assms by blast

lemma pool_invD:
  assumes "pool_inv s"
  shows "length (pool_used s) = MAX_BUFFERS"
    and "calls s c = Holding i \<Longrightarrow> i < MAX_BUFFERS \<and> pool_used s ! i"
    and "calls s c = Holding i \<Longrightarrow> calls s d = Holding i \<Longrightarrow> c = d"
    and "i < MAX_BUFFERS \<Longrightarrow> pool_used s ! i \<Longrightarrow> \<exists>c. calls s c = Holding i"
  using assms unfolding pool_inv_def by blast+

lemma pool_inv_moves:
  assumes inv: "pool_inv s" and c: "\<And>i. calls s c \<noteq> Holding i" and x: "\<And>i. x \<noteq> Holding i"
  shows "pool_inv (s\<lparr>calls := (calls s)(c := x)\<rparr>)"
proof (rule pool_invI)
  fix i assume "i < MAX_BUFFERS" "pool_used (s\<lparr>calls := (calls s)(c := x)\<rparr>) ! i"
  then obtain d where "calls s d = Holding i" using pool_invD(4) [OF inv] by auto
  then show "\<exists>d. calls (s\<lparr>calls := (calls s)(c := x)\<rparr>) d = Holding i"
    using c by (intro exI [of _ d]) auto
qed (use pool_invD(1-3) [OF inv] in \<open>auto simp: x split: if_splits\<close>)

lemma pool_inv_step: "pool_step s s' \<Longrightarrow> pool_inv s \<Longrightarrow> pool_inv s'"
proof (induction rule: pool_step.induct)
  case (exchange_ok s c i)
  note inv = pool_invD [OF exchange_ok.prems]
  show ?case
  proof (rule pool_invI, goal_cases)
    case (3 a b j)
    with exchange_ok.hyps show ?case by (auto split: if_splits dest: inv(2,3))
  next
    case (4 j)
    show ?case
    proof (cases "j = i")
      case False
      with 4 obtain d where "calls s d = Holding j" using inv(4) by auto
      with exchange_ok.hyps show ?thesis by (intro exI [of _ d]) auto
    qed auto
  qed (use exchange_ok.hyps inv(1,2) in \<open>auto simp: nth_list_update split: if_splits\<close>)
next
  case (drop_handle s c i)
  note inv = pool_invD [OF drop_handle.prems]
  show ?case
  proof (rule pool_invI, goal_cases)
    case (2 d j)
    then have "calls s d = Holding j" "d \<noteq> c" by (auto split: if_splits)
    then have "j \<noteq> i" using inv(3) [OF drop_handle.hyps] by auto
    with \<open>calls s d = Holding j\<close> inv(2) show ?case by (auto simp: drop_buffer_def)
  next
    case (4 j)
    then have "j \<noteq> i" using inv(1) by (auto simp: drop_buffer_def)
    with 4 obtain d where "calls s d = Holding j" using inv(4) by (auto simp: drop_buffer_def)
    with \<open>j \<noteq> i\<close> drop_handle.hyps show ?case by (intro exI [of _ d]) auto
  qed (use inv(1,3) in \<open>auto simp: drop_buffer_def split: if_splits\<close>)
qed (auto intro!: pool_inv_moves)

lemma pool_inv_reachable: "pool_step\<^sup>*\<^sup>* pool_init s \<Longrightarrow> pool_inv s"
  by (induction rule: rtranclp_induct) (auto intro: pool_inv_init pool_inv_step)

text \<open>A call that no other call interleaves with computes \<open>acquire_buffer\<close>.\<close>

lemma scan_alone:
  assumes "calls s c = Scanning k"
  shows "pool_step\<^sup>*\<^sup>* s (case find (\<lambda>i. \<not> pool_used s ! i) [k..<MAX_BUFFERS] of
      Some i \<Rightarrow> s\<lparr>pool_used := (pool_used s)[i := True], calls := (calls s)(c := Holding i)\<rparr>
    | None \<Rightarrow> s\<lparr>calls := (calls s)(c := Outside)\<rparr>)"
  using assms
proof (induction "MAX_BUFFERS - k" arbitrary: k s)
  case 0
  then have "[k..<MAX_BUFFERS] = []" by simp
  with 0 none_free [of s c k] show ?case by simp
next
  case (Suc n)
  then have k: "[k..<MAX_BUFFERS] = k # [Suc k..<MAX_BUFFERS]" "k < MAX_BUFFERS"
    by (simp_all add: upt_conv_Cons)
  show ?case
  proof (cases "pool_used s ! k")
    case True
    let ?s = "s\<lparr>calls := (calls s)(c := Scanning (Suc k))\<rparr>"
    have "pool_step s ?s" using Suc.prems k True by (intro exchange_failed)
    moreover have "pool_step\<^sup>*\<^sup>* ?s (case find (\<lambda>i. \<not> pool_used ?s ! i) [Suc k..<MAX_BUFFERS] of
        Some i \<Rightarrow> ?s\<lparr>pool_used := (pool_used ?s)[i := True], calls := (calls ?s)(c := Holding i)\<rparr>
      | None \<Rightarrow> ?s\<lparr>calls := (calls ?s)(c := Outside)\<rparr>)"
      by (rule Suc.hyps) (use Suc in simp_all)
    ultimately show ?thesis
      using True k by (auto intro: converse_rtranclp_into_rtranclp split: option.splits)
  next
    case False
    with Suc.prems k show ?thesis by (auto intro: exchange_ok)
  qed
qed

section \<open>The allowed-fast set\<close>

text \<open>
  The address the standard library's parsers find in \<open>peer_ip\<close> (after the \<open>webrtc:\<close> prefix) is an
  argument; the fallback reading of a dotted quad is written out. The loop of the source
  ends when enough distinct indices have come up, which depends on the digests: it is a
  partial function. \<open>num_pieces\<close> is below \<open>2 ^ 32\<close> (piece numbers are \<open>u32\<close>).
\<close>

datatype IpAddr = V4 bytes | V6 bytes

function trim_prefix :: "string \<Rightarrow> string \<Rightarrow> string" where
  "trim_prefix pre s =
     (if pre \<noteq> [] \<and> take (length pre) s = pre then trim_prefix pre (drop (length pre) s) else s)"
  by pat_completeness auto
termination
proof (relation "measure (\<lambda>(_, s). length s)", goal_cases)
  case (2 pre s)
  then have "s \<noteq> []" by auto
  with 2 show ?case by simp
qed simp

declare trim_prefix.simps [simp del]

definition allowed_fast_prefix :: "IpAddr option \<Rightarrow> string \<Rightarrow> bytes" where
  "allowed_fast_prefix addr peer_ip =
     (case addr of
        Some (V4 oct) \<Rightarrow> take 3 oct @ [0]
      | Some (V6 oct) \<Rightarrow> take 6 oct @ replicate 10 0
      | None \<Rightarrow>
          (case map parse_u8 (split_on CHR ''.'' (hd (split_on CHR '':'' (trim_prefix ''webrtc:'' peer_ip)))) of
             [Some b0, Some b1, Some b2, _] \<Rightarrow> [b0, b1, b2, 0]
           | _ \<Rightarrow> [127, 0, 0, 0]))"

definition digest_index :: "nat \<Rightarrow> bytes \<Rightarrow> nat \<Rightarrow> u32" where
  "digest_index num_pieces digest i =
     from_be (bslice digest (i * 4) (i * 4 + 4)) mod of_nat num_pieces"

fun absorb_digest :: "nat \<Rightarrow> u32 list \<Rightarrow> u32 list \<Rightarrow> u32 list" where
  "absorb_digest target_k allowed_fast [] = allowed_fast"
| "absorb_digest target_k allowed_fast (index # rest) =
     (if target_k \<le> length allowed_fast then allowed_fast
      else absorb_digest target_k
        (if index \<in> set allowed_fast then allowed_fast else allowed_fast @ [index]) rest)"

definition digest_indices :: "nat \<Rightarrow> bytes \<Rightarrow> u32 list" where
  "digest_indices num_pieces digest = map (digest_index num_pieces digest) [0..<5]"

partial_function (option) allowed_fast_loop ::
  "(bytes \<Rightarrow> bytes) \<Rightarrow> nat \<Rightarrow> nat \<Rightarrow> u32 list \<Rightarrow> bytes \<Rightarrow> u32 list option" where
  "allowed_fast_loop sha1 target_k num_pieces allowed_fast x =
     (if length allowed_fast < target_k then
        let digest = sha1 x in
        allowed_fast_loop sha1 target_k num_pieces
          (absorb_digest target_k allowed_fast (digest_indices num_pieces digest)) digest
      else Some allowed_fast)"

definition generate_allowed_fast_set ::
  "(bytes \<Rightarrow> bytes) \<Rightarrow> IpAddr option \<Rightarrow> nat \<Rightarrow> nat \<Rightarrow> bytes \<Rightarrow> string \<Rightarrow> u32 list option" where
  "generate_allowed_fast_set sha1 addr k num_pieces info_hash peer_ip =
     (if num_pieces = 0 \<or> k = 0 \<or> length info_hash < 20 then Some []
      else allowed_fast_loop sha1 (min k num_pieces) num_pieces []
        (allowed_fast_prefix addr peer_ip @ take 20 info_hash))"

definition fast_inv :: "nat \<Rightarrow> nat \<Rightarrow> u32 list \<Rightarrow> bool" where
  "fast_inv target_k num_pieces xs \<longleftrightarrow>
     distinct xs \<and> length xs \<le> target_k \<and> (\<forall>y \<in> set xs. unat y < num_pieces)"

lemma digest_indices_bound:
  "0 < n \<Longrightarrow> n < 2 ^ 32 \<Longrightarrow> y \<in> set (digest_indices n d) \<Longrightarrow> unat y < n"
proof -
  assume n: "0 < n" "n < 2 ^ 32" and "y \<in> set (digest_indices n d)"
  then obtain w :: u32 where y: "y = w mod of_nat n"
    by (auto simp: digest_indices_def digest_index_def)
  have "unat (of_nat n :: u32) = n" using n by (simp add: unat_of_nat)
  with y n show "unat y < n" by (simp add: unat_mod)
qed

lemma fast_inv_insert:
  "fast_inv t n xs \<Longrightarrow> \<not> t \<le> length xs \<Longrightarrow> unat y < n \<Longrightarrow>
     fast_inv t n (if y \<in> set xs then xs else xs @ [y])"
  by (simp add: fast_inv_def)

lemma absorb_digest_inv:
  "fast_inv t n xs \<Longrightarrow> \<forall>y \<in> set ys. unat y < n \<Longrightarrow> fast_inv t n (absorb_digest t xs ys)"
proof (induction ys arbitrary: xs)
  case (Cons y ys)
  show ?case
  proof (cases "t \<le> length xs")
    case True
    with Cons.prems show ?thesis by simp
  next
    case False
    with Cons.prems have "fast_inv t n (if y \<in> set xs then xs else xs @ [y])"
      by (intro fast_inv_insert) simp_all
    from Cons.IH [OF this] Cons.prems(2) False show ?thesis by simp
  qed
qed simp

lemma absorb_digest_set:
  "length (absorb_digest t xs ys) < t \<Longrightarrow> set (absorb_digest t xs ys) = set xs \<union> set ys"
proof (induction ys arbitrary: xs)
  case (Cons y ys)
  then have "\<not> t \<le> length xs" by (auto split: if_splits)
  with Cons.IH [of "if y \<in> set xs then xs else xs @ [y]"] Cons.prems show ?case
    by (simp split: if_splits) blast+
qed simp

text \<open>Enough distinct indices among the first \<open>N\<close> digests make the loop return.\<close>

lemma allowed_fast_loop_returns:
  assumes "0 < n" and "n < 2 ^ 32" and "fast_inv t n xs"
    and "t \<le> card (set xs \<union> (\<Union>m \<in> {1..N}. set (digest_indices n ((sha1 ^^ m) x))))"
  shows "\<exists>ys. allowed_fast_loop sha1 t n xs x = Some ys \<and> fast_inv t n ys \<and> length ys = t"
  using assms(3,4)
proof (induction N arbitrary: xs x)
  case 0
  then have "t \<le> length xs" using card_length [of xs] by simp
  with 0 show ?case by (subst allowed_fast_loop.simps) (auto simp: fast_inv_def)
next
  case (Suc N)
  show ?case
  proof (cases "length xs < t")
    case True
    let ?d = "sha1 x" and ?xs = "absorb_digest t xs (digest_indices n (sha1 x))"
    have inv: "fast_inv t n ?xs"
      using Suc.prems(1) digest_indices_bound [OF assms(1,2)] by (intro absorb_digest_inv) auto
    have step: "allowed_fast_loop sha1 t n xs x = allowed_fast_loop sha1 t n ?xs ?d"
      using True by (subst allowed_fast_loop.simps) (simp add: Let_def)
    show ?thesis
    proof (cases "length ?xs < t")
      case more: True
      let ?f = "\<lambda>m. set (digest_indices n ((sha1 ^^ m) x))"
      have "{1..Suc N} = insert 1 (Suc ` {1..N})"
        by (auto simp: image_Suc_atLeastAtMost)
      then have "(\<Union>m \<in> {1..Suc N}. ?f m) = ?f 1 \<union> (\<Union>m \<in> {1..N}. ?f (Suc m))"
        by (simp only: UN_insert image_image)
      moreover have "?f (Suc m) = set (digest_indices n ((sha1 ^^ m) ?d))" for m
        by (simp only: funpow_Suc_right comp_apply)
      moreover have "?f 1 = set (digest_indices n ?d)" by simp
      ultimately have "set xs \<union> (\<Union>m \<in> {1..Suc N}. ?f m) =
          set ?xs \<union> (\<Union>m \<in> {1..N}. set (digest_indices n ((sha1 ^^ m) ?d)))"
        using absorb_digest_set [OF more] by (simp only: Un_assoc)
      with Suc.prems(2) Suc.IH [OF inv, of ?d] show ?thesis unfolding step by simp
    next
      case False
      with inv show ?thesis
        unfolding step by (subst allowed_fast_loop.simps) (auto simp: fast_inv_def)
    qed
  next
    case False
    with Suc.prems show ?thesis by (subst allowed_fast_loop.simps) (auto simp: fast_inv_def)
  qed
qed

section \<open>Averages\<close>

text \<open>The \<open>i64\<close> fields of \<open>Average\<close>, within their range; \<open>/\<close> truncates towards zero.\<close>

record Average =
  avg_total :: int
  avg_count :: int

definition average_default :: Average where
  "average_default = \<lparr>avg_total = 0, avg_count = 0\<rparr>"

definition average_add :: "Average \<Rightarrow> int \<Rightarrow> Average" where
  "average_add a addition = a\<lparr>avg_total := avg_total a + addition, avg_count := avg_count a + 1\<rparr>"

definition average_get :: "Average \<Rightarrow> int" where
  "average_get a = (if avg_count a \<noteq> 0 then avg_total a sdiv avg_count a else 0)"

lemma average_totals:
  "avg_total (foldl average_add a xs) = avg_total a + sum_list xs"
  "avg_count (foldl average_add a xs) = avg_count a + int (length xs)"
  by (induction xs arbitrary: a) (simp_all add: average_add_def)

section \<open>Properties\<close>

text \<open>
  \<open>decode_compact_ipv4_peers\<close>, \<open>encode_compact_ipv4_peers\<close>: A compact peer list is read as one
  peer per six bytes, an incomplete last entry being dropped, and encoding the peers read
  gives back those bytes: the dotted text and the port lose nothing.
\<close>

theorem compact_peers_roundtrip:
  "encode_compact_ipv4_peers (decode_compact_ipv4_peers peers 0) = take (6 * (length peers div 6)) peers \<and>
   length (decode_compact_ipv4_peers peers 0) = length peers div 6"
  using encode_decode_from [of 0 peers] by (simp add: length_decode_compact_ipv4)

text \<open>
  \<open>to_hex\<close>, \<open>to_hex_upper\<close>, \<open>from_hex\<close>: Both hexadecimal forms of any byte string are read
  back as that byte string, without error and without a panic.
\<close>

theorem hex_roundtrip:
  "from_hex (to_hex bs) = Some (Inr bs) \<and> from_hex (to_hex_upper bs) = Some (Inr bs)"
proof -
  have even: "length (concat (map (\<lambda>b. [f b, g b]) bs)) mod 2 = 0" for f g :: "u8 \<Rightarrow> char"
    by (induction bs) simp_all
  show ?thesis
    using from_hex_loop_append [of hex_digit bs] from_hex_loop_append [of hex_digit_upper bs]
      hex_digit_cases even
    by (simp add: from_hex_def to_hex_def to_hex_upper_def)
qed

text \<open>
  C38 (\<open>acquire_buffer\<close>, \<open>StaticBuffer::drop\<close>). In every interleaving of concurrent calls, a receive
  buffer is handed to at most one holder at a time, its flag is set as long as it is held,
  and a set flag belongs to a holder, so no buffer is lost.
\<close>

theorem buffer_pool_exclusive:
  assumes "pool_step\<^sup>*\<^sup>* pool_init s"
  shows "(calls s c = Holding i \<longrightarrow> calls s d = Holding i \<longrightarrow> c = d) \<and>
    (i < MAX_BUFFERS \<longrightarrow> (pool_used s ! i \<longleftrightarrow> (\<exists>c. calls s c = Holding i)))"
  using pool_inv_reachable [OF assms] by (auto simp: pool_inv_def)

theorem buffer_pool_exclusive_witness:
  "let s = \<lparr>pool_used = [True, False, False, False, False, False, False, False],
            calls = (\<lambda>_. Outside)(4 := Holding 0)\<rparr>
   in (calls s 4 = Holding 0 \<longrightarrow> calls s 5 = Holding 0 \<longrightarrow> (4 :: nat) = 5) \<and>
      pool_used s ! 0 = (\<exists>c. calls s c = Holding 0)"
proof -
  let ?s1 = "pool_init\<lparr>calls := (calls pool_init)(4 := Scanning 0)\<rparr>"
  let ?s2 = "?s1\<lparr>pool_used := (pool_used ?s1)[0 := True], calls := (calls ?s1)(4 := Holding 0)\<rparr>"
  let ?s = "\<lparr>pool_used = [True, False, False, False, False, False, False, False],
    calls = (\<lambda>_. Outside)(4 := Holding 0)\<rparr>"
  have "pool_step pool_init ?s1" by (rule call_acquire) (simp add: pool_init_def)
  moreover have "pool_step ?s1 ?s2"
    by (rule exchange_ok) (simp_all add: pool_init_def MAX_BUFFERS_def)
  ultimately have "pool_step\<^sup>*\<^sup>* pool_init ?s2"
    by (rule converse_rtranclp_into_rtranclp [OF _ r_into_rtranclp])
  moreover have "?s2 = ?s" by (simp add: pool_init_def MAX_BUFFERS_def eval_nat_numeral)
  ultimately have "pool_step\<^sup>*\<^sup>* pool_init ?s" by simp
  from buffer_pool_exclusive [OF this, of 4 0 5] show ?thesis
    unfolding Let_def MAX_BUFFERS_def by simp
qed

text \<open>
  \<open>generate_allowed_fast_set\<close>: If the digests of the first \<open>N\<close> rounds contain enough
  distinct indices, the loop returns, with exactly \<open>min k num_pieces\<close> distinct indices, each a
  valid piece number.
\<close>

theorem allowed_fast_set_correct:
  assumes "0 < k" and "0 < n" and "n < 2 ^ 32" and "20 \<le> length info_hash"
    and "seed = allowed_fast_prefix addr peer_ip @ take 20 info_hash"
    and "min k n \<le> card (\<Union>m \<in> {1..N}. set (digest_indices n ((sha1 ^^ m) seed)))"
  shows "\<exists>ys. generate_allowed_fast_set sha1 addr k n info_hash peer_ip = Some ys \<and>
    distinct ys \<and> length ys = min k n \<and> (\<forall>y \<in> set ys. unat y < n)"
proof -
  have "fast_inv (min k n) n []" by (simp add: fast_inv_def)
  from allowed_fast_loop_returns [OF assms(2,3) this, where N = N and ?sha1.0 = sha1 and x = seed] assms
  show ?thesis
    by (auto simp: generate_allowed_fast_set_def fast_inv_def)
qed

theorem allowed_fast_set_correct_witness:
  "\<exists>ys. generate_allowed_fast_set
       (\<lambda>x. [0, 0, 0, 5, 0, 0, 0, 6, 0, 0, 0, 0, 0, 0, 0, 0, 0, 0, 0, 0])
       (Some (V4 [80, 4, 4, 200])) 2 3
       (replicate 20 0xaa) ''80.4.4.200'' = Some ys \<and>
     distinct ys \<and> length ys = min 2 3 \<and> (\<forall>y \<in> set ys. unat y < 3)"
proof (rule allowed_fast_set_correct [where N = 1, OF _ _ _ _ refl])
  let ?h = "\<lambda>x :: bytes. [0, 0, 0, 5, 0, 0, 0, 6, 0, 0, 0, 0, 0, 0, 0, 0, 0, 0, 0, 0] :: bytes"
  have "digest_indices 3 ([0, 0, 0, 5, 0, 0, 0, 6, 0, 0, 0, 0, 0, 0, 0, 0, 0, 0, 0, 0]) = [2, 0, 0, 0, 0]"
    by (simp add: digest_indices_def digest_index_def upt_rec bslice_def from_be_def)
  then show "min 2 3 \<le> card (\<Union>m \<in> {1..1}. set (digest_indices 3 ((?h ^^ m)
      (allowed_fast_prefix (Some (V4 [80, 4, 4, 200])) ''80.4.4.200'' @ take 20 (replicate 20 0xaa)))))"
    by simp
qed simp_all

end
