(* ===== verification/Bitfield.thy ===== *)
theory Bitfield
  imports Util
begin

text \<open>
  Piece bitfields. The code repeats the same three lines (position, bound check, mask) for the
  local and the missing pieces of \<open>PieceStore\<close>, \<open>PieceManager\<close> and \<open>TorrentContext\<close>; here they are
  \<open>bf_get\<close> and \<open>bf_put\<close>. The locale \<open>piece_flags\<close> is the interface those three components offer:
  its laws are what their clients rely on, and each component interprets it. The theory also
  holds the reading of a raw bitfield by \<open>RemotePeerPieceView\<close> (\<open>core/views.rs\<close>), the completeness
  test, and \<open>BitfieldScanner\<close> (\<open>storage/bitfield_scanner.rs\<close>) with SHA-1 as a parameter.
\<close>

section \<open>The interface\<close>

locale piece_flags =
  fixes mark :: "'s \<Rightarrow> u32 \<Rightarrow> bool \<Rightarrow> 's"
    and has :: "'s \<Rightarrow> u32 \<Rightarrow> bool"
    and in_range :: "'s \<Rightarrow> u32 \<Rightarrow> bool"
  assumes has_mark: "has (mark s p b) q \<longleftrightarrow> (if q = p \<and> in_range s p then b else has s q)"
    and in_range_mark: "in_range (mark s p b) q \<longleftrightarrow> in_range s q"
    and has_in_range: "has s p \<Longrightarrow> in_range s p"
begin

definition pieces :: "'s \<Rightarrow> u32 set" where
  "pieces s = {p. has s p}"

lemma pieces_mark:
  "in_range s p \<Longrightarrow> pieces (mark s p True) = insert p (pieces s)"
  "pieces (mark s p False) = pieces s - {p}"
  using has_in_range by (auto simp: pieces_def has_mark split: if_splits)

lemma in_range_marks: "in_range (foldl (\<lambda>s p. mark s p b) s ps) q \<longleftrightarrow> in_range s q"
  by (induction ps arbitrary: s) (simp_all add: in_range_mark)

lemma has_marks:
  "has (foldl (\<lambda>s p. mark s p b) s ps) q \<longleftrightarrow>
     (if q \<in> set ps \<and> in_range s q then b else has s q)"
proof (induction ps arbitrary: s)
  case (Cons p ps)
  then show ?case by (auto simp: in_range_mark has_mark)
qed simp

lemma pieces_marks:
  "(\<And>p. p \<in> set ps \<Longrightarrow> in_range s p) \<Longrightarrow>
     pieces (foldl (\<lambda>s p. mark s p True) s ps) = pieces s \<union> set ps"
  by (auto simp: pieces_def has_marks)

lemma mark_mark: "has (mark (mark s p b) p c) q \<longleftrightarrow> has (mark s p c) q"
  by (simp add: has_mark in_range_mark)

lemma mark_commute: "p \<noteq> q \<Longrightarrow> has (mark (mark s p b) q c) r \<longleftrightarrow> has (mark (mark s q c) p b) r"
  by (auto simp: has_mark in_range_mark)

end

section \<open>Raw bitfields\<close>

definition bf_get :: "bytes \<Rightarrow> u32 \<Rightarrow> bool" where
  "bf_get bitfield piece_number =
     (let (byte_index, bit_mask) = get_bitfield_index_and_mask piece_number in
      if byte_index \<ge> length bitfield then False else bitfield ! byte_index AND bit_mask \<noteq> 0)"

definition bf_put :: "bytes \<Rightarrow> u32 \<Rightarrow> bool \<Rightarrow> bytes" where
  "bf_put bitfield piece_number flag =
     (let (byte_index, bit_mask) = get_bitfield_index_and_mask piece_number in
      if byte_index < length bitfield then
        (if flag then bitfield[byte_index := bitfield ! byte_index OR bit_mask]
         else bitfield[byte_index := bitfield ! byte_index AND NOT bit_mask])
      else bitfield)"

definition bf_range :: "bytes \<Rightarrow> u32 \<Rightarrow> bool" where
  "bf_range bitfield p \<longleftrightarrow> unat p div 8 < length bitfield"

abbreviation piece_bit :: "u32 \<Rightarrow> nat" where
  "piece_bit p \<equiv> 7 - unat p mod 8"

lemma single_bit_test:
  fixes x m :: "'a::len word"
  assumes "\<And>k. bit m k \<longleftrightarrow> k = j" and "j < LENGTH('a)"
  shows "x AND m \<noteq> 0 \<longleftrightarrow> bit x j"
proof
  assume "x AND m \<noteq> 0"
  then obtain k where "bit (x AND m) k" by (metis bit_eqI bit_0_eq bot_apply bot_bool_def)
  then show "bit x j" using assms(1) by (auto simp: bit_and_iff)
next
  assume "bit x j"
  then have "bit (x AND m) j" using assms(1) by (simp add: bit_and_iff)
  then show "x AND m \<noteq> 0" by auto
qed

lemma bf_get_bit:
  "bf_get bf p \<longleftrightarrow> bf_range bf p \<and> bit (bf ! (unat p div 8)) (piece_bit p)"
proof -
  obtain i m where im: "get_bitfield_index_and_mask p = (i, m)" by force
  then have i: "i = unat p div 8" and m: "\<And>k. bit m k \<longleftrightarrow> k = piece_bit p"
    using bitfield_index [of p] bitfield_mask [of p] by simp_all
  have "bf ! i AND m \<noteq> 0 \<longleftrightarrow> bit (bf ! i) (piece_bit p)"
    by (rule single_bit_test [OF m]) simp
  with im i show ?thesis by (auto simp: bf_get_def bf_range_def)
qed

lemma length_bf_put [simp]: "length (bf_put bf p b) = length bf"
  by (simp add: bf_put_def split: prod.splits)

lemma bf_put_bit:
  "bf_range bf p \<Longrightarrow> k < 8 \<Longrightarrow> bit (bf_put bf p b ! (unat p div 8)) k \<longleftrightarrow>
     (if k = piece_bit p then b else bit (bf ! (unat p div 8)) k)"
  using bitfield_index [of p] bitfield_mask [of p]
  by (cases "get_bitfield_index_and_mask p")
    (auto simp: bf_put_def bf_range_def bit_simps)

lemma bf_put_other: "unat p div 8 \<noteq> i \<Longrightarrow> bf_put bf p b ! i = bf ! i"
  using bitfield_index [of p]
  by (cases "get_bitfield_index_and_mask p") (auto simp: bf_put_def)

lemma bf_put_out: "\<not> bf_range bf p \<Longrightarrow> bf_put bf p b = bf"
  using bitfield_index [of p]
  by (cases "get_bitfield_index_and_mask p") (auto simp: bf_put_def bf_range_def)

lemma piece_eqI: "unat p div 8 = unat q div 8 \<Longrightarrow> piece_bit p = piece_bit q \<Longrightarrow> p = q"
  for p q :: u32
proof -
  assume *: "unat p div 8 = unat q div 8" "piece_bit p = piece_bit q"
  have "unat p mod 8 < 8" "unat q mod 8 < 8" by simp_all
  with *(2) have "unat p mod 8 = unat q mod 8" by arith
  with *(1) have "unat p = unat q" by (metis div_mult_mod_eq)
  then show "p = q" by (rule unsigned_word_eqI)
qed

lemma bf_get_put:
  "bf_get (bf_put bf p b) q \<longleftrightarrow> (if q = p \<and> bf_range bf p then b else bf_get bf q)"
proof (cases "bf_range bf p")
  case True
  show ?thesis
  proof (cases "unat p div 8 = unat q div 8")
    case same: True
    have "piece_bit q = piece_bit p \<longleftrightarrow> q = p" using piece_eqI same by metis
    with True same show ?thesis
      using bf_put_bit [OF True, of "piece_bit q" b]
      by (auto simp: bf_get_bit bf_range_def)
  next
    case False
    then have "q \<noteq> p" by auto
    with False show ?thesis by (simp add: bf_get_bit bf_range_def bf_put_other)
  qed
qed (auto simp: bf_put_out)

interpretation bitfield_flags: piece_flags bf_put bf_get bf_range
  by unfold_locales (rule bf_get_put, simp add: bf_range_def, simp add: bf_get_bit)

lemma bf_get_zeros [simp]: "\<not> bf_get (replicate n 0) p"
  by (simp add: bf_get_bit bf_range_def)

text \<open>\<open>impl RemotePeerPieceView for [u8]\<close>.\<close>

definition is_piece_on_remote_slice :: "bytes \<Rightarrow> u32 \<Rightarrow> bool" where
  "is_piece_on_remote_slice bf piece =
     (let byte_index = unat (piece div 8); bit_index = unat (piece mod 8) in
      if byte_index < length bf then bf ! byte_index AND push_bit (7 - bit_index) 1 \<noteq> 0 else False)"

lemma is_piece_on_remote_slice: "is_piece_on_remote_slice bf p \<longleftrightarrow> bf_get bf p"
proof -
  have "unat (p div 8) = unat p div 8" "unat (p mod 8) = unat p mod 8"
    by (simp_all add: unat_div unat_mod)
  moreover have "x AND push_bit (piece_bit p) 1 \<noteq> 0 \<longleftrightarrow> bit x (piece_bit p)" for x :: u8
  proof (rule single_bit_test)
    show "bit (push_bit (piece_bit p) (1 :: u8)) k \<longleftrightarrow> k = piece_bit p" for k
      unfolding bit_push_bit_iff bit_1_iff by auto
  qed simp
  ultimately show ?thesis
    by (simp only: is_piece_on_remote_slice_def bf_get_bit bf_range_def Let_def) simp
qed

section \<open>The completeness test\<close>

text \<open>
  \<open>is_download_complete\<close> of \<open>PieceStore\<close> and \<open>PieceManager\<close>: all full bytes are \<open>0xFF\<close> and the
  leading bits of the last byte are set.
\<close>

definition bitfield_complete :: "nat \<Rightarrow> bytes \<Rightarrow> bool" where
  "bitfield_complete number_of_pieces bitfield =
     (if number_of_pieces = 0 \<or> bitfield = [] then False
      else let full_bytes = number_of_pieces div 8; rem_bits = number_of_pieces mod 8 in
        if list_ex (\<lambda>byte. byte \<noteq> 0xFF) (take full_bytes bitfield) then False
        else if rem_bits > 0 then
          (let m = NOT (push_bit (8 - rem_bits) 1 - 1) in
           if bitfield ! full_bytes AND m \<noteq> m then False else True)
        else True)"

lemma byte_full: "(b :: u8) = 0xFF \<longleftrightarrow> (\<forall>k < 8. bit b k)"
proof -
  have "(0xFF :: u8) = NOT 0" by simp
  then show ?thesis
    by (simp only: bit_word_eqI bit_not_iff) (auto simp: bit_eq_iff bit_simps)
qed

lemma last_byte_full:
  fixes b :: u8
  assumes "0 < r" and "r < 8"
  shows "b AND NOT (push_bit (8 - r) 1 - 1) = NOT (push_bit (8 - r) 1 - 1) \<longleftrightarrow>
    (\<forall>k < r. bit b (7 - k))"
proof -
  have m: "push_bit (8 - r) 1 - 1 = (mask (8 - r) :: u8)"
    by (simp add: mask_eq_exp_minus_1 push_bit_eq_mult)
  have "b AND NOT (mask (8 - r)) = NOT (mask (8 - r)) \<longleftrightarrow> (\<forall>j < 8. 8 - r \<le> j \<longrightarrow> bit b j)"
    by (auto simp: bit_eq_iff bit_simps)
  also have "\<dots> \<longleftrightarrow> (\<forall>k < r. bit b (7 - k))"
  proof (intro iffI allI impI)
    fix k assume "\<forall>j < 8. 8 - r \<le> j \<longrightarrow> bit b j" "k < r"
    with assms(2) show "bit b (7 - k)" by simp
  next
    fix j assume *: "\<forall>k < r. bit b (7 - k)" "j < 8" "8 - r \<le> j"
    then have "7 - j < r" "7 - (7 - j) = j" using assms by simp_all
    with *(1) show "bit b j" by metis
  qed
  finally show ?thesis by (simp only: m)
qed

lemma bf_get_nat:
  "i < 2 ^ 32 \<Longrightarrow> bf_get bf (of_nat i) \<longleftrightarrow> i div 8 < length bf \<and> bit (bf ! (i div 8)) (7 - i mod 8)"
  by (simp add: bf_get_bit bf_range_def unat_of_nat)

lemma all_below_bytes:
  "(\<forall>i < n :: nat. P i) \<longleftrightarrow>
     (\<forall>j < n div 8. \<forall>k < 8. P (8 * j + k)) \<and> (\<forall>k < n mod 8. P (8 * (n div 8) + k))"
proof (intro iffI conjI allI impI)
  fix i assume *: "(\<forall>j < n div 8. \<forall>k < 8. P (8 * j + k)) \<and> (\<forall>k < n mod 8. P (8 * (n div 8) + k))"
    and i: "i < n"
  have e: "8 * (i div 8) + i mod 8 = i" by simp
  show "P i"
  proof (cases "i div 8 < n div 8")
    case True
    with * have "\<forall>k < 8. P (8 * (i div 8) + k)" by blast
    moreover have "i mod 8 < 8" by simp
    ultimately have "P (8 * (i div 8) + i mod 8)" by blast
    with e show ?thesis by simp
  next
    case False
    with i have "i div 8 = n div 8" by (meson div_le_mono le_antisym less_imp_le not_less)
    moreover from this i e have "i mod 8 < n mod 8"
      by (metis add_less_cancel_left div_mult_mod_eq mult.commute)
    ultimately show ?thesis using * e by metis
  qed
next
  fix j k assume *: "\<forall>i < n. P i" "j < n div 8" "k < (8 :: nat)"
  then have "8 * j + 8 \<le> 8 * (n div 8)" by simp
  also have "\<dots> \<le> n" by simp
  finally show "P (8 * j + k)" using * by simp
next
  fix k assume *: "\<forall>i < n. P i" "k < n mod 8"
  have "8 * (n div 8) + n mod 8 = n" by simp
  with * show "P (8 * (n div 8) + k)" by (metis add_less_cancel_left)
qed

lemma bitfield_complete_iff:
  assumes "0 < n" and "n \<le> 2 ^ 32" and len: "length bf = (n + 7) div 8"
  shows "bitfield_complete n bf \<longleftrightarrow> (\<forall>i < n. bf_get bf (of_nat i))"
proof -
  have full: "n div 8 \<le> length bf" using len by (simp add: div_le_mono)
  have get: "bf_get bf (of_nat i) \<longleftrightarrow> bit (bf ! (i div 8)) (7 - i mod 8)" if "i < n" for i
  proof -
    have "i div 8 < length bf" using that len by (simp add: less_eq_Suc_le div_less_iff_less_mult)
    with that assms(2) show ?thesis by (simp add: bf_get_nat)
  qed
  have seven: "(\<forall>k < 8. Q (7 - k)) \<longleftrightarrow> (\<forall>k < 8. Q k)" for Q :: "nat \<Rightarrow> bool"
  proof (intro iffI allI impI)
    fix k :: nat assume *: "\<forall>k < 8. Q (7 - k)" "k < 8"
    have "7 - k < 8" by simp
    with *(1) have "Q (7 - (7 - k))" by blast
    moreover have "7 - (7 - k) = k" using *(2) by simp
    ultimately show "Q k" by simp
  qed simp
  have ex: "list_ex (\<lambda>b. b \<noteq> 0xFF) (take (n div 8) bf) \<longleftrightarrow> \<not> (\<forall>j < n div 8. bf ! j = 0xFF)"
    using full by (auto simp: list_ex_length)
  have bytes: "(\<forall>j < n div 8. bf ! j = 0xFF) \<longleftrightarrow> (\<forall>j < n div 8. \<forall>k < 8. bit (bf ! j) (7 - k))"
    by (simp only: byte_full seven)
  have last: "n mod 8 = 0 \<or> (bf ! (n div 8) AND NOT (push_bit (8 - n mod 8) 1 - 1) =
      NOT (push_bit (8 - n mod 8) 1 - 1)) \<longleftrightarrow> (\<forall>k < n mod 8. bit (bf ! (n div 8)) (7 - k))"
    using last_byte_full [of "n mod 8"] by (cases "n mod 8 = 0") simp_all
  have "bf \<noteq> []" using assms by auto
  then have "bitfield_complete n bf \<longleftrightarrow> \<not> list_ex (\<lambda>b. b \<noteq> 0xFF) (take (n div 8) bf) \<and>
      (n mod 8 = 0 \<or> (bf ! (n div 8) AND NOT (push_bit (8 - n mod 8) 1 - 1) =
        NOT (push_bit (8 - n mod 8) 1 - 1)))"
    using assms(1) unfolding bitfield_complete_def Let_def neq0_conv [symmetric] by argo
  also have "\<dots> \<longleftrightarrow> (\<forall>j < n div 8. \<forall>k < 8. bit (bf ! j) (7 - k)) \<and>
      (\<forall>k < n mod 8. bit (bf ! (n div 8)) (7 - k))"
    by (simp only: ex bytes last not_not)
  also have "\<dots> \<longleftrightarrow> (\<forall>i < n. bit (bf ! (i div 8)) (7 - i mod 8))"
    by (subst all_below_bytes) simp
  also have "\<dots> \<longleftrightarrow> (\<forall>i < n. bf_get bf (of_nat i))" using get by blast
  finally show ?thesis .
qed

end
