(* ===== verification/Piece_Store.thy ===== *)
theory Piece_Store
  imports Bitfield "HOL-Library.Multiset"
begin

text \<open>
  \<open>PieceStore\<close> and the rarity order (\<open>library/src/core/piece_store.rs\<close>), and \<open>PieceManager\<close>
  (\<open>library/src/core/piece_manager.rs\<close>). The standard library's \<open>BinaryHeap\<close> is a list of its
  entries whose \<open>pop\<close> takes a greatest one. Sets and heaps behind a mutex are plain fields: the
  locks are held for the length of each operation. Both components interpret \<open>piece_flags\<close>, for
  their local and for their missing pieces.
\<close>

section \<open>Rarity order\<close>

record PieceInfo =
  pi_peer_count :: nat
  pi_piece_length :: u32

datatype PieceRarity = PieceRarity (pr_peer_count: nat) (pr_piece_index: u32)

text \<open>\<open>impl Ord for PieceRarity\<close>: fewer peers is greater, then a lower index is greater.\<close>

instantiation PieceRarity :: linorder
begin

definition less_eq_PieceRarity :: "PieceRarity \<Rightarrow> PieceRarity \<Rightarrow> bool" where
  "less_eq_PieceRarity a b \<longleftrightarrow> pr_peer_count b < pr_peer_count a \<or>
     pr_peer_count b = pr_peer_count a \<and> pr_piece_index b \<le> pr_piece_index a"

definition less_PieceRarity :: "PieceRarity \<Rightarrow> PieceRarity \<Rightarrow> bool" where
  "less_PieceRarity a b \<longleftrightarrow> a \<le> b \<and> \<not> b \<le> (a :: PieceRarity)"

instance
  by standard (auto simp: less_eq_PieceRarity_def less_PieceRarity_def PieceRarity.expand)

end

definition heap_pop :: "'a::linorder list \<Rightarrow> ('a \<times> 'a list) option" where
  "heap_pop h = (if h = [] then None else let m = fold max (tl h) (hd h) in Some (m, remove1 m h))"

lemma fold_max: "fold max xs x = Max (set (x # xs))" for x :: "'a::linorder"
proof (induction xs arbitrary: x)
  case (Cons y xs)
  then show ?case by (cases "xs = []") (simp_all add: max.commute max.left_commute)
qed simp

lemma heap_pop_Some:
  assumes "heap_pop h = Some (m, h')"
  shows "m \<in> set h" and "\<And>x. x \<in> set h \<Longrightarrow> x \<le> m" and "mset h = add_mset m (mset h')"
    and "length h' < length h"
proof -
  from assms have h: "h \<noteq> []" "h' = remove1 m h" and m: "m = Max (set h)"
    by (auto simp: heap_pop_def Let_def fold_max split: if_splits)
  show "m \<in> set h" using h m by simp
  then show "mset h = add_mset m (mset h')" using h(2) by simp
  show "length h' < length h"
    using \<open>m \<in> set h\<close> length_pos_if_in_set [of m h] unfolding h(2) length_remove1 by simp
  show "x \<in> set h \<Longrightarrow> x \<le> m" for x using m by simp
qed

lemma heap_pop_None: "heap_pop h = None \<longleftrightarrow> h = []"
  by (simp add: heap_pop_def Let_def)

definition initial_queue :: "nat \<Rightarrow> PieceRarity list" where
  "initial_queue number_of_pieces = map (\<lambda>i. PieceRarity 0 (of_nat i)) [0..<number_of_pieces]"

section \<open>\<open>PieceStore\<close>\<close>

record PieceStore =
  ps_number_of_pieces :: nat
  ps_piece_length :: u32
  ps_pieces_info_hash :: bytes
  ps_bitfield :: bytes
  ps_pieces_missing :: bytes
  ps_piece_data :: "PieceInfo list"
  ps_missing_pieces_count :: nat
  ps_pieces_verifying :: "u32 set"
  ps_piece_priority_queue :: "PieceRarity list"

definition ps_new :: "nat \<Rightarrow> u32 \<Rightarrow> bytes \<Rightarrow> PieceStore" where
  "ps_new number_of_pieces piece_length pieces_info_hash =
     \<lparr>ps_number_of_pieces = number_of_pieces, ps_piece_length = piece_length,
      ps_pieces_info_hash = pieces_info_hash,
      ps_bitfield = replicate ((number_of_pieces + 7) div 8) 0,
      ps_pieces_missing = replicate ((number_of_pieces + 7) div 8) 0,
      ps_piece_data = replicate number_of_pieces \<lparr>pi_peer_count = 0, pi_piece_length = piece_length\<rparr>,
      ps_missing_pieces_count = 0, ps_pieces_verifying = {},
      ps_piece_priority_queue = initial_queue number_of_pieces\<rparr>"

definition ps_empty :: PieceStore where
  "ps_empty = \<lparr>ps_number_of_pieces = 0, ps_piece_length = 0, ps_pieces_info_hash = [], ps_bitfield = [],
     ps_pieces_missing = [], ps_piece_data = [], ps_missing_pieces_count = 0,
     ps_pieces_verifying = {}, ps_piece_priority_queue = []\<rparr>"

definition ps_init_pieces :: "PieceStore \<Rightarrow> nat \<Rightarrow> u32 \<Rightarrow> PieceStore" where
  "ps_init_pieces s number_of_pieces piece_length =
     s\<lparr>ps_number_of_pieces := number_of_pieces, ps_piece_length := piece_length,
       ps_bitfield := replicate ((number_of_pieces + 7) div 8) 0,
       ps_pieces_missing := replicate ((number_of_pieces + 7) div 8) 0,
       ps_piece_data := replicate number_of_pieces \<lparr>pi_peer_count = 0, pi_piece_length = piece_length\<rparr>,
       ps_missing_pieces_count := number_of_pieces,
       ps_piece_priority_queue := initial_queue number_of_pieces\<rparr>"

definition ps_mark_piece_local :: "PieceStore \<Rightarrow> u32 \<Rightarrow> bool \<Rightarrow> PieceStore" where
  "ps_mark_piece_local s piece_number local = s\<lparr>ps_bitfield := bf_put (ps_bitfield s) piece_number local\<rparr>"

definition ps_is_piece_local :: "PieceStore \<Rightarrow> u32 \<Rightarrow> bool" where
  "ps_is_piece_local s piece_number = bf_get (ps_bitfield s) piece_number"

definition ps_mark_piece_missing :: "PieceStore \<Rightarrow> u32 \<Rightarrow> bool \<Rightarrow> PieceStore" where
  "ps_mark_piece_missing s piece_number missing =
     s\<lparr>ps_pieces_missing := bf_put (ps_pieces_missing s) piece_number missing\<rparr>"

definition ps_is_piece_missing :: "PieceStore \<Rightarrow> u32 \<Rightarrow> bool" where
  "ps_is_piece_missing s piece_number = bf_get (ps_pieces_missing s) piece_number"

definition ps_is_piece_verifying :: "PieceStore \<Rightarrow> u32 \<Rightarrow> bool" where
  "ps_is_piece_verifying s piece_number \<longleftrightarrow> piece_number \<in> ps_pieces_verifying s"

definition ps_set_piece_verifying :: "PieceStore \<Rightarrow> u32 \<Rightarrow> bool \<Rightarrow> PieceStore" where
  "ps_set_piece_verifying s piece_number verifying =
     s\<lparr>ps_pieces_verifying := (if verifying then insert piece_number (ps_pieces_verifying s)
         else ps_pieces_verifying s - {piece_number})\<rparr>"

definition ps_get_piece_peer_count :: "PieceStore \<Rightarrow> u32 \<Rightarrow> nat" where
  "ps_get_piece_peer_count s piece_number =
     (let idx = unat piece_number in
      if idx < length (ps_piece_data s) then pi_peer_count (ps_piece_data s ! idx) else 0)"

definition ps_set_piece_length :: "PieceStore \<Rightarrow> u32 \<Rightarrow> u32 \<Rightarrow> PieceStore" where
  "ps_set_piece_length s piece_number len =
     (let idx = unat piece_number in
      if idx < length (ps_piece_data s)
      then s\<lparr>ps_piece_data := (ps_piece_data s)[idx := (ps_piece_data s ! idx)\<lparr>pi_piece_length := len\<rparr>]\<rparr>
      else s)"

definition ps_get_piece_length :: "PieceStore \<Rightarrow> u32 \<Rightarrow> u32" where
  "ps_get_piece_length s piece_number =
     (let idx = unat piece_number in
      if idx < length (ps_piece_data s) then pi_piece_length (ps_piece_data s ! idx)
      else ps_piece_length s)"

definition ps_update_bitfield_status :: "PieceStore \<Rightarrow> u32 \<Rightarrow> bool \<Rightarrow> PieceStore" where
  "ps_update_bitfield_status s piece_number valid =
     (if valid then
        let s1 = ps_mark_piece_missing (ps_mark_piece_local s piece_number True) piece_number False in
        if ps_missing_pieces_count s1 > 0
        then s1\<lparr>ps_missing_pieces_count := ps_missing_pieces_count s1 - 1\<rparr> else s1
      else ps_mark_piece_missing (ps_mark_piece_local s piece_number False) piece_number True)"

definition ps_is_download_complete :: "PieceStore \<Rightarrow> bool" where
  "ps_is_download_complete s = bitfield_complete (ps_number_of_pieces s) (ps_bitfield s)"

interpretation ps_local: piece_flags ps_mark_piece_local ps_is_piece_local
  "\<lambda>s. bf_range (ps_bitfield s)"
  by unfold_locales
    (simp_all add: ps_mark_piece_local_def ps_is_piece_local_def bf_get_put
      bitfield_flags.in_range_mark bitfield_flags.has_in_range)

interpretation ps_missing: piece_flags ps_mark_piece_missing ps_is_piece_missing
  "\<lambda>s. bf_range (ps_pieces_missing s)"
  by unfold_locales
    (simp_all add: ps_mark_piece_missing_def ps_is_piece_missing_def bf_get_put
      bitfield_flags.in_range_mark bitfield_flags.has_in_range)

section \<open>\<open>PieceManager\<close>\<close>

record PieceManager =
  pm_number_of_pieces :: nat
  pm_piece_length :: u32
  pm_pieces_info_hash :: bytes
  pm_bitfield :: bytes
  pm_pieces_missing :: bytes
  pm_piece_data :: "PieceInfo list"
  pm_missing_pieces_count :: nat
  pm_pieces_verifying :: "u32 set"
  pm_piece_priority_queue :: "PieceRarity list"

definition pm_new :: "nat \<Rightarrow> u32 \<Rightarrow> bytes \<Rightarrow> PieceManager" where
  "pm_new number_of_pieces piece_length pieces_info_hash =
     \<lparr>pm_number_of_pieces = number_of_pieces, pm_piece_length = piece_length,
      pm_pieces_info_hash = pieces_info_hash,
      pm_bitfield = replicate ((number_of_pieces + 7) div 8) 0,
      pm_pieces_missing = replicate ((number_of_pieces + 7) div 8) 0,
      pm_piece_data = replicate number_of_pieces \<lparr>pi_peer_count = 0, pi_piece_length = piece_length\<rparr>,
      pm_missing_pieces_count = number_of_pieces, pm_pieces_verifying = {},
      pm_piece_priority_queue = initial_queue number_of_pieces\<rparr>"

definition pm_empty :: PieceManager where
  "pm_empty = \<lparr>pm_number_of_pieces = 0, pm_piece_length = 0, pm_pieces_info_hash = [], pm_bitfield = [],
     pm_pieces_missing = [], pm_piece_data = [], pm_missing_pieces_count = 0,
     pm_pieces_verifying = {}, pm_piece_priority_queue = []\<rparr>"

definition pm_init_pieces :: "PieceManager \<Rightarrow> nat \<Rightarrow> u32 \<Rightarrow> bytes \<Rightarrow> PieceManager" where
  "pm_init_pieces m number_of_pieces piece_length pieces_info_hash =
     m\<lparr>pm_number_of_pieces := number_of_pieces, pm_piece_length := piece_length,
       pm_pieces_info_hash := pieces_info_hash,
       pm_bitfield := replicate ((number_of_pieces + 7) div 8) 0,
       pm_pieces_missing := replicate ((number_of_pieces + 7) div 8) 0,
       pm_piece_data := replicate number_of_pieces \<lparr>pi_peer_count = 0, pi_piece_length = piece_length\<rparr>,
       pm_missing_pieces_count := number_of_pieces,
       pm_piece_priority_queue := initial_queue number_of_pieces\<rparr>"

definition pm_mark_piece_local :: "PieceManager \<Rightarrow> u32 \<Rightarrow> bool \<Rightarrow> PieceManager" where
  "pm_mark_piece_local m piece_number local = m\<lparr>pm_bitfield := bf_put (pm_bitfield m) piece_number local\<rparr>"

definition pm_is_piece_local :: "PieceManager \<Rightarrow> u32 \<Rightarrow> bool" where
  "pm_is_piece_local m piece_number = bf_get (pm_bitfield m) piece_number"

definition pm_completed_pieces_count :: "PieceManager \<Rightarrow> nat" where
  "pm_completed_pieces_count m =
     length (filter (\<lambda>p. pm_is_piece_local m (of_nat p)) [0..<pm_number_of_pieces m])"

text \<open>\<open>mark_piece_missing\<close> counts only real changes of the bit.\<close>

definition pm_mark_piece_missing :: "PieceManager \<Rightarrow> u32 \<Rightarrow> bool \<Rightarrow> PieceManager" where
  "pm_mark_piece_missing m piece_number missing =
     (let (byte_index, bit_mask) = get_bitfield_index_and_mask piece_number in
      if byte_index < length (pm_pieces_missing m) then
        if missing then
          (if \<not> bf_get (pm_pieces_missing m) piece_number
           then m\<lparr>pm_pieces_missing := bf_put (pm_pieces_missing m) piece_number True,
                  pm_missing_pieces_count := pm_missing_pieces_count m + 1\<rparr>
           else m)
        else if bf_get (pm_pieces_missing m) piece_number
          then m\<lparr>pm_pieces_missing := bf_put (pm_pieces_missing m) piece_number False,
                 pm_missing_pieces_count := pm_missing_pieces_count m - 1\<rparr>
          else m
      else m)"

definition pm_is_piece_missing :: "PieceManager \<Rightarrow> u32 \<Rightarrow> bool" where
  "pm_is_piece_missing m piece_number = bf_get (pm_pieces_missing m) piece_number"

definition pm_is_piece_verifying :: "PieceManager \<Rightarrow> u32 \<Rightarrow> bool" where
  "pm_is_piece_verifying m piece_number \<longleftrightarrow> piece_number \<in> pm_pieces_verifying m"

definition pm_set_piece_verifying :: "PieceManager \<Rightarrow> u32 \<Rightarrow> bool \<Rightarrow> PieceManager" where
  "pm_set_piece_verifying m piece_number verifying =
     m\<lparr>pm_pieces_verifying := (if verifying then insert piece_number (pm_pieces_verifying m)
         else pm_pieces_verifying m - {piece_number})\<rparr>"

definition pm_verifying_pieces_count :: "PieceManager \<Rightarrow> nat" where
  "pm_verifying_pieces_count m = card (pm_pieces_verifying m)"

definition pm_update_bitfield_status :: "PieceManager \<Rightarrow> u32 \<Rightarrow> bool \<Rightarrow> PieceManager" where
  "pm_update_bitfield_status m piece_number valid =
     (if valid then pm_mark_piece_missing (pm_mark_piece_local m piece_number True) piece_number False
      else pm_mark_piece_missing (pm_mark_piece_local m piece_number False) piece_number True)"

definition pm_verify_piece_hash :: "(bytes \<Rightarrow> bytes) \<Rightarrow> PieceManager \<Rightarrow> u32 \<Rightarrow> bytes \<Rightarrow> bool" where
  "pm_verify_piece_hash sha1 m piece_number piece_data =
     (let offset = unat piece_number * HASH_LENGTH in
      if offset + HASH_LENGTH > length (pm_pieces_info_hash m) then False
      else sha1 piece_data = bslice (pm_pieces_info_hash m) offset (offset + HASH_LENGTH))"

definition pm_is_download_complete :: "PieceManager \<Rightarrow> bool" where
  "pm_is_download_complete m = bitfield_complete (pm_number_of_pieces m) (pm_bitfield m)"

text \<open>\<open>pop_rarest_piece\<close>: the loop over the queue, given what to skip and what the peer has.\<close>

function pop_rarest_loop ::
  "(u32 \<Rightarrow> bool) \<Rightarrow> (u32 \<Rightarrow> bool) \<Rightarrow> PieceRarity list \<Rightarrow> PieceRarity list \<Rightarrow>
     PieceRarity option \<times> PieceRarity list \<times> PieceRarity list" where
  "pop_rarest_loop skip on_peer pq temporary_list =
     (case heap_pop pq of
        None \<Rightarrow> (None, pq, temporary_list)
      | Some (popped, pq') \<Rightarrow>
          if skip (pr_piece_index popped) then pop_rarest_loop skip on_peer pq' temporary_list
          else if on_peer (pr_piece_index popped) then (Some popped, pq', temporary_list)
          else pop_rarest_loop skip on_peer pq' (temporary_list @ [popped]))"
  by pat_completeness auto
termination
  by (relation "measure (\<lambda>(_, _, pq, _). length pq)") (auto dest: heap_pop_Some(4))

declare pop_rarest_loop.simps [simp del]

definition pm_pop_rarest_piece :: "PieceManager \<Rightarrow> (u32 \<Rightarrow> bool) \<Rightarrow> PieceRarity option \<times> PieceManager" where
  "pm_pop_rarest_piece m on_peer =
     (case pop_rarest_loop (\<lambda>p. pm_is_piece_local m p \<or> pm_is_piece_verifying m p) on_peer
             (pm_piece_priority_queue m) [] of
        (result, pq, temporary_list) \<Rightarrow>
          (result, m\<lparr>pm_piece_priority_queue := pq @ temporary_list\<rparr>))"

definition pm_check_endgame_mode :: "PieceManager \<Rightarrow> bool" where
  "pm_check_endgame_mode m \<longleftrightarrow>
     pm_missing_pieces_count m > 0 \<and> pm_missing_pieces_count m \<le> ENDGAME_THRESHOLD"

definition pm_get_piece_length :: "PieceManager \<Rightarrow> u32 \<Rightarrow> u32" where
  "pm_get_piece_length m piece_number =
     (let idx = unat piece_number in
      if idx < length (pm_piece_data m) then pi_piece_length (pm_piece_data m ! idx)
      else pm_piece_length m)"

definition pm_set_piece_length :: "PieceManager \<Rightarrow> u32 \<Rightarrow> u32 \<Rightarrow> PieceManager" where
  "pm_set_piece_length m piece_number len =
     (let idx = unat piece_number in
      if idx < length (pm_piece_data m)
      then m\<lparr>pm_piece_data := (pm_piece_data m)[idx := (pm_piece_data m ! idx)\<lparr>pi_piece_length := len\<rparr>]\<rparr>
      else m)"

definition pm_get_piece_peer_count :: "PieceManager \<Rightarrow> u32 \<Rightarrow> nat" where
  "pm_get_piece_peer_count m piece_number =
     (let idx = unat piece_number in
      if idx < length (pm_piece_data m) then pi_peer_count (pm_piece_data m ! idx) else 0)"

text \<open>\<open>(len + BLOCK_SIZE - 1) / BLOCK_SIZE\<close> in \<open>u32\<close>: the sum wraps.\<close>

definition pm_blocks_in_piece :: "PieceManager \<Rightarrow> u32 \<Rightarrow> u32" where
  "pm_blocks_in_piece m piece_number =
     (pm_get_piece_length m piece_number + of_nat BLOCK_SIZE - 1) div of_nat BLOCK_SIZE"

lemma pm_mark_piece_missing_simp:
  "pm_mark_piece_missing m p b =
     (if bf_range (pm_pieces_missing m) p \<and> bf_get (pm_pieces_missing m) p \<noteq> b
      then m\<lparr>pm_pieces_missing := bf_put (pm_pieces_missing m) p b,
             pm_missing_pieces_count := (if b then pm_missing_pieces_count m + 1
                                         else pm_missing_pieces_count m - 1)\<rparr>
      else m)"
  using bitfield_index [of p]
  by (cases "get_bitfield_index_and_mask p") (simp add: pm_mark_piece_missing_def bf_range_def)

interpretation pm_local: piece_flags pm_mark_piece_local pm_is_piece_local
  "\<lambda>m. bf_range (pm_bitfield m)"
  by unfold_locales
    (simp_all add: pm_mark_piece_local_def pm_is_piece_local_def bf_get_put
      bitfield_flags.in_range_mark bitfield_flags.has_in_range)

interpretation pm_missing: piece_flags pm_mark_piece_missing pm_is_piece_missing
  "\<lambda>m. bf_range (pm_pieces_missing m)"
  by unfold_locales
    (auto simp: pm_mark_piece_missing_simp pm_is_piece_missing_def bf_get_put
      bitfield_flags.in_range_mark bitfield_flags.has_in_range)

section \<open>Well-formed managers and the counters\<close>

definition pm_wf :: "PieceManager \<Rightarrow> bool" where
  "pm_wf m \<longleftrightarrow> pm_number_of_pieces m \<le> 2 ^ 32 \<and>
     length (pm_bitfield m) = (pm_number_of_pieces m + 7) div 8 \<and>
     length (pm_pieces_missing m) = (pm_number_of_pieces m + 7) div 8 \<and>
     length (pm_piece_data m) = pm_number_of_pieces m"

definition ps_wf :: "PieceStore \<Rightarrow> bool" where
  "ps_wf s \<longleftrightarrow> ps_number_of_pieces s \<le> 2 ^ 32 \<and>
     length (ps_bitfield s) = (ps_number_of_pieces s + 7) div 8 \<and>
     length (ps_pieces_missing s) = (ps_number_of_pieces s + 7) div 8 \<and>
     length (ps_piece_data s) = ps_number_of_pieces s"

lemma bf_range_below: "length bf = (n + 7) div 8 \<Longrightarrow> unat p < n \<Longrightarrow> bf_range bf p"
  by (simp add: bf_range_def less_eq_Suc_le div_less_iff_less_mult)

lemma pm_wf_new: "n \<le> 2 ^ 32 \<Longrightarrow> pm_wf (pm_new n len h)"
  by (simp add: pm_wf_def pm_new_def)

lemma pm_new_simps [simp]:
  "pm_number_of_pieces (pm_new n len h) = n" "\<not> pm_is_piece_local (pm_new n len h) q"
  "\<not> pm_is_piece_missing (pm_new n len h) q" "\<not> pm_is_piece_verifying (pm_new n len h) q"
  "pm_piece_priority_queue (pm_new n len h) = initial_queue n"
  "pm_missing_pieces_count (pm_new n len h) = n"
  by (simp_all add: pm_new_def pm_is_piece_local_def pm_is_piece_missing_def pm_is_piece_verifying_def)

lemma pm_wf_ops:
  assumes "pm_wf m"
  shows "pm_wf (pm_mark_piece_local m p b)" "pm_wf (pm_mark_piece_missing m p b)"
    "pm_wf (pm_set_piece_verifying m p b)" "pm_wf (pm_update_bitfield_status m p b)"
    "pm_wf (pm_set_piece_length m p l)" "pm_wf (snd (pm_pop_rarest_piece m on_peer))"
    "n \<le> 2 ^ 32 \<Longrightarrow> pm_wf (pm_init_pieces m n l h)"
  using assms
  by (simp_all add: pm_wf_def pm_mark_piece_local_def pm_mark_piece_missing_simp
      pm_set_piece_verifying_def pm_update_bitfield_status_def pm_set_piece_length_def
      pm_pop_rarest_piece_def pm_init_pieces_def Let_def split: prod.splits)

lemma ps_wf_ops:
  assumes "ps_wf s"
  shows "ps_wf (ps_mark_piece_local s p b)" "ps_wf (ps_mark_piece_missing s p b)"
    "ps_wf (ps_set_piece_verifying s p b)" "ps_wf (ps_update_bitfield_status s p b)"
    "ps_wf (ps_set_piece_length s p l)" "n \<le> 2 ^ 32 \<Longrightarrow> ps_wf (ps_init_pieces s n l)"
  using assms
  by (simp_all add: ps_wf_def ps_mark_piece_local_def ps_mark_piece_missing_def
      ps_set_piece_verifying_def ps_update_bitfield_status_def ps_set_piece_length_def
      ps_init_pieces_def Let_def)

text \<open>The two bitfields as sets of pieces.\<close>

abbreviation pm_local_set :: "PieceManager \<Rightarrow> u32 set" where
  "pm_local_set m \<equiv> {q. pm_is_piece_local m q}"

abbreviation pm_missing_set :: "PieceManager \<Rightarrow> u32 set" where
  "pm_missing_set m \<equiv> {q. pm_is_piece_missing m q}"

lemma pm_mark_missing_local [simp]:
  "pm_is_piece_local (pm_mark_piece_missing m p b) q = pm_is_piece_local m q"
  by (simp add: pm_is_piece_local_def pm_mark_piece_missing_simp)

lemma pm_mark_local_missing [simp]:
  "pm_is_piece_missing (pm_mark_piece_local m p b) q = pm_is_piece_missing m q"
  "bf_range (pm_pieces_missing (pm_mark_piece_local m p b)) q = bf_range (pm_pieces_missing m) q"
  "pm_missing_pieces_count (pm_mark_piece_local m p b) = pm_missing_pieces_count m"
  by (simp_all add: pm_is_piece_missing_def pm_mark_piece_local_def)

lemma pm_update_sets:
  assumes "pm_wf m" and "unat p < pm_number_of_pieces m"
  shows "pm_local_set (pm_update_bitfield_status m p valid) =
      (if valid then insert p (pm_local_set m) else pm_local_set m - {p})"
    and "pm_missing_set (pm_update_bitfield_status m p valid) =
      (if valid then pm_missing_set m - {p} else insert p (pm_missing_set m))"
proof -
  have "bf_range (pm_bitfield m) p" "bf_range (pm_pieces_missing m) p"
    using assms bf_range_below by (auto simp: pm_wf_def)
  then show "pm_local_set (pm_update_bitfield_status m p valid) =
      (if valid then insert p (pm_local_set m) else pm_local_set m - {p})"
    "pm_missing_set (pm_update_bitfield_status m p valid) =
      (if valid then pm_missing_set m - {p} else insert p (pm_missing_set m))"
    by (auto simp: pm_update_bitfield_status_def pm_local.has_mark pm_missing.has_mark)
qed

text \<open>The counter and the bits move together, so their difference never changes.\<close>

lemma pm_mark_missing_count:
  assumes "card (pm_missing_set m) \<le> pm_missing_pieces_count m"
  shows "int (pm_missing_pieces_count (pm_mark_piece_missing m p b)) -
      int (card (pm_missing_set (pm_mark_piece_missing m p b))) =
    int (pm_missing_pieces_count m) - int (card (pm_missing_set m))"
proof (cases "bf_range (pm_pieces_missing m) p \<and> bf_get (pm_pieces_missing m) p \<noteq> b")
  case True
  then have range: "bf_range (pm_pieces_missing m) p" by simp
  show ?thesis
  proof (cases b)
    case b: True
    have "pm_missing_set (pm_mark_piece_missing m p b) = insert p (pm_missing_set m)"
      using range b by (auto simp: pm_missing.has_mark)
    moreover have "p \<notin> pm_missing_set m" using True b by (simp add: pm_is_piece_missing_def)
    ultimately show ?thesis using True b by (simp add: pm_mark_piece_missing_simp)
  next
    case b: False
    have "pm_missing_set (pm_mark_piece_missing m p b) = pm_missing_set m - {p}"
      using range b by (auto simp: pm_missing.has_mark)
    moreover have p: "p \<in> pm_missing_set m" using True b by (simp add: pm_is_piece_missing_def)
    ultimately have "card (pm_missing_set (pm_mark_piece_missing m p b)) =
        card (pm_missing_set m) - 1" by simp
    moreover have "0 < card (pm_missing_set m)" using p by (auto simp: card_gt_0_iff)
    ultimately show ?thesis using True b assms by (simp add: pm_mark_piece_missing_simp)
  qed
next
  case False
  then have "pm_mark_piece_missing m p b = m"
    unfolding pm_mark_piece_missing_simp by (rule if_not_P)
  then show ?thesis by simp
qed

lemma pm_update_count:
  assumes "card (pm_missing_set m) \<le> pm_missing_pieces_count m"
  shows "int (pm_missing_pieces_count (pm_update_bitfield_status m p v)) -
      int (card (pm_missing_set (pm_update_bitfield_status m p v))) =
    int (pm_missing_pieces_count m) - int (card (pm_missing_set m))"
  using assms pm_mark_missing_count [of "pm_mark_piece_local m p v" p "\<not> v"]
  by (cases v) (simp_all add: pm_update_bitfield_status_def)

lemma pm_updates_count:
  assumes "card (pm_missing_set m) \<le> pm_missing_pieces_count m"
  shows "int (pm_missing_pieces_count (foldl (\<lambda>m (p, v). pm_update_bitfield_status m p v) m us)) -
      int (card (pm_missing_set (foldl (\<lambda>m (p, v). pm_update_bitfield_status m p v) m us))) =
    int (pm_missing_pieces_count m) - int (card (pm_missing_set m))"
  using assms
proof (induction us arbitrary: m)
  case (Cons u us)
  obtain p v where u: "u = (p, v)" by force
  note step = pm_update_count [OF Cons.prems, of p v]
  with Cons.prems have "card (pm_missing_set (pm_update_bitfield_status m p v)) \<le>
      pm_missing_pieces_count (pm_update_bitfield_status m p v)" by linarith
  from Cons.IH [OF this] step u show ?case by simp
qed simp

section \<open>The rarest piece\<close>

lemma pop_rarest_loop_correct:
  assumes "pop_rarest_loop skip on_peer pq tmp = (res, pq', tmp')"
    and "\<forall>y \<in> set tmp. \<not> skip (pr_piece_index y) \<and> \<not> on_peer (pr_piece_index y)"
  shows "\<exists>dropped. mset pq + mset tmp =
        mset pq' + mset tmp' + dropped + (case res of None \<Rightarrow> {#} | Some x \<Rightarrow> {#x#}) \<and>
      (\<forall>y \<in># dropped. skip (pr_piece_index y)) \<and>
      (\<forall>y \<in> set tmp'. \<not> skip (pr_piece_index y) \<and> \<not> on_peer (pr_piece_index y)) \<and>
      (case res of
         None \<Rightarrow> pq' = []
       | Some x \<Rightarrow> \<not> skip (pr_piece_index x) \<and> on_peer (pr_piece_index x) \<and> (\<forall>y \<in> set pq'. y \<le> x))"
  using assms
proof (induction skip on_peer pq tmp arbitrary: res pq' tmp' rule: pop_rarest_loop.induct)
  case (1 skip on_peer pq tmp)
  show ?case
  proof (cases "heap_pop pq")
    case None
    with "1.prems" show ?thesis
      by (auto simp: pop_rarest_loop.simps [of _ _ pq] heap_pop_None intro!: exI [of _ "{#}"])
  next
    case (Some xp)
    obtain x p1 where xp: "xp = (x, p1)" by force
    note pop = heap_pop_Some [OF Some [unfolded xp]]
    have sub: "set p1 \<subseteq> set pq" using pop(3) by (metis mset_subset_eq_add_right add_mset_add_single set_mset_mono set_mset_mset mset_subset_eq_add_left)
    consider (skip) "skip (pr_piece_index x)"
      | (found) "\<not> skip (pr_piece_index x)" "on_peer (pr_piece_index x)"
      | (keep) "\<not> skip (pr_piece_index x)" "\<not> on_peer (pr_piece_index x)" by blast
    then show ?thesis
    proof cases
      case skip
      with "1.prems" Some xp have "pop_rarest_loop skip on_peer p1 tmp = (res, pq', tmp')"
        by (simp add: pop_rarest_loop.simps [of _ _ pq])
      from "1.IH"(1) [OF Some xp [symmetric] skip this "1.prems"(2)] obtain dropped where
        "mset p1 + mset tmp = mset pq' + mset tmp' + dropped + (case res of None \<Rightarrow> {#} | Some x \<Rightarrow> {#x#})"
        "\<forall>y \<in># dropped. skip (pr_piece_index y)"
        and rest: "(\<forall>y \<in> set tmp'. \<not> skip (pr_piece_index y) \<and> \<not> on_peer (pr_piece_index y)) \<and>
          (case res of None \<Rightarrow> pq' = []
           | Some x \<Rightarrow> \<not> skip (pr_piece_index x) \<and> on_peer (pr_piece_index x) \<and> (\<forall>y \<in> set pq'. y \<le> x))"
        by blast
      with skip pop(3) show ?thesis
        by (intro exI [of _ "add_mset x dropped"]) simp
    next
      case found
      with "1.prems" Some xp have "res = Some x" "pq' = p1" "tmp' = tmp"
        by (simp_all add: pop_rarest_loop.simps [of _ _ pq])
      with found pop sub "1.prems"(2) show ?thesis
        by (intro exI [of _ "{#}"]) auto
    next
      case keep
      with "1.prems" Some xp have "pop_rarest_loop skip on_peer p1 (tmp @ [x]) = (res, pq', tmp')"
        by (simp add: pop_rarest_loop.simps [of _ _ pq])
      from "1.IH"(2) [OF Some xp [symmetric] keep this] "1.prems"(2) keep pop(3) show ?thesis by auto
    qed
  qed
qed

lemma pm_pop_rarest_correct:
  assumes "pm_pop_rarest_piece m on_peer = (res, m')"
    and "wanted = (\<lambda>y. \<not> pm_is_piece_local m (pr_piece_index y) \<and>
      \<not> pm_is_piece_verifying m (pr_piece_index y) \<and> on_peer (pr_piece_index y))"
  shows "(case res of
        None \<Rightarrow> (\<forall>y \<in> set (pm_piece_priority_queue m). \<not> wanted y)
      | Some x \<Rightarrow> x \<in> set (pm_piece_priority_queue m) \<and> wanted x \<and>
          (\<forall>y \<in> set (pm_piece_priority_queue m). wanted y \<longrightarrow> y \<le> x))"
    and "\<forall>y. \<not> pm_is_piece_local m (pr_piece_index y) \<and> \<not> pm_is_piece_verifying m (pr_piece_index y) \<longrightarrow>
      count (mset (pm_piece_priority_queue m)) y =
      count (mset (pm_piece_priority_queue m')) y + (if res = Some y then 1 else 0)"
proof -
  let ?skip = "\<lambda>p. pm_is_piece_local m p \<or> pm_is_piece_verifying m p"
  obtain pq' tmp' where loop:
      "pop_rarest_loop ?skip on_peer (pm_piece_priority_queue m) [] = (res, pq', tmp')"
    and q': "pm_piece_priority_queue m' = pq' @ tmp'"
    using assms(1) by (auto simp: pm_pop_rarest_piece_def split: prod.splits)
  from pop_rarest_loop_correct [OF loop] obtain dropped where
    all: "mset (pm_piece_priority_queue m) =
        mset pq' + mset tmp' + dropped + (case res of None \<Rightarrow> {#} | Some x \<Rightarrow> {#x#})"
    and dropped: "\<forall>y \<in># dropped. ?skip (pr_piece_index y)"
    and tmp: "\<forall>y \<in> set tmp'. \<not> ?skip (pr_piece_index y) \<and> \<not> on_peer (pr_piece_index y)"
    and res: "case res of None \<Rightarrow> pq' = []
       | Some x \<Rightarrow> \<not> ?skip (pr_piece_index x) \<and> on_peer (pr_piece_index x) \<and> (\<forall>y \<in> set pq'. y \<le> x)"
    by auto
  have mem: "y \<in> set (pm_piece_priority_queue m) \<longleftrightarrow>
      y \<in> set pq' \<or> y \<in> set tmp' \<or> y \<in># dropped \<or> res = Some y" for y
    using arg_cong [OF all, of "\<lambda>M. y \<in># M"] by (cases res) auto
  show "case res of
        None \<Rightarrow> (\<forall>y \<in> set (pm_piece_priority_queue m). \<not> wanted y)
      | Some x \<Rightarrow> x \<in> set (pm_piece_priority_queue m) \<and> wanted x \<and>
          (\<forall>y \<in> set (pm_piece_priority_queue m). wanted y \<longrightarrow> y \<le> x)"
    using res tmp dropped mem by (cases res) (auto simp: assms(2))
  show "\<forall>y. \<not> pm_is_piece_local m (pr_piece_index y) \<and> \<not> pm_is_piece_verifying m (pr_piece_index y) \<longrightarrow>
      count (mset (pm_piece_priority_queue m)) y =
      count (mset (pm_piece_priority_queue m')) y + (if res = Some y then 1 else 0)"
  proof (intro allI impI)
    fix y assume "\<not> pm_is_piece_local m (pr_piece_index y) \<and> \<not> pm_is_piece_verifying m (pr_piece_index y)"
    then have "count dropped y = 0" using dropped by (auto simp: count_eq_zero_iff)
    then show "count (mset (pm_piece_priority_queue m)) y =
        count (mset (pm_piece_priority_queue m')) y + (if res = Some y then 1 else 0)"
      unfolding all q' by (cases res) simp_all
  qed
qed

section \<open>Completion\<close>

lemma length_filter_all: "length (filter P [0..<n]) = n \<longleftrightarrow> (\<forall>i < n. P i)"
proof (induction n)
  case (Suc n)
  have "length (filter P [0..<n]) \<le> n" using length_filter_le [of P "[0..<n]"] by simp
  with Suc show ?case by (auto simp: less_Suc_eq)
qed simp

section \<open>Properties\<close>



text \<open>
  \<open>PieceManager::update_bitfield_status\<close>: As sets of pieces: a valid piece joins the local
  pieces and leaves the missing ones, an invalid piece the reverse, no other piece changes,
  and the vectors keep their lengths.
\<close>

theorem pm_update_refines_sets:
  assumes "pm_wf m" and "unat p < pm_number_of_pieces m"
  shows "pm_local_set (pm_update_bitfield_status m p valid) =
      (if valid then insert p (pm_local_set m) else pm_local_set m - {p}) \<and>
    pm_missing_set (pm_update_bitfield_status m p valid) =
      (if valid then pm_missing_set m - {p} else insert p (pm_missing_set m)) \<and>
    pm_wf (pm_update_bitfield_status m p valid)"
  using pm_update_sets [OF assms] pm_wf_ops(4) [OF assms(1)] by simp

theorem pm_update_refines_sets_witness:
  "pm_local_set (pm_update_bitfield_status (pm_new 9 16384 []) 8 True) = {8}"
proof -
  have "pm_local_set (pm_new 9 16384 []) = {}" by simp
  with pm_update_refines_sets [of "pm_new 9 16384 []" 8 True] pm_wf_new [of 9 16384 "[]"]
  show ?thesis by auto
qed



text \<open>
  \<open>PieceManager::missing_pieces_count\<close>: A new manager counts all \<open>n\<close> pieces as missing while no
  missing bit is set, and every later update moves counter and bits together. The counter is
  therefore always \<open>n\<close> too high, and with more than five pieces \<open>check_endgame_mode\<close> never
  holds, whatever has been downloaded.
\<close>

theorem pm_missing_count_offset:
  "pm_missing_pieces_count (foldl (\<lambda>m (p, v). pm_update_bitfield_status m p v) (pm_new n len h) us) =
     n + card (pm_missing_set (foldl (\<lambda>m (p, v). pm_update_bitfield_status m p v) (pm_new n len h) us)) \<and>
   (ENDGAME_THRESHOLD < n \<longrightarrow>
     \<not> pm_check_endgame_mode (foldl (\<lambda>m (p, v). pm_update_bitfield_status m p v) (pm_new n len h) us))"
proof -
  have "pm_missing_set (pm_new n len h) = {}" by simp
  with pm_updates_count [of "pm_new n len h" us] show ?thesis
    by (simp add: pm_check_endgame_mode_def)
qed

theorem pm_missing_count_offset_witness:
  "\<not> pm_check_endgame_mode (pm_update_bitfield_status (pm_new 6 16384 []) 0 True)"
  using pm_missing_count_offset [of 6 16384 "[]" "[(0, True)]"] by (simp add: ENDGAME_THRESHOLD_def)

end
