(* ===== verification/Selector.thy ===== *)
theory Selector
  imports Piece_Store
begin

text \<open>
  Piece selection: the views of \<open>library/src/core/views.rs\<close> as a record of the answers they give,
  and the selectors of \<open>library/src/core/selector.rs\<close>. The locale \<open>piece_selector\<close> is the contract of
  the trait \<open>PieceSelector\<close>: a selected piece is one the torrent lacks and the peer has, and
  a selector gives up only when there is none. The consequence for the download, that selecting
  repeatedly obtains every such piece exactly once, is proved once from the contract.
\<close>

section \<open>Views\<close>

record AvailabilityView =
  av_number_of_pieces :: nat
  av_piece_length :: "u32 \<Rightarrow> u32"
  av_is_piece_local :: "u32 \<Rightarrow> bool"
  av_is_piece_wanted :: "u32 \<Rightarrow> bool"
  av_is_piece_verifying :: "u32 \<Rightarrow> bool"
  av_peer_count_for_piece :: "u32 \<Rightarrow> nat"

text \<open>\<open>impl PieceAvailabilityView for PieceManager\<close>.\<close>

definition pm_view :: "PieceManager \<Rightarrow> AvailabilityView" where
  "pm_view m = \<lparr>av_number_of_pieces = pm_number_of_pieces m, av_piece_length = pm_get_piece_length m,
     av_is_piece_local = pm_is_piece_local m, av_is_piece_wanted = (\<lambda>p. \<not> pm_is_piece_local m p),
     av_is_piece_verifying = pm_is_piece_verifying m,
     av_peer_count_for_piece = pm_get_piece_peer_count m\<rparr>"

definition eligible :: "AvailabilityView \<Rightarrow> (u32 \<Rightarrow> bool) \<Rightarrow> u32 \<Rightarrow> bool" where
  "eligible v peer piece \<longleftrightarrow> av_is_piece_wanted v piece \<and> \<not> av_is_piece_local v piece \<and>
     \<not> av_is_piece_verifying v piece \<and> peer piece"

text \<open>\<open>a..b\<close> over \<open>u32\<close>.\<close>

definition u32_range :: "nat \<Rightarrow> nat \<Rightarrow> u32 list" where
  "u32_range a b = map of_nat [a..<b]"

definition USIZE_MAX :: nat where "USIZE_MAX = U64_MAX"

text \<open>The default \<open>pop_rarest_piece\<close>: a linear scan with the least count so far.\<close>

definition rarest_scan_step ::
  "AvailabilityView \<Rightarrow> (u32 \<Rightarrow> bool) \<Rightarrow> u32 option \<times> nat \<Rightarrow> u32 \<Rightarrow> u32 option \<times> nat" where
  "rarest_scan_step v peer acc piece =
     (if eligible v peer piece \<and> av_peer_count_for_piece v piece < snd acc
      then (Some piece, av_peer_count_for_piece v piece) else acc)"

definition pop_rarest_piece :: "AvailabilityView \<Rightarrow> (u32 \<Rightarrow> bool) \<Rightarrow> u32 option" where
  "pop_rarest_piece v peer =
     fst (foldl (rarest_scan_step v peer) (None, USIZE_MAX) (u32_range 0 (av_number_of_pieces v)))"

section \<open>Selectors\<close>

definition select_rarest_first :: "AvailabilityView \<Rightarrow> (u32 \<Rightarrow> bool) \<Rightarrow> u32 option" where
  "select_rarest_first v peer = pop_rarest_piece v peer"

definition select_sequential :: "AvailabilityView \<Rightarrow> (u32 \<Rightarrow> bool) \<Rightarrow> u32 option" where
  "select_sequential v peer = find (eligible v peer) (u32_range 0 (av_number_of_pieces v))"

record StreamingPieceSelector =
  cursor_piece :: u32
  lookahead_window :: u32

definition set_cursor_piece :: "StreamingPieceSelector \<Rightarrow> u32 \<Rightarrow> StreamingPieceSelector" where
  "set_cursor_piece s piece = s\<lparr>cursor_piece := piece\<rparr>"

definition select_streaming ::
  "StreamingPieceSelector \<Rightarrow> AvailabilityView \<Rightarrow> (u32 \<Rightarrow> bool) \<Rightarrow> u32 option" where
  "select_streaming s v peer =
     (let cursor = unat (cursor_piece s); total_pieces = av_number_of_pieces v in
      if total_pieces = 0 then None
      else
        let window_end = min (saturating_add U32_MAX cursor (unat (lookahead_window s))) total_pieces in
        case find (eligible v peer) (u32_range cursor window_end) of
          Some piece \<Rightarrow> Some piece
        | None \<Rightarrow>
            (case find (eligible v peer) (u32_range window_end total_pieces) of
               Some piece \<Rightarrow> Some piece
             | None \<Rightarrow> find (eligible v peer) (u32_range 0 (min cursor total_pieces))))"

section \<open>The contract of a selector\<close>

text \<open>Piece counts fit in \<open>u32\<close>, peer counts are below \<open>usize::MAX\<close>.\<close>

definition view_ok :: "AvailabilityView \<Rightarrow> bool" where
  "view_ok v \<longleftrightarrow> av_number_of_pieces v < 2 ^ 32 \<and>
     (\<forall>i < av_number_of_pieces v. av_peer_count_for_piece v (of_nat i) < USIZE_MAX)"

definition candidates :: "AvailabilityView \<Rightarrow> (u32 \<Rightarrow> bool) \<Rightarrow> u32 set" where
  "candidates v peer = {p. unat p < av_number_of_pieces v \<and> eligible v peer p}"

definition view_mark_local :: "AvailabilityView \<Rightarrow> u32 \<Rightarrow> AvailabilityView" where
  "view_mark_local v p = v\<lparr>av_is_piece_local := (av_is_piece_local v)(p := True)\<rparr>"

text \<open>Select a piece, obtain it, and so on.\<close>

fun select_rounds ::
  "(AvailabilityView \<Rightarrow> (u32 \<Rightarrow> bool) \<Rightarrow> u32 option) \<Rightarrow> nat \<Rightarrow> AvailabilityView \<Rightarrow> (u32 \<Rightarrow> bool) \<Rightarrow> u32 list" where
  "select_rounds select 0 v peer = []"
| "select_rounds select (Suc k) v peer =
     (case select v peer of
        None \<Rightarrow> []
      | Some p \<Rightarrow> p # select_rounds select k (view_mark_local v p) peer)"

lemma view_mark_local_simps:
  "view_ok (view_mark_local v p) = view_ok v"
  "candidates (view_mark_local v p) peer = candidates v peer - {p}"
  by (auto simp: view_ok_def view_mark_local_def candidates_def eligible_def split: if_splits)

locale piece_selector =
  fixes select :: "AvailabilityView \<Rightarrow> (u32 \<Rightarrow> bool) \<Rightarrow> u32 option"
  assumes select_sound: "view_ok v \<Longrightarrow> select v peer = Some p \<Longrightarrow> p \<in> candidates v peer"
    and select_complete: "view_ok v \<Longrightarrow> p \<in> candidates v peer \<Longrightarrow> select v peer \<noteq> None"
begin

lemma select_None: "view_ok v \<Longrightarrow> select v peer = None \<longleftrightarrow> candidates v peer = {}"
  using select_sound select_complete by (metis equals0I empty_iff not_None_eq)

lemma rounds_exact:
  "view_ok v \<Longrightarrow> card (candidates v peer) \<le> k \<Longrightarrow>
     distinct (select_rounds select k v peer) \<and> set (select_rounds select k v peer) = candidates v peer"
proof (induction k arbitrary: v)
  case (Suc k)
  show ?case
  proof (cases "select v peer")
    case None
    with select_None [OF Suc.prems(1), of peer] show ?thesis by simp
  next
    case (Some p)
    with Suc.prems select_sound have p: "p \<in> candidates v peer" by simp
    with Suc.prems have "card (candidates (view_mark_local v p) peer) \<le> k"
      by (simp add: view_mark_local_simps)
    from Suc.IH [OF _ this] Suc.prems p Some show ?thesis
      by (auto simp: view_mark_local_simps)
  qed
qed simp

end

section \<open>The selectors meet the contract\<close>

lemma mem_u32_range: "b \<le> 2 ^ 32 \<Longrightarrow> p \<in> set (u32_range a b) \<longleftrightarrow> a \<le> unat p \<and> unat p < b"
proof -
  assume b: "b \<le> 2 ^ 32"
  have "p \<in> set (u32_range a b) \<longleftrightarrow> (\<exists>i. a \<le> i \<and> i < b \<and> p = of_nat i)"
    by (auto simp: u32_range_def)
  also have "\<dots> \<longleftrightarrow> a \<le> unat p \<and> unat p < b"
  proof
    assume "\<exists>i. a \<le> i \<and> i < b \<and> p = of_nat i"
    with b show "a \<le> unat p \<and> unat p < b" by (auto simp: unat_of_nat)
  next
    assume "a \<le> unat p \<and> unat p < b"
    then show "\<exists>i. a \<le> i \<and> i < b \<and> p = of_nat i" by (intro exI [of _ "unat p"]) simp
  qed
  finally show ?thesis .
qed

lemma find_range_Some:
  "b \<le> 2 ^ 32 \<Longrightarrow> find P (u32_range a b) = Some p \<Longrightarrow> P p \<and> a \<le> unat p \<and> unat p < b"
  by (metis find_Some_iff mem_u32_range nth_mem)

lemma find_range_None:
  "b \<le> 2 ^ 32 \<Longrightarrow> find P (u32_range a b) = None \<longleftrightarrow> (\<forall>p. a \<le> unat p \<and> unat p < b \<longrightarrow> \<not> P p)"
  by (auto simp: find_None_iff mem_u32_range)

interpretation sequential: piece_selector select_sequential
proof
  fix v peer p assume ok: "view_ok v"
  then have n: "av_number_of_pieces v \<le> 2 ^ 32" by (simp add: view_ok_def)
  show "select_sequential v peer = Some p \<Longrightarrow> p \<in> candidates v peer"
    using find_range_Some [OF n] by (auto simp: select_sequential_def candidates_def)
  show "p \<in> candidates v peer \<Longrightarrow> select_sequential v peer \<noteq> None"
    using find_range_None [OF n] by (auto simp: select_sequential_def candidates_def)
qed

interpretation streaming: piece_selector "select_streaming s" for s
proof
  fix v peer p assume ok: "view_ok v"
  let ?n = "av_number_of_pieces v" and ?c = "unat (cursor_piece s)"
  let ?e = "min (saturating_add U32_MAX ?c (unat (lookahead_window s))) ?n"
  have n: "?n \<le> 2 ^ 32" "?e \<le> 2 ^ 32" "min ?c ?n \<le> 2 ^ 32" using ok by (auto simp: view_ok_def)
  show "p \<in> candidates v peer" if "select_streaming s v peer = Some p"
    using that find_range_Some [OF n(1), of "eligible v peer" ?e p]
      find_range_Some [OF n(2), of "eligible v peer" ?c p]
      find_range_Some [OF n(3), of "eligible v peer" 0 p]
    by (auto simp: select_streaming_def candidates_def Let_def split: if_splits option.splits)
  show "select_streaming s v peer \<noteq> None" if p: "p \<in> candidates v peer"
  proof
    assume none: "select_streaming s v peer = None"
    from p have pn: "unat p < ?n" "eligible v peer p" by (simp_all add: candidates_def)
    then have "find (eligible v peer) (u32_range ?c ?e) = None"
      "find (eligible v peer) (u32_range ?e ?n) = None"
      "find (eligible v peer) (u32_range 0 (min ?c ?n)) = None"
      using none by (auto simp: select_streaming_def Let_def split: option.splits)
    then have "\<not> (?c \<le> unat p \<and> unat p < ?e)" "\<not> (?e \<le> unat p \<and> unat p < ?n)"
      "\<not> unat p < min ?c ?n"
      using pn n by (auto simp: find_range_None)
    with pn(1) show False by linarith
  qed
qed

text \<open>The scan keeps the first piece with the least count among those seen.\<close>

lemma rarest_scan:
  assumes "\<forall>p \<in> set ps. av_peer_count_for_piece v p < mc"
  shows "case foldl (rarest_scan_step v peer) (None, mc) ps of
      (None, c) \<Rightarrow> c = mc \<and> (\<forall>p \<in> set ps. \<not> eligible v peer p)
    | (Some q, c) \<Rightarrow> q \<in> set ps \<and> eligible v peer q \<and> c = av_peer_count_for_piece v q \<and>
        (\<forall>p \<in> set ps. eligible v peer p \<longrightarrow> c \<le> av_peer_count_for_piece v p)"
  using assms
proof (induction ps rule: rev_induct)
  case (snoc p ps)
  then show ?case
    by (cases "foldl (rarest_scan_step v peer) (None, mc) ps")
      (auto simp: rarest_scan_step_def split: option.splits, meson less_imp_le order_trans)
qed simp

interpretation rarest_first: piece_selector select_rarest_first
proof
  fix v peer p assume ok: "view_ok v"
  let ?ps = "u32_range 0 (av_number_of_pieces v)"
  have n: "av_number_of_pieces v \<le> 2 ^ 32" using ok by (simp add: view_ok_def)
  have "\<forall>p \<in> set ?ps. av_peer_count_for_piece v p < USIZE_MAX"
    using ok by (auto simp: view_ok_def u32_range_def)
  note scan = rarest_scan [OF this, of peer]
  show "select_rarest_first v peer = Some p \<Longrightarrow> p \<in> candidates v peer"
    "p \<in> candidates v peer \<Longrightarrow> select_rarest_first v peer \<noteq> None"
    using scan mem_u32_range [OF n]
    by (auto simp: select_rarest_first_def pop_rarest_piece_def candidates_def split: prod.splits option.splits)
qed

lemma pm_new_peer_count: "pm_get_piece_peer_count (pm_new n len h) p = 0"
  by (simp add: pm_get_piece_peer_count_def pm_new_def Let_def)

section \<open>Properties\<close>



text \<open>
  \<open>StreamingPieceSelector::select_piece\<close>: When a wanted piece the peer has lies in the lookahead
  window, the first such piece from the cursor on is chosen, before any piece outside of it.
\<close>

theorem streaming_prefers_window:
  assumes "view_ok v" and "select_streaming s v peer = Some p"
    and "\<exists>q \<in> candidates v peer. unat (cursor_piece s) \<le> unat q \<and>
      unat q < unat (cursor_piece s) + unat (lookahead_window s) \<and> unat q < U32_MAX"
  shows "unat (cursor_piece s) \<le> unat p \<and>
    unat p < unat (cursor_piece s) + unat (lookahead_window s) \<and>
    (\<forall>q \<in> candidates v peer. unat (cursor_piece s) \<le> unat q \<longrightarrow> unat p \<le> unat q)"
proof -
  let ?n = "av_number_of_pieces v" and ?c = "unat (cursor_piece s)"
  let ?e = "min (saturating_add U32_MAX ?c (unat (lookahead_window s))) ?n"
  have n: "?e \<le> 2 ^ 32" using assms(1) by (auto simp: view_ok_def)
  obtain q where q: "q \<in> candidates v peer" "?c \<le> unat q"
      "unat q < ?c + unat (lookahead_window s)" "unat q < U32_MAX"
    using assms(3) by blast
  then have "unat q < ?e" by (simp add: candidates_def saturating_add_def)
  with q have "find (eligible v peer) (u32_range ?c ?e) \<noteq> None"
    using find_range_None [OF n] by (auto simp: candidates_def)
  then obtain p' where f: "find (eligible v peer) (u32_range ?c ?e) = Some p'" by blast
  then have "p' = p" using assms(2) by (simp add: select_streaming_def Let_def split: if_splits)
  have len: "length (u32_range ?c ?e) = ?e - ?c" by (simp add: u32_range_def)
  have nth: "u32_range ?c ?e ! j = of_nat (?c + j)" if "j < ?e - ?c" for j
  proof -
    have "?c + j < ?e" using that by linarith
    then show ?thesis using that by (simp add: u32_range_def)
  qed
  from f \<open>p' = p\<close> obtain i where i: "i < ?e - ?c" "p = of_nat (?c + i)"
      "\<forall>j < i. \<not> eligible v peer (u32_range ?c ?e ! j)"
    unfolding find_Some_iff len using nth by metis
  have i: "i < ?e - ?c" "p = of_nat (?c + i)" "\<forall>j < i. \<not> eligible v peer (of_nat (?c + j))"
    using i nth by simp_all
  have "?c + i < 2 ^ 32" using i(1) n by linarith
  then have up: "unat p = ?c + i" unfolding i(2) by (simp add: unat_of_nat del: of_nat_add)
  have least: "unat p \<le> unat r" if r: "r \<in> candidates v peer" "?c \<le> unat r" for r
  proof (rule ccontr)
    assume "\<not> unat p \<le> unat r"
    then have "unat r - ?c < i" "of_nat (?c + (unat r - ?c)) = r"
      using up r(2) by simp_all
    with i(3) r(1) show False by (metis (mono_tags, lifting) candidates_def mem_Collect_eq)
  qed
  with up i show ?thesis by (auto simp: saturating_add_def)
qed

theorem streaming_prefers_window_witness:
  "unat (1 :: u32) \<le> unat (1 :: u32) \<and> select_streaming \<lparr>cursor_piece = 1, lookahead_window = 2\<rparr>
     (pm_view (pm_new 3 16384 [])) (\<lambda>_. True) = Some 1"
proof -
  let ?v = "pm_view (pm_new 3 16384 [])" and ?s = "\<lparr>cursor_piece = 1, lookahead_window = 2\<rparr> :: StreamingPieceSelector"
  have sel: "select_streaming ?s ?v (\<lambda>_. True) = Some 1"
    by (simp add: select_streaming_def pm_view_def saturating_add_def U32_MAX_def u32_range_def
        upt_rec eligible_def)
  have "view_ok ?v"
    by (simp add: view_ok_def pm_view_def pm_new_peer_count USIZE_MAX_def U64_MAX_def)
  moreover have "1 \<in> candidates ?v (\<lambda>_. True)"
    by (simp add: candidates_def eligible_def pm_view_def)
  ultimately show ?thesis
    using streaming_prefers_window [of ?v ?s "\<lambda>_. True" 1] sel by (auto simp: U32_MAX_def)
qed

end
