(* ===== verification/Merkle.thy ===== *)
theory Merkle
  imports Util
begin

text \<open>
  SHA-256 Merkle trees of BitTorrent v2 files (\<open>library/src/core/merkle.rs\<close>): construction,
  audit paths, piece layers, and the hash request and response payloads. SHA-256 is a parameter
  \<open>H\<close> of every definition that uses it; what the theorems need of it is that its results have
  32 bytes and, for soundness, that it has no collision among the inputs that are actually hashed.
\<close>

section \<open>Helpers of the standard library\<close>

text \<open>\<open>usize::next_power_of_two\<close>\<close>

function next_exponent :: "nat \<Rightarrow> nat \<Rightarrow> nat" where
  "next_exponent n k = (if n \<le> 2 ^ k then k else next_exponent n (k + 1))"
  by pat_completeness auto
termination next_exponent
proof (relation "measure (\<lambda>(n, k). n - k)", goal_cases)
  case (2 n k)
  moreover have "k < 2 ^ k" by (rule less_exp)
  ultimately have "k < n" by linarith
  then show ?case by simp
qed simp

declare next_exponent.simps [simp del]

definition next_power_of_two :: "nat \<Rightarrow> nat" where
  "next_power_of_two n = 2 ^ next_exponent n 0"

text \<open>\<open>usize::trailing_zeros\<close>, for a nonzero argument\<close>

fun trailing_zeros :: "nat \<Rightarrow> nat" where
  "trailing_zeros n = (if n = 0 \<or> odd n then 0 else Suc (trailing_zeros (n div 2)))"

declare trailing_zeros.simps [simp del]

text \<open>\<open>slice::chunks\<close>, for a positive size\<close>

function chunks :: "nat \<Rightarrow> 'a list \<Rightarrow> 'a list list" where
  "chunks n xs = (if n = 0 \<or> xs = [] then [] else take n xs # chunks n (drop n xs))"
  by pat_completeness auto
termination chunks
  by (relation "measure (\<lambda>(n, xs). length xs)") auto

declare chunks.simps [simp del]

text \<open>\<open>chunks_exact\<close> leaves out an incomplete last chunk.\<close>

definition chunks_exact :: "nat \<Rightarrow> 'a list \<Rightarrow> 'a list list" where
  "chunks_exact n xs = chunks n (take (length xs div n * n) xs)"

section \<open>Trees\<close>

definition HASH_SIZE :: nat where "HASH_SIZE = 32"

definition zero_hash :: bytes where "zero_hash = replicate 32 0"

record MerkleProof =
  block_index :: nat
  mp_path :: "bytes list"

record MerkleTree =
  mt_file_length :: nat
  mt_num_blocks :: nat
  mt_layers :: "bytes list list"
  mt_root :: bytes

text \<open>The loop over the siblings in \<open>MerkleProof::verify\<close> and in \<open>verify_hashes_response\<close>.\<close>

fun climb :: "(bytes \<Rightarrow> bytes) \<Rightarrow> bytes \<Rightarrow> nat \<Rightarrow> bytes list \<Rightarrow> bytes" where
  "climb H cur idx [] = cur"
| "climb H cur idx (sibling # path) =
    climb H (if even idx then H (cur @ sibling) else H (sibling @ cur)) (idx div 2) path"

definition proof_verify :: "(bytes \<Rightarrow> bytes) \<Rightarrow> MerkleProof \<Rightarrow> bytes \<Rightarrow> bytes \<Rightarrow> bool" where
  "proof_verify H p block_data expected_root \<longleftrightarrow>
    climb H (H block_data) (block_index p) (mp_path p) = expected_root"

text \<open>One layer up: the parents of the complete pairs.\<close>

fun pair_up :: "(bytes \<Rightarrow> bytes) \<Rightarrow> bytes list \<Rightarrow> bytes list" where
  "pair_up H (a # b # layer) = H (a @ b) # pair_up H layer"
| "pair_up H _ = []"

lemma length_pair_up [simp]: "length (pair_up H layer) = length layer div 2"
  by (induction H layer rule: pair_up.induct) auto

lemma nth_pair_up:
  "i < length layer div 2 \<Longrightarrow> pair_up H layer ! i = H (layer ! (2 * i) @ layer ! (2 * i + 1))"
proof (induction H layer arbitrary: i rule: pair_up.induct)
  case (1 H a b layer)
  then show ?case by (cases i) auto
qed auto

function build_layers :: "(bytes \<Rightarrow> bytes) \<Rightarrow> bytes list \<Rightarrow> bytes list list" where
  "build_layers H layer = (if length layer \<le> 1 then [layer] else layer # build_layers H (pair_up H layer))"
  by pat_completeness auto
termination build_layers
  by (relation "measure (\<lambda>(H, layer). length layer)") auto

declare build_layers.simps [simp del]

definition pad_layer :: "bytes list \<Rightarrow> bytes list" where
  "pad_layer leaves = leaves @ replicate (next_power_of_two (length leaves) - length leaves) zero_hash"

definition layers_root :: "bytes list list \<Rightarrow> bytes" where
  "layers_root layers = (if layers = [] \<or> last layers = [] then zero_hash else hd (last layers))"

definition from_leaf_hashes :: "(bytes \<Rightarrow> bytes) \<Rightarrow> bytes list \<Rightarrow> nat \<Rightarrow> MerkleTree" where
  "from_leaf_hashes H leaves file_length =
    (if length leaves = 0
     then \<lparr>mt_file_length = file_length, mt_num_blocks = 0, mt_layers = [], mt_root = zero_hash\<rparr>
     else if length leaves = 1
     then \<lparr>mt_file_length = file_length, mt_num_blocks = 1, mt_layers = [leaves], mt_root = leaves ! 0\<rparr>
     else let layers = build_layers H (pad_layer leaves) in
       \<lparr>mt_file_length = file_length, mt_num_blocks = length leaves, mt_layers = layers,
        mt_root = layers_root layers\<rparr>)"

definition from_bytes :: "(bytes \<Rightarrow> bytes) \<Rightarrow> bytes \<Rightarrow> MerkleTree" where
  "from_bytes H data =
    (if data = []
     then \<lparr>mt_file_length = 0, mt_num_blocks = 0, mt_layers = [], mt_root = zero_hash\<rparr>
     else from_leaf_hashes H (map H (chunks BLOCK_SIZE data)) (length data))"

definition root_hex :: "MerkleTree \<Rightarrow> string" where
  "root_hex t = to_hex (mt_root t)"

definition block_hash :: "MerkleTree \<Rightarrow> nat \<Rightarrow> bytes option" where
  "block_hash t i = (if i < mt_num_blocks t \<and> mt_layers t \<noteq> [] then Some (mt_layers t ! 0 ! i) else None)"

fun proof_loop :: "nat \<Rightarrow> bytes list list \<Rightarrow> bytes list" where
  "proof_loop idx [] = []"
| "proof_loop idx (layer # layers) =
    layer ! (if even idx then idx + 1 else idx - 1) # proof_loop (idx div 2) layers"

definition merkle_proof :: "MerkleTree \<Rightarrow> nat \<Rightarrow> MerkleProof option" where
  "merkle_proof t i =
    (if i \<ge> mt_num_blocks t \<or> mt_layers t = [] then None
     else if length (mt_layers t) = 1 then Some \<lparr>block_index = i, mp_path = []\<rparr>
     else Some \<lparr>block_index = i, mp_path = proof_loop i (butlast (mt_layers t))\<rparr>)"

definition verify_block :: "(bytes \<Rightarrow> bytes) \<Rightarrow> MerkleTree \<Rightarrow> nat \<Rightarrow> bytes \<Rightarrow> bool" where
  "verify_block H t i block_data = (case block_hash t i of
     Some expected_hash \<Rightarrow> H block_data = expected_hash | None \<Rightarrow> False)"

definition piece_layer :: "MerkleTree \<Rightarrow> nat \<Rightarrow> bytes list result" where
  "piece_layer t piece_length =
    (if piece_length < BLOCK_SIZE \<or> piece_length AND (piece_length - 1) \<noteq> 0
     then Inl (Parse ''Piece length must be a power of two and at least 16 KiB'')
     else let layer_height = trailing_zeros (piece_length div BLOCK_SIZE) in
       if layer_height \<ge> length (mt_layers t) then Inr [mt_root t]
       else let layer = mt_layers t ! layer_height;
                num_pieces = (mt_file_length t + piece_length - 1) div piece_length
            in Inr (take (min num_pieces (length layer)) layer))"

definition compute_root_from_piece_hashes :: "(bytes \<Rightarrow> bytes) \<Rightarrow> bytes list \<Rightarrow> bytes" where
  "compute_root_from_piece_hashes H piece_hashes =
    (if piece_hashes = [] then zero_hash
     else if length piece_hashes = 1 then piece_hashes ! 0
     else last (build_layers H (pad_layer piece_hashes)) ! 0)"

section \<open>Hash requests and responses\<close>

text \<open>The uncle loop; \<open>n\<close> is the number of uncles still allowed.\<close>

fun uncles :: "bytes list list \<Rightarrow> nat \<Rightarrow> nat \<Rightarrow> bytes list" where
  "uncles (layer # layer' # layers) j (Suc n) =
    (let uncle_idx = j XOR 1 in (if uncle_idx < length layer then layer ! uncle_idx else zero_hash))
      # uncles (layer' # layers) (j div 2) n"
| "uncles _ j n = []"

definition generate_hashes_response_from_layers ::
    "bytes list list \<Rightarrow> u32 \<Rightarrow> u32 \<Rightarrow> u32 \<Rightarrow> u32 \<Rightarrow> bytes option" where
  "generate_hashes_response_from_layers layers base_layer index len proof_layers =
    (if len < 2 \<or> len AND (len - 1) \<noteq> 0 then None
     else if index mod len \<noteq> 0 then None
     else let base = unat base_layer; idx = unat index; n = unat len in
       if base \<ge> length layers then None
       else if idx + n > length (layers ! base) then None
       else let k = trailing_zeros n;
                omitted = k - 1;
                max_uncles = unat proof_layers - omitted
            in Some (concat (bslice (layers ! base) idx (idx + n))
                 @ concat (uncles (drop (base + k) layers) (idx div n) max_uncles)))"

definition generate_hashes_response :: "MerkleTree \<Rightarrow> u32 \<Rightarrow> u32 \<Rightarrow> u32 \<Rightarrow> u32 \<Rightarrow> bytes option" where
  "generate_hashes_response t = generate_hashes_response_from_layers (mt_layers t)"

text \<open>\<open>{:02x?}\<close> of a byte array\<close>

definition debug_hex :: "bytes \<Rightarrow> string" where
  "debug_hex bs = ''['' @ concat (map (\<lambda>i. (if i = 0 then [] else '', '') @ to_hex [bs ! i]) [0..<length bs]) @ '']''"

definition verify_hashes_response ::
    "(bytes \<Rightarrow> bytes) \<Rightarrow> bytes \<Rightarrow> u32 \<Rightarrow> u32 \<Rightarrow> bytes \<Rightarrow> bytes list result" where
  "verify_hashes_response H expected_root index len hashes_data =
    (if len < 2 \<or> len AND (len - 1) \<noteq> 0
     then Inl (Parse ''Length must be a power of two and >= 2'')
     else if index mod len \<noteq> 0 then Inl (Parse ''Index must be a multiple of length'')
     else let n = unat len in
       if length hashes_data < n * 32 \<or> length hashes_data mod 32 \<noteq> 0
       then Inl (Parse ''Invalid hashes data byte length'')
       else let base_hashes = chunks_exact 32 (take (n * 32) hashes_data);
                uncle_hashes = chunks_exact 32 (drop (n * 32) hashes_data);
                sub_root = climb H (last (build_layers H base_hashes) ! 0) (unat (index div len)) uncle_hashes
            in if sub_root \<noteq> expected_root
               then Inl (Parse (''BEP 52 hashes verification failed: root mismatch (expected ''
                 @ debug_hex expected_root @ '', got '' @ debug_hex sub_root @ '')''))
               else Inr base_hashes)"

section \<open>Facts on the helpers\<close>

lemma next_exponent_ge: "n \<le> 2 ^ next_exponent n k"
  by (induction n k rule: next_exponent.induct) (subst next_exponent.simps, auto)

lemma next_exponent_le: "n \<le> 2 ^ m \<Longrightarrow> k \<le> m \<Longrightarrow> next_exponent n k \<le> m"
proof (induction n k rule: next_exponent.induct)
  case (1 n k)
  show ?case
  proof (cases "n \<le> 2 ^ k")
    case True
    then show ?thesis using 1 by (subst next_exponent.simps) simp
  next
    case False
    then have "k \<noteq> m" using "1.prems"(1) by auto
    then show ?thesis using 1 False by (subst next_exponent.simps) simp
  qed
qed

lemma next_power_of_two_ge: "n \<le> next_power_of_two n"
  by (simp add: next_power_of_two_def next_exponent_ge)

lemma trailing_zeros_power [simp]: "trailing_zeros (2 ^ k) = k"
  by (induction k) (simp_all add: trailing_zeros.simps)

lemma chunks_append: "length x = n \<Longrightarrow> 0 < n \<Longrightarrow> chunks n (x @ xs) = x # chunks n xs"
  by (subst chunks.simps) auto

lemma chunks_concat:
  "\<forall>x\<in>set xs. length x = n \<Longrightarrow> 0 < n \<Longrightarrow> chunks n (concat xs) = xs"
proof (induction xs)
  case Nil
  then show ?case by (simp add: chunks.simps)
next
  case (Cons x xs)
  then show ?case by (simp add: chunks_append)
qed

lemma length_concat_const: "\<forall>x\<in>set xs. length x = n \<Longrightarrow> length (concat xs) = length xs * n"
  by (induction xs) auto

lemma chunks_exact_concat:
  "\<forall>x\<in>set xs. length x = n \<Longrightarrow> 0 < n \<Longrightarrow> chunks_exact n (concat xs) = xs"
  using length_concat_const [of xs n] by (simp add: chunks_exact_def chunks_concat del: length_concat)

lemma chunks_length:
  "0 < n \<Longrightarrow> n dvd length xs \<Longrightarrow> (\<forall>x\<in>set (chunks n xs). length x = n) \<and> concat (chunks n xs) = xs
    \<and> length (chunks n xs) = length xs div n"
proof (induction n xs rule: chunks.induct)
  case (1 n xs)
  show ?case
  proof (cases "xs = []")
    case False
    have le: "n \<le> length xs" using "1.prems"(2) False by (simp add: dvd_imp_le)
    have dvd: "n dvd length (drop n xs)" using "1.prems"(2) le by simp
    have ne: "\<not> (n = 0 \<or> xs = [])" using "1.prems"(1) False by simp
    note IH = "1.IH" [OF ne "1.prems"(1) dvd]
    have eq: "chunks n xs = take n xs # chunks n (drop n xs)" using ne by (subst chunks.simps) simp
    have div: "length xs div n = Suc (length (drop n xs) div n)"
      using le "1.prems"(1) by (simp add: le_div_geq)
    have "length (take n xs) = n" using le by simp
    then have "\<forall>x\<in>set (chunks n xs). length x = n" unfolding eq using IH by auto
    moreover have "concat (chunks n xs) = take n xs @ drop n xs" unfolding eq using IH by (simp only: concat.simps)
    moreover have "length (chunks n xs) = length xs div n" unfolding eq div using IH by (simp only: list.size)
    ultimately show ?thesis by simp
  qed (simp add: chunks.simps)
qed

text \<open>A natural with no bit in common with its predecessor is a power of two.\<close>

lemma nat_and_pred_power: "0 < n \<Longrightarrow> n AND (n - 1) = 0 \<Longrightarrow> \<exists>k. n = (2::nat) ^ k"
proof (induction n rule: less_induct)
  case (less n)
  show ?case
  proof (cases "even n")
    case True
    then obtain m where m: "n = 2 * m" by blast
    then have "0 < m" using less.prems by simp
    then have "n - 1 = Suc (2 * (m - 1))" using m by simp
    then have "n AND (n - 1) = 2 * (m AND (m - 1))"
      by (simp add: m and_nat_rec [of "2 * m"] )
    then have "m AND (m - 1) = 0" using less.prems(2) by simp
    then obtain k where "m = 2 ^ k" using less.IH [of m] \<open>0 < m\<close> m by auto
    then show ?thesis using m by (intro exI [of _ "Suc k"]) simp
  next
    case False
    then obtain m where m: "n = Suc (2 * m)" by (metis oddE Suc_eq_plus1)
    then have "n AND (n - 1) = 2 * m" by (simp add: and_nat_rec [of "Suc (2 * m)"])
    then show ?thesis using less.prems(2) m by (intro exI [of _ 0]) simp
  qed
qed

lemma word_and_pred_power:
  fixes w :: u32
  assumes "\<not> w < 2" and "w AND (w - 1) = 0"
  shows "\<exists>k>0. unat w = 2 ^ k"
proof -
  have w: "2 \<le> unat w" using assms(1) by (simp add: word_less_nat_alt not_less)
  then have "w \<noteq> 0" by auto
  then have "unat (w - 1) = unat w - 1" by (metis unat_minus_one)
  moreover have "unat (w AND (w - 1)) = unat w AND unat (w - 1)" by (simp add: unsigned_and_eq)
  ultimately obtain k where k: "unat w = 2 ^ k"
    using nat_and_pred_power [of "unat w"] w assms(2) by auto
  then have "k \<noteq> 0" using w by (cases k) auto
  then show ?thesis using k by blast
qed

section \<open>The reference definition\<close>

text \<open>
  \<open>tree_node H leaves j i\<close> is the \<open>i\<close>-th node at height \<open>j\<close>: a leaf, or the hash of its two
  children.
\<close>

fun tree_node :: "(bytes \<Rightarrow> bytes) \<Rightarrow> bytes list \<Rightarrow> nat \<Rightarrow> nat \<Rightarrow> bytes" where
  "tree_node H leaves 0 i = leaves ! i"
| "tree_node H leaves (Suc j) i = H (tree_node H leaves j (2 * i) @ tree_node H leaves j (2 * i + 1))"

abbreviation layer_at :: "(bytes \<Rightarrow> bytes) \<Rightarrow> nat \<Rightarrow> bytes list \<Rightarrow> bytes list" where
  "layer_at H j \<equiv> (pair_up H ^^ j)"

lemma length_layer_at: "length (layer_at H j leaves) = length leaves div 2 ^ j"
  by (induction j) (simp_all add: div_mult2_eq [symmetric] mult.commute)

lemma nth_layer_at: "i < length leaves div 2 ^ j \<Longrightarrow> layer_at H j leaves ! i = tree_node H leaves j i"
proof (induction j arbitrary: i)
  case (Suc j)
  have len: "length (layer_at H j leaves) div 2 = length leaves div 2 ^ Suc j"
    by (simp add: length_layer_at div_mult2_eq [symmetric] mult.commute)
  then have "2 * i + 1 < length (layer_at H j leaves)" using Suc.prems by linarith
  then have "2 * i + 1 < length leaves div 2 ^ j" by (simp add: length_layer_at)
  then show ?case
    using Suc.IH [of "2 * i"] Suc.IH [of "2 * i + 1"] nth_pair_up [of i "layer_at H j leaves" H] len Suc.prems
    by simp
qed simp

lemma build_layers_power:
  assumes "length leaves = 2 ^ k"
  shows "build_layers H leaves = map (\<lambda>j. layer_at H j leaves) [0..<Suc k]"
  using assms
proof (induction k arbitrary: leaves)
  case 0
  then show ?case by (subst build_layers.simps) simp
next
  case (Suc k)
  have "(1::nat) \<le> 2 ^ k" by simp
  then have "\<not> length leaves \<le> 1" unfolding Suc.prems power_Suc by linarith
  then have "build_layers H leaves = leaves # build_layers H (pair_up H leaves)"
    by (subst build_layers.simps) simp
  also have "build_layers H (pair_up H leaves) = map (\<lambda>j. layer_at H j (pair_up H leaves)) [0..<Suc k]"
    by (rule Suc.IH) (simp add: Suc.prems)
  also have "leaves # \<dots> = map (\<lambda>j. layer_at H j leaves) (0 # map Suc [0..<Suc k])"
    by (simp add: funpow_swap1 del: upt_Suc)
  also have "0 # map Suc [0..<Suc k] = [0..<Suc (Suc k)]"
    by (simp add: map_Suc_upt upt_conv_Cons del: upt_Suc)
  finally show ?case .
qed

lemma length_pad_layer: "length (pad_layer leaves) = next_power_of_two (length leaves)"
  by (simp add: pad_layer_def next_power_of_two_ge)

text \<open>The height of the tree over \<open>n\<close> leaves.\<close>

abbreviation tree_height :: "nat \<Rightarrow> nat" where
  "tree_height n \<equiv> next_exponent n 0"

lemma from_leaf_hashes_layers:
  assumes "leaves \<noteq> []"
  shows "mt_layers (from_leaf_hashes H leaves n) =
      map (\<lambda>j. layer_at H j (pad_layer leaves)) [0..<Suc (tree_height (length leaves))]"
    and "mt_root (from_leaf_hashes H leaves n) = tree_node H (pad_layer leaves) (tree_height (length leaves)) 0"
    and "mt_num_blocks (from_leaf_hashes H leaves n) = length leaves"
proof -
  let ?k = "tree_height (length leaves)"
  have len: "length (pad_layer leaves) = 2 ^ ?k" by (simp add: length_pad_layer next_power_of_two_def)
  show "mt_num_blocks (from_leaf_hashes H leaves n) = length leaves"
    using assms by (simp add: from_leaf_hashes_def Let_def)
  have one: "?k = 0 \<and> pad_layer leaves = leaves" if "length leaves = 1"
    using that by (simp add: pad_layer_def next_power_of_two_def next_exponent.simps)
  show layers: "mt_layers (from_leaf_hashes H leaves n) = map (\<lambda>j. layer_at H j (pad_layer leaves)) [0..<Suc ?k]"
    using assms one build_layers_power [OF len] by (auto simp: from_leaf_hashes_def Let_def)
  have "layers_root (map (\<lambda>j. layer_at H j (pad_layer leaves)) [0..<Suc ?k]) = tree_node H (pad_layer leaves) ?k 0"
    using nth_layer_at [where i = 0 and j = ?k and leaves = "pad_layer leaves" and H = H] length_layer_at [where H = H and j = ?k and leaves = "pad_layer leaves"] len
    by (cases "layer_at H ?k (pad_layer leaves)") (auto simp: layers_root_def)
  then show "mt_root (from_leaf_hashes H leaves n) = tree_node H (pad_layer leaves) ?k 0"
    using assms one build_layers_power [OF len] by (auto simp: from_leaf_hashes_def Let_def)
qed

section \<open>Audit paths\<close>

definition sibling_of :: "nat \<Rightarrow> nat" where
  "sibling_of i = (if even i then i + 1 else i - 1)"

lemma sibling_less: "i < 2 ^ Suc k \<Longrightarrow> sibling_of i < 2 ^ Suc k"
  by (auto simp: sibling_of_def elim!: evenE oddE)

lemma xor_one_sibling: "i XOR 1 = sibling_of i"
  by (simp add: sibling_of_def xor_Suc_0_eq)

text \<open>The hash of a node and its sibling, in the order of their positions, is their parent.\<close>

lemma parent_node:
  "tree_node H leaves (Suc j) (i div 2) =
    (if even i then H (tree_node H leaves j i @ tree_node H leaves j (sibling_of i))
     else H (tree_node H leaves j (sibling_of i) @ tree_node H leaves j i))"
  by (auto simp: sibling_of_def elim!: evenE oddE)

definition audit_path :: "(bytes \<Rightarrow> bytes) \<Rightarrow> bytes list \<Rightarrow> nat \<Rightarrow> nat \<Rightarrow> nat \<Rightarrow> bytes list" where
  "audit_path H leaves j i n = map (\<lambda>d. tree_node H leaves (j + d) (sibling_of (i div 2 ^ d))) [0..<n]"

lemma audit_path_Suc:
  "audit_path H leaves j i (Suc n) =
    tree_node H leaves j (sibling_of i) # audit_path H leaves (Suc j) (i div 2) n"
proof -
  have "[0..<Suc n] = 0 # map Suc [0..<n]" by (simp add: map_Suc_upt upt_conv_Cons del: upt_Suc)
  then show ?thesis by (simp add: audit_path_def div_mult2_eq del: upt_Suc)
qed

lemma climb_audit_path:
  "climb H (tree_node H leaves j i) i (audit_path H leaves j i n) = tree_node H leaves (j + n) (i div 2 ^ n)"
proof (induction n arbitrary: j i)
  case 0
  then show ?case by (simp add: audit_path_def)
next
  case (Suc n)
  have "climb H (tree_node H leaves j i) i (audit_path H leaves j i (Suc n)) =
      climb H (tree_node H leaves (Suc j) (i div 2)) (i div 2) (audit_path H leaves (Suc j) (i div 2) n)"
    unfolding audit_path_Suc by (simp add: parent_node del: tree_node.simps)
  also have "\<dots> = tree_node H leaves (Suc j + n) (i div 2 div 2 ^ n)" by (rule Suc.IH)
  finally show ?case by (simp add: div_mult2_eq)
qed

text \<open>The inputs hashed while climbing, and those hashed in building the tree.\<close>

fun climb_inputs :: "(bytes \<Rightarrow> bytes) \<Rightarrow> bytes \<Rightarrow> nat \<Rightarrow> bytes list \<Rightarrow> bytes list" where
  "climb_inputs H cur idx [] = []"
| "climb_inputs H cur idx (s # path) =
    (let x = (if even idx then cur @ s else s @ cur) in x # climb_inputs H (H x) (idx div 2) path)"

definition tree_inputs :: "(bytes \<Rightarrow> bytes) \<Rightarrow> bytes list \<Rightarrow> nat \<Rightarrow> bytes set" where
  "tree_inputs H leaves k = (\<Union>j<k. \<Union>i<2 ^ (k - Suc j).
     {tree_node H leaves j (2 * i) @ tree_node H leaves j (2 * i + 1)})"

lemma tree_inputsI:
  assumes "j < k" and "i < 2 ^ (k - Suc j)"
  shows "tree_node H leaves j (2 * i) @ tree_node H leaves j (2 * i + 1) \<in> tree_inputs H leaves k"
  unfolding tree_inputs_def by (rule UN_I [of j], use assms in simp, rule UN_I [of i]) (use assms in simp_all)

lemma tree_node_length:
  assumes "\<And>x. length (H x) = 32" and "\<forall>l\<in>set leaves. length l = 32" and "i < length leaves div 2 ^ j"
  shows "length (tree_node H leaves j i) = 32"
  using assms by (cases j) auto

lemma climb_sound:
  assumes H: "\<And>x. length (H x) = 32" and leaves: "length leaves = 2 ^ k" "\<forall>l\<in>set leaves. length l = 32"
    and cur: "length cur = 32" "\<forall>s\<in>set path. length s = 32"
    and inj: "inj_on H (set (climb_inputs H cur i path) \<union> tree_inputs H leaves k)"
    and top: "j + length path = k" "i < 2 ^ length path"
    and ok: "climb H cur i path = tree_node H leaves k 0"
  shows "cur = tree_node H leaves j i \<and> path = audit_path H leaves j i (length path)"
  using cur inj top ok
proof (induction path arbitrary: cur i j)
  case Nil
  then show ?case by (simp add: audit_path_def)
next
  case (Cons s path)
  define x where "x = (if even i then cur @ s else s @ cur)"
  have i2: "i div 2 < 2 ^ length path" using Cons.prems(5) by auto
  have jk: "j < k" "k - Suc j = length path" using Cons.prems(4) by auto
  have inputs: "climb_inputs H cur i (s # path) = x # climb_inputs H (H x) (i div 2) path"
    by (simp add: x_def Let_def)
  note inj = Cons.prems(3) [unfolded inputs]
  have "H x = tree_node H leaves (Suc j) (i div 2) \<and> path = audit_path H leaves (Suc j) (i div 2) (length path)"
  proof (rule Cons.IH)
    show "climb H (H x) (i div 2) path = tree_node H leaves k 0"
      using Cons.prems(6) by (simp add: x_def if_distrib [of H])
    show "inj_on H (set (climb_inputs H (H x) (i div 2) path) \<union> tree_inputs H leaves k)"
      by (rule inj_on_subset [OF inj]) auto
    show "length (H x) = 32" by (rule H)
    show "\<forall>s\<in>set path. length s = 32" using Cons.prems(2) by simp
    show "Suc j + length path = k" using Cons.prems(4) by simp
  qed (rule i2)
  then have Hx: "H x = H (tree_node H leaves j (2 * (i div 2)) @ tree_node H leaves j (2 * (i div 2) + 1))"
    and path: "path = audit_path H leaves (Suc j) (i div 2) (length path)" by auto
  have "tree_node H leaves j (2 * (i div 2)) @ tree_node H leaves j (2 * (i div 2) + 1) \<in> tree_inputs H leaves k"
    using jk i2 by (intro tree_inputsI) simp_all
  then have x: "x = tree_node H leaves j (2 * (i div 2)) @ tree_node H leaves j (2 * (i div 2) + 1)"
    by (intro inj_onD [OF inj Hx]) auto
  have "2 ^ k div 2 ^ j = (2::nat) ^ Suc (length path)"
    using Cons.prems(4) by (auto simp: power_add)
  then have "2 * (i div 2) < length leaves div 2 ^ j" "2 * (i div 2) + 1 < length leaves div 2 ^ j"
    using i2 leaves(1) by auto
  then have len: "length (tree_node H leaves j (2 * (i div 2))) = 32" "length (tree_node H leaves j (2 * (i div 2) + 1)) = 32"
    using tree_node_length [OF H leaves(2)] by auto
  have "cur = tree_node H leaves j i \<and> s = tree_node H leaves j (sibling_of i)"
  proof (cases "even i")
    case True
    then have "2 * (i div 2) = i" by simp
    then show ?thesis using True x len Cons.prems(1) by (simp add: x_def sibling_of_def)
  next
    case False
    then have "2 * (i div 2) + 1 = i" by simp
    moreover from this have "2 * (i div 2) = i - 1" by simp
    ultimately show ?thesis using False x len Cons.prems(2) by (simp add: x_def sibling_of_def)
  qed
  then show ?case using path audit_path_Suc [of H leaves j i "length path"] by simp
qed

lemma proof_loop_layers:
  assumes "length leaves = 2 ^ k" and "i < 2 ^ k div 2 ^ j" and "j + n = k"
  shows "proof_loop i (map (\<lambda>j. layer_at H j leaves) [j..<k]) = audit_path H leaves j i n"
  using assms(2,3)
proof (induction n arbitrary: i j)
  case 0
  then show ?case by (simp add: audit_path_def)
next
  case (Suc n)
  then have jk: "j < k" by simp
  have pow: "2 ^ k div 2 ^ j = (2::nat) ^ Suc n" using Suc.prems(2) by (auto simp: power_add)
  then have i: "i < 2 ^ Suc n" using Suc.prems(1) by simp
  have "i div 2 < 2 ^ k div 2 ^ Suc j"
    using i Suc.prems(2) by (auto simp: power_add)
  then have IH: "proof_loop (i div 2) (map (\<lambda>j. layer_at H j leaves) [Suc j..<k]) = audit_path H leaves (Suc j) (i div 2) n"
    using Suc.prems(2) by (intro Suc.IH) simp_all
  have "layer_at H j leaves ! sibling_of i = tree_node H leaves j (sibling_of i)"
    using sibling_less [OF i] by (intro nth_layer_at) (simp add: assms(1) pow)
  then show ?case
    using IH jk by (simp add: upt_conv_Cons audit_path_Suc sibling_of_def [symmetric])
qed

lemma merkle_proof_path:
  assumes "leaves \<noteq> []" and "i < length leaves"
  shows "merkle_proof (from_leaf_hashes H leaves n) i =
    Some \<lparr>block_index = i, mp_path = audit_path H (pad_layer leaves) 0 i (tree_height (length leaves))\<rparr>"
proof -
  let ?k = "tree_height (length leaves)"
  note tree = from_leaf_hashes_layers [OF assms(1), of H n]
  have len: "length (pad_layer leaves) = 2 ^ ?k" by (simp add: length_pad_layer next_power_of_two_def)
  have "i < 2 ^ ?k" using assms(2) next_exponent_ge [of "length leaves" 0] by linarith
  then have "proof_loop i (map (\<lambda>j. layer_at H j (pad_layer leaves)) [0..<?k]) = audit_path H (pad_layer leaves) 0 i ?k"
    using len by (intro proof_loop_layers) simp_all
  then show ?thesis
    using assms by (cases "?k = 0") (auto simp: merkle_proof_def tree audit_path_def butlast_append)
qed

lemma pad_layer_nth: "i < length leaves \<Longrightarrow> pad_layer leaves ! i = leaves ! i"
  by (simp add: pad_layer_def nth_append)

lemma pad_layer_lengths: "\<forall>l\<in>set leaves. length l = 32 \<Longrightarrow> \<forall>l\<in>set (pad_layer leaves). length l = 32"
  by (auto simp: pad_layer_def zero_hash_def)

section \<open>Properties of proofs\<close>

text \<open>
  C26 (\<open>MerkleTree::from_leaf_hashes\<close>, \<open>proof\<close>, \<open>MerkleProof::verify\<close>). For every block of a file the
  tree produces an audit path; the path verifies the block against the pieces root; and, as long
  as SHA-256 has no collision among the inputs actually hashed, a path of the tree's height for
  that position verifies no other data.
\<close>

theorem merkle_proof_exact:
  assumes H: "\<And>x. length (H x) = 32" and i: "i < length blocks"
    and t: "t = from_leaf_hashes H (map H blocks) n"
  shows "\<exists>p. merkle_proof t i = Some p \<and> length (mp_path p) = tree_height (length blocks)
    \<and> proof_verify H p (blocks ! i) (mt_root t)
    \<and> (\<forall>q d. block_index q = i \<and> length (mp_path q) = length (mp_path p) \<and> (\<forall>s\<in>set (mp_path q). length s = 32)
         \<and> inj_on H ({d, blocks ! i} \<union> set (climb_inputs H (H d) i (mp_path q))
             \<union> tree_inputs H (pad_layer (map H blocks)) (tree_height (length blocks)))
         \<and> proof_verify H q d (mt_root t) \<longrightarrow> d = blocks ! i \<and> q = p)"
proof -
  let ?leaves = "pad_layer (map H blocks)" and ?k = "tree_height (length blocks)"
  have ne: "map H blocks \<noteq> []" using i by auto
  have root: "mt_root t = tree_node H ?leaves ?k 0" using from_leaf_hashes_layers(2) [OF ne, of H n] t by simp
  have len: "length ?leaves = 2 ^ ?k" by (simp add: length_pad_layer next_power_of_two_def)
  have ik: "i < 2 ^ ?k" using i next_exponent_ge [of "length blocks" 0] by linarith
  have leaf: "tree_node H ?leaves 0 i = H (blocks ! i)" using i by (simp add: pad_layer_nth)
  define p where "p = \<lparr>block_index = i, mp_path = audit_path H ?leaves 0 i ?k\<rparr>"
  have 1: "merkle_proof t i = Some p" using merkle_proof_path [OF ne, of i H n] i t by (simp add: p_def)
  have 2: "length (mp_path p) = ?k" by (simp add: p_def audit_path_def)
  have 3: "proof_verify H p (blocks ! i) (mt_root t)"
    using climb_audit_path [of H ?leaves 0 i ?k] ik leaf root by (simp add: proof_verify_def p_def)
  have 4: "d = blocks ! i \<and> q = p"
    if q: "block_index q = i" "length (mp_path q) = length (mp_path p)" "\<forall>s\<in>set (mp_path q). length s = 32"
      and inj: "inj_on H ({d, blocks ! i} \<union> set (climb_inputs H (H d) i (mp_path q)) \<union> tree_inputs H ?leaves ?k)"
      and ok: "proof_verify H q d (mt_root t)" for q :: MerkleProof and d
  proof -
    have lens: "\<forall>l\<in>set ?leaves. length l = 32" using H by (intro pad_layer_lengths) simp
    have "inj_on H (set (climb_inputs H (H d) i (mp_path q)) \<union> tree_inputs H ?leaves ?k)"
      by (rule inj_on_subset [OF inj]) auto
    then have "H d = tree_node H ?leaves 0 i \<and> mp_path q = audit_path H ?leaves 0 i (length (mp_path q))"
      using ok q ik H len lens 2 root by (intro climb_sound [where k = ?k]) (auto simp: proof_verify_def)
    then have "H d = H (blocks ! i)" and "mp_path q = mp_path p" using leaf q(2) 2 by (auto simp: p_def)
    then show ?thesis using inj_onD [OF inj, of d "blocks ! i"] q(1) by (simp add: p_def)
  qed
  from 1 2 3 4 show ?thesis by blast
qed

text \<open>A toy hash for the witnesses: length, first and last byte in 32 bytes.\<close>

definition toy_hash :: "bytes \<Rightarrow> bytes" where
  "toy_hash x = (if x = [] then replicate 32 0 else [of_nat (length x), hd x, last x, x ! (length x div 2)] @ replicate 28 0)"

lemma length_toy_hash: "length (toy_hash x) = 32"
  by (simp add: toy_hash_def)

lemma merkle_proof_exact_witness:
  "let t = from_leaf_hashes toy_hash (map toy_hash [[1], [2], [3]]) 3;
       p = the (merkle_proof t 2)
   in proof_verify toy_hash p [3] (mt_root t) \<and> length (mp_path p) = 2"
proof -
  let ?t = "from_leaf_hashes toy_hash (map toy_hash [[1], [2], [3]]) 3"
  have h: "tree_height (length [[1], [2], [3 :: u8]]) = 2"
    by (simp add: next_exponent.simps)
  obtain p where "merkle_proof ?t 2 = Some p" "length (mp_path p) = 2" "proof_verify toy_hash p [3] (mt_root ?t)"
    using merkle_proof_exact [where H = toy_hash and i = 2 and blocks = "[[1], [2], [3]]" and t = ?t and n = 3,
        OF length_toy_hash] unfolding h by auto
  then show ?thesis by (simp add: Let_def)
qed

section \<open>Hash responses\<close>

lemma audit_path_lengths:
  assumes "\<And>x. length (H x) = 32" and "\<forall>l\<in>set leaves. length l = 32" and "length leaves = 2 ^ (j + m)" and "i < 2 ^ m"
  shows "\<forall>x\<in>set (audit_path H leaves j i m). length x = 32"
proof -
  have "length (tree_node H leaves (j + d) (sibling_of (i div 2 ^ d))) = 32" if d: "d < m" for d
  proof -
    obtain e where e: "m = d + Suc e" using d less_imp_Suc_add by (metis add_Suc_right)
    then have "i div 2 ^ d < 2 ^ Suc e" using assms(4) by (simp add: power_add less_mult_imp_div_less algebra_simps)
    then have "sibling_of (i div 2 ^ d) < 2 ^ Suc e" by (rule sibling_less)
    moreover have "length leaves div 2 ^ (j + d) = 2 ^ Suc e"
      using assms(3) e by (simp add: power_add)
    ultimately show ?thesis by (intro tree_node_length [OF assms(1,2)]) simp
  qed
  then show ?thesis by (auto simp: audit_path_def)
qed

lemma uncles_layers:
  assumes "length leaves = 2 ^ k" and "j + m = k" and "i < 2 ^ m" and "m \<le> n"
  shows "uncles (map (\<lambda>j. layer_at H j leaves) [j..<Suc k]) i n = audit_path H leaves j i m"
  using assms(2-4)
proof (induction m arbitrary: j i n)
  case 0
  then show ?case by (simp add: audit_path_def)
next
  case (Suc m)
  obtain n' where n: "n = Suc n'" using Suc.prems(3) by (cases n) auto
  have upt: "[j..<Suc k] = j # Suc j # [Suc (Suc j)..<Suc k]" "[Suc j..<Suc k] = Suc j # [Suc (Suc j)..<Suc k]"
    using Suc.prems(1) by (simp_all add: upt_conv_Cons)
  have len: "length (layer_at H j leaves) = 2 ^ Suc m"
    using assms(1) Suc.prems(1) by (auto simp: length_layer_at power_add)
  have i2: "i div 2 < 2 ^ m" using Suc.prems(2) by auto
  have sib: "sibling_of i < 2 ^ Suc m" by (rule sibling_less [OF Suc.prems(2)])
  then have "layer_at H j leaves ! sibling_of i = tree_node H leaves j (sibling_of i)"
    using len by (intro nth_layer_at) (simp add: length_layer_at)
  moreover have "uncles (map (\<lambda>j. layer_at H j leaves) [Suc j..<Suc k]) (i div 2) n' = audit_path H leaves (Suc j) (i div 2) m"
    using Suc.prems i2 n by (intro Suc.IH) simp_all
  ultimately show ?case
    using sib len unfolding n upt(1) by (simp add: upt(2) xor_one_sibling audit_path_Suc Let_def del: upt_Suc One_nat_def)
qed

text \<open>Nodes above a segment of a layer are the nodes of the tree.\<close>

lemma tree_node_segment:
  assumes "\<And>i. i < 2 ^ m \<Longrightarrow> seg ! i = tree_node H leaves j (a * 2 ^ m + i)" and "d \<le> m" and "i < 2 ^ (m - d)"
  shows "tree_node H seg d i = tree_node H leaves (j + d) (a * 2 ^ (m - d) + i)"
  using assms(2,3)
proof (induction d arbitrary: i)
  case 0
  then show ?case using assms(1) by simp
next
  case (Suc d)
  have pow: "2 ^ (m - d) = (2::nat) * 2 ^ (m - Suc d)" using Suc.prems(1) by (simp add: power_Suc [symmetric] Suc_diff_Suc)
  then have "2 * i + 1 < 2 ^ (m - d)" "d \<le> m" using Suc.prems by auto
  then have "tree_node H seg d (2 * i) = tree_node H leaves (j + d) (2 * (a * 2 ^ (m - Suc d) + i))"
    and "tree_node H seg d (2 * i + 1) = tree_node H leaves (j + d) (2 * (a * 2 ^ (m - Suc d) + i) + 1)"
    using Suc.IH [of "2 * i"] Suc.IH [of "2 * i + 1"] by (simp_all add: pow algebra_simps)
  then show ?case by simp
qed

lemma build_layers_last:
  assumes "length seg = 2 ^ m"
  shows "last (build_layers H seg) ! 0 = tree_node H seg m 0"
  using nth_layer_at [where i = 0 and j = m and leaves = seg and H = H] assms
  by (simp add: build_layers_power [OF assms])

lemma tree_layer_lengths:
  assumes "\<And>x. length (H x) = 32" and "\<forall>l\<in>set leaves. length l = 32" and "l \<in> set (layer_at H j leaves)"
  shows "length l = 32"
proof -
  obtain i where "i < length (layer_at H j leaves)" "l = layer_at H j leaves ! i"
    using assms(3) by (metis in_set_conv_nth)
  then show ?thesis
    using tree_node_length [OF assms(1,2)] by (simp add: length_layer_at nth_layer_at)
qed

text \<open>The arithmetic of an accepted request: a segment of \<open>2 ^ k\<close> hashes at position \<open>a\<close>.\<close>

lemma request_shape:
  fixes len index :: u32
  assumes "\<not> (len < 2 \<or> len AND (len - 1) \<noteq> 0)" and "index mod len = 0"
  obtains k a where "0 < k" "unat len = 2 ^ k" "unat index = a * 2 ^ k" "unat (index div len) = a"
proof -
  have "\<exists>k>0. unat len = 2 ^ k"
    by (rule word_and_pred_power) (use assms(1) in simp_all)
  then obtain k where k: "0 < k" "unat len = 2 ^ k" by (elim exE conjE)
  have "unat (index mod len) = 0" unfolding assms(2) by simp
  then have "unat index mod 2 ^ k = 0" unfolding unat_mod k(2) .
  then have "unat index = unat index div 2 ^ k * 2 ^ k" by (simp add: mod_0_imp_dvd)
  moreover have "unat (index div len) = unat index div 2 ^ k" unfolding unat_div k(2) ..
  ultimately show ?thesis by (rule that [OF k])
qed

lemma segment_nth:
  assumes "length leaves = 2 ^ K" and "b \<le> K" and "(a + 1) * 2 ^ k \<le> 2 ^ (K - b)" and "i < 2 ^ k"
  shows "bslice (layer_at H b leaves) (a * 2 ^ k) (a * 2 ^ k + 2 ^ k) ! i = tree_node H leaves b (a * 2 ^ k + i)"
proof -
  have len: "length (layer_at H b leaves) = 2 ^ (K - b)"
    using assms(1,2) by (simp add: length_layer_at power_diff)
  have lt: "a * 2 ^ k + i < 2 ^ (K - b)" using assms(3,4) by (simp add: algebra_simps)
  then have "a * 2 ^ k + i < length leaves div 2 ^ b" using len by (simp add: length_layer_at)
  then show ?thesis using assms(4) lt len nth_layer_at by (simp add: bslice_def)
qed

lemma segment_fits:
  assumes "(a + 1) * 2 ^ k \<le> (2::nat) ^ n"
  shows "k \<le> n" and "a < 2 ^ (n - k)"
proof -
  have "(2::nat) ^ k \<le> (a + 1) * 2 ^ k" by simp
  then have "(2::nat) ^ k \<le> 2 ^ n" using assms by (rule le_trans)
  then show k: "k \<le> n" by simp
  have "(a + 1) * 2 ^ k \<le> 2 ^ (n - k) * 2 ^ k" using assms k by (simp add: power_add [symmetric])
  then have "a + 1 \<le> 2 ^ (n - k)" unfolding mult_le_cancel2 by simp
  then show "a < 2 ^ (n - k)" by simp
qed

text \<open>
  C27 (\<open>generate_hashes_response\<close>, \<open>verify_hashes_response\<close>). A response generated for a hash request
  that asks for enough proof layers is accepted by the verifier against the file's pieces root,
  and yields exactly the requested hashes of the requested layer.
\<close>

theorem hashes_response_roundtrip:
  assumes H: "\<And>x. length (H x) = 32" and leaves: "leaves \<noteq> []" "\<forall>l\<in>set leaves. length l = 32"
    and t: "t = from_leaf_hashes H leaves n"
    and gen: "generate_hashes_response t base_layer index len proof_layers = Some out"
    and enough: "tree_height (length leaves) \<le> unat base_layer + unat proof_layers + 1"
  shows "verify_hashes_response H (mt_root t) index len out =
    Inr (bslice (mt_layers t ! unat base_layer) (unat index) (unat index + unat len))"
proof -
  let ?L = "pad_layer leaves" and ?K = "tree_height (length leaves)" and ?b = "unat base_layer"
  note tree = from_leaf_hashes_layers [OF leaves(1), of H n, folded t]
  have len: "length ?L = 2 ^ ?K" by (simp add: length_pad_layer next_power_of_two_def)
  have cond: "\<not> (len < 2 \<or> len AND (len - 1) \<noteq> 0)" "index mod len = 0" "?b < length (mt_layers t)"
    using gen by (auto simp: generate_hashes_response_def generate_hashes_response_from_layers_def Let_def
        split: if_splits)
  obtain k a where ka: "0 < k" "unat len = 2 ^ k" "unat index = a * 2 ^ k" "unat (index div len) = a"
    using request_shape [OF cond(1,2)] by blast
  have b: "?b \<le> ?K" using cond(3) tree(1) by simp
  have layer: "mt_layers t ! ?b = layer_at H ?b ?L" using b tree(1) by (simp del: upt_Suc)
  have "a * 2 ^ k + 2 ^ k \<le> length (layer_at H ?b ?L)"
    using gen cond ka layer by (auto simp: generate_hashes_response_def generate_hashes_response_from_layers_def
        Let_def split: if_splits)
  then have seg_fit: "(a + 1) * 2 ^ k \<le> 2 ^ (?K - ?b)"
    using len b by (simp add: length_layer_at power_diff algebra_simps)
  note fits = segment_fits [OF seg_fit]
  define seg where "seg = bslice (layer_at H ?b ?L) (a * 2 ^ k) (a * 2 ^ k + 2 ^ k)"
  define us where "us = audit_path H ?L (?b + k) a (?K - ?b - k)"
  have uncles: "uncles (drop (?b + k) (mt_layers t)) a (unat proof_layers - (k - 1)) = us"
    unfolding tree(1) us_def using len fits b enough ka(1)
    by (subst uncles_layers [symmetric, where n = "unat proof_layers - (k - 1)"]) (auto simp: drop_map drop_upt simp del: upt_Suc)
  have out: "out = concat seg @ concat us"
    using gen cond ka layer uncles by (auto simp: generate_hashes_response_def generate_hashes_response_from_layers_def
        Let_def seg_def split: if_splits)
  have lens: "\<forall>l\<in>set ?L. length l = 32" by (rule pad_layer_lengths [OF leaves(2)])
  have seg32: "\<forall>x\<in>set seg. length x = 32" "length seg = 2 ^ k"
    using tree_layer_lengths [OF H lens] seg_fit len b
    by (auto simp: seg_def bslice_def length_layer_at power_diff algebra_simps dest!: in_set_takeD in_set_dropD)
  have us32: "\<forall>x\<in>set us. length x = 32"
    unfolding us_def using fits b len by (intro audit_path_lengths [OF H lens]) simp_all
  have "climb H (last (build_layers H seg) ! 0) a us = mt_root t"
  proof -
    have "tree_node H seg k 0 = tree_node H ?L (?b + k) (a * 2 ^ (k - k) + 0)"
      by (rule tree_node_segment) (use segment_nth [OF len b seg_fit] in \<open>auto simp: seg_def\<close>)
    then show ?thesis
      using climb_audit_path [of H ?L "?b + k" a "?K - ?b - k"] fits b tree(2) build_layers_last [OF seg32(2), of H]
      by (simp add: us_def)
  qed
  moreover have "take (unat len * 32) out = concat seg" "drop (unat len * 32) out = concat us"
      "length out = (2 ^ k + length us) * 32"
    using length_concat_const [OF seg32(1)] length_concat_const [OF us32] seg32(2) ka(2)
    by (simp_all add: out algebra_simps del: length_concat)
  ultimately show ?thesis
    using cond(1,2) ka chunks_exact_concat [OF seg32(1)] chunks_exact_concat [OF us32] layer
    by (simp add: verify_hashes_response_def Let_def seg_def [symmetric] del: length_concat)
qed

definition toy_leaves :: "bytes list" where
  "toy_leaves = map toy_hash [[1], [2], [3]]"

lemma hashes_response_roundtrip_witness:
  "\<exists>out. generate_hashes_response (from_leaf_hashes toy_hash toy_leaves 3) 0 2 2 2 = Some out
    \<and> verify_hashes_response toy_hash (mt_root (from_leaf_hashes toy_hash toy_leaves 3)) 2 2 out =
        Inr [toy_hash [3], zero_hash]"
proof -
  let ?t = "from_leaf_hashes toy_hash toy_leaves 3"
  have ne: "toy_leaves \<noteq> []" and len: "length toy_leaves = 3" and lens: "\<forall>l\<in>set toy_leaves. length l = 32"
    by (simp_all add: toy_leaves_def length_toy_hash)
  have h: "tree_height (length toy_leaves) = 2" by (simp add: len next_exponent.simps)
  note tree = from_leaf_hashes_layers [OF ne, of toy_hash 3, unfolded h]
  have pad: "pad_layer toy_leaves = [toy_hash [1], toy_hash [2], toy_hash [3], zero_hash]"
    by (simp add: pad_layer_def next_power_of_two_def h [unfolded len] len) (simp add: toy_leaves_def)
  have layer: "mt_layers ?t ! 0 = pad_layer toy_leaves" and n: "length (mt_layers ?t) = 3"
    by (simp_all add: tree)
  have "(2 :: u32) AND (2 - 1) = 0" and "(2 :: u32) mod 2 = 0" by simp_all
  then obtain out where out: "generate_hashes_response ?t 0 2 2 2 = Some out"
    using layer n by (simp add: generate_hashes_response_def generate_hashes_response_from_layers_def Let_def pad)
  have "verify_hashes_response toy_hash (mt_root ?t) 2 2 out = Inr (bslice (mt_layers ?t ! unat (0 :: u32)) (unat (2 :: u32)) (unat (2 :: u32) + unat (2 :: u32)))"
    by (rule hashes_response_roundtrip [OF length_toy_hash ne lens refl out]) (simp add: h)
  then show ?thesis using out by (simp add: layer pad bslice_def)
qed

text \<open>Below a common node, equal up to collisions, the trees agree.\<close>

lemma subtree_sound:
  assumes H: "\<And>x. length (H x) = 32" and seg: "length seg = 2 ^ k" "\<forall>x\<in>set seg. length x = 32"
    and L: "length L = 2 ^ K" "\<forall>x\<in>set L. length x = 32" and fit: "b + k \<le> K" "a < 2 ^ (K - b - k)"
    and inj: "inj_on H (tree_inputs H seg k \<union> tree_inputs H L K)"
    and top: "tree_node H seg k 0 = tree_node H L (b + k) a"
    and d: "d \<le> k" "i < 2 ^ d"
  shows "tree_node H seg (k - d) i = tree_node H L (b + (k - d)) (a * 2 ^ d + i)"
  using d
proof (induction d arbitrary: i)
  case 0
  then show ?case using top by simp
next
  case (Suc d)
  define j where "j = k - Suc d"
  have j: "k - d = Suc j" "j < k" "k - Suc j = d" using Suc.prems(1) by (auto simp: j_def)
  have i2: "i div 2 < 2 ^ d" using Suc.prems(2) by auto
  let ?p = "a * 2 ^ d + i div 2"
  have "tree_node H seg (Suc j) (i div 2) = tree_node H L (b + Suc j) ?p"
    using Suc.IH [OF _ i2] Suc.prems(1) j by simp
  then have Heq: "H (tree_node H seg j (2 * (i div 2)) @ tree_node H seg j (2 * (i div 2) + 1)) =
      H (tree_node H L (b + j) (2 * ?p) @ tree_node H L (b + j) (2 * ?p + 1))" by simp
  have in1: "tree_node H seg j (2 * (i div 2)) @ tree_node H seg j (2 * (i div 2) + 1) \<in> tree_inputs H seg k"
    by (rule tree_inputsI) (use j i2 in simp_all)
  have pow: "K - Suc (b + j) = (K - b - k) + d" using fit(1) j by simp
  have "?p < a * 2 ^ d + 2 ^ d" using i2 by simp
  also have "\<dots> = (a + 1) * 2 ^ d" by simp
  also have "\<dots> \<le> 2 ^ (K - b - k) * 2 ^ d" using fit(2) by (intro mult_le_mono1) simp
  finally have p: "?p < 2 ^ (K - Suc (b + j))" unfolding pow power_add .
  then have in2: "tree_node H L (b + j) (2 * ?p) @ tree_node H L (b + j) (2 * ?p + 1) \<in> tree_inputs H L K"
    by (intro tree_inputsI) (use fit(1) j in simp_all)
  have eq: "tree_node H seg j (2 * (i div 2)) @ tree_node H seg j (2 * (i div 2) + 1) =
      tree_node H L (b + j) (2 * ?p) @ tree_node H L (b + j) (2 * ?p + 1)"
    by (rule inj_onD [OF inj Heq]) (use in1 in2 in blast)+
  have "k - j = Suc d" using j by simp
  then have "2 * (i div 2) < length seg div 2 ^ j"
    using i2 seg(1) j by (simp add: power_diff [symmetric])
  then have len1: "length (tree_node H seg j (2 * (i div 2))) = 32" by (rule tree_node_length [OF H seg(2)])
  have "K - (b + j) = Suc (K - Suc (b + j))" using fit(1) j by simp
  then have "2 * ?p < length L div 2 ^ (b + j)"
    using p L(1) fit(1) j by (simp add: power_diff [symmetric])
  then have len2: "length (tree_node H L (b + j) (2 * ?p)) = 32" by (rule tree_node_length [OF H L(2)])
  have both: "tree_node H seg j (2 * (i div 2)) = tree_node H L (b + j) (2 * ?p)"
      "tree_node H seg j (2 * (i div 2) + 1) = tree_node H L (b + j) (2 * ?p + 1)"
    using eq len1 len2 by simp_all
  have "a * 2 ^ Suc d + i = 2 * ?p + i mod 2" and "i = 2 * (i div 2) + i mod 2" by simp_all
  then show ?case using both unfolding j_def [symmetric]
    by (cases "even i") (simp_all add: odd_iff_mod_2_eq_one even_iff_mod_2_eq_zero mult.left_commute [of a])
qed



section \<open>Piece layers\<close>

lemma ceil_div_le: "0 < d \<Longrightarrow> (n + d - 1) div d \<le> q \<longleftrightarrow> n \<le> q * d" for n d q :: nat
proof -
  assume d: "0 < d"
  have "(n + d - 1) div d \<le> q \<longleftrightarrow> n + d - 1 < Suc q * d"
    using d by (metis div_less_iff_less_mult less_Suc_eq_le)
  also have "\<dots> \<longleftrightarrow> n \<le> q * d" using d by auto
  finally show ?thesis .
qed

lemma power_two_and_pred: "(2::nat) ^ k AND (2 ^ k - 1) = 0"
  unfolding mask_eq_exp_minus_1 [symmetric] take_bit_eq_mask [symmetric] by simp

text \<open>The number of pieces of a file lies in the upper half of its piece layer.\<close>

lemma piece_count:
  assumes "0 < n" and "m = (n + BLOCK_SIZE - 1) div BLOCK_SIZE" and "h \<le> tree_height m"
    and "p = (n + BLOCK_SIZE * 2 ^ h - 1) div (BLOCK_SIZE * 2 ^ h)"
  shows "p \<le> 2 ^ (tree_height m - h)" and "next_power_of_two p = 2 ^ (tree_height m - h)"
proof -
  have B: "0 < BLOCK_SIZE" by (simp add: BLOCK_SIZE_def)
  have le: "p \<le> q \<longleftrightarrow> m \<le> q * 2 ^ h" for q
    unfolding assms(2,4) using ceil_div_le [OF B, of n "q * 2 ^ h"] ceil_div_le [of "BLOCK_SIZE * 2 ^ h" n q] B
    by (simp add: algebra_simps)
  have m: "m \<le> 2 ^ tree_height m" by (rule next_exponent_ge)
  have pow: "2 ^ (tree_height m - h) * 2 ^ h = (2::nat) ^ tree_height m"
    using assms(3) by (simp add: power_add [symmetric])
  show p: "p \<le> 2 ^ (tree_height m - h)" using le m pow by simp
  then have up: "next_exponent p 0 \<le> tree_height m - h" by (rule next_exponent_le) simp
  have "p \<le> 2 ^ next_exponent p 0" by (rule next_exponent_ge)
  then have "m \<le> 2 ^ (next_exponent p 0 + h)" using le by (simp add: power_add)
  then have "tree_height m \<le> next_exponent p 0 + h" by (rule next_exponent_le) simp
  then show "next_power_of_two p = 2 ^ (tree_height m - h)" using up assms(3) by (simp add: next_power_of_two_def)
qed

lemma piece_count_pos: "0 < n \<Longrightarrow> 0 < d \<Longrightarrow> 0 < (n + d - 1) div d" for n d :: nat
  by (simp add: div_greater_zero_iff)

lemma compute_root_padded:
  assumes "hs \<noteq> []"
  shows "compute_root_from_piece_hashes H hs = tree_node H (pad_layer hs) (tree_height (length hs)) 0"
proof (cases "length hs = 1")
  case True
  then show ?thesis
    using assms by (simp add: compute_root_from_piece_hashes_def pad_layer_def next_power_of_two_def next_exponent.simps nth_append)
next
  case False
  then show ?thesis
    using assms build_layers_last [of "pad_layer hs" "tree_height (length hs)" H]
    by (simp add: compute_root_from_piece_hashes_def length_pad_layer next_power_of_two_def)
qed

lemma piece_layer_nodes:
  assumes n: "0 < n" "length leaves = (n + BLOCK_SIZE - 1) div BLOCK_SIZE"
    and h: "h \<le> tree_height (length leaves)"
    and p: "p = (n + BLOCK_SIZE * 2 ^ h - 1) div (BLOCK_SIZE * 2 ^ h)"
  shows "\<exists>hs. piece_layer (from_leaf_hashes H leaves n) (BLOCK_SIZE * 2 ^ h) = Inr hs \<and> length hs = p
    \<and> (\<forall>i<p. hs ! i = tree_node H (pad_layer leaves) h i)"
proof -
  let ?L = "pad_layer leaves" and ?K = "tree_height (length leaves)" and ?t = "from_leaf_hashes H leaves n"
  have "leaves \<noteq> []"
    using n by (auto simp: BLOCK_SIZE_def div_eq_0_iff)
  note tree = from_leaf_hashes_layers [OF this, of H n]
  have len: "length ?L = 2 ^ ?K" by (simp add: length_pad_layer next_power_of_two_def)
  note pc = piece_count [OF n(1) n(2) h p]
  have B: "BLOCK_SIZE = 2 ^ 14" by (simp add: BLOCK_SIZE_def)
  have pl: "BLOCK_SIZE * 2 ^ h = 2 ^ (14 + h)" by (simp add: B power_add)
  have tz: "trailing_zeros (BLOCK_SIZE * 2 ^ h div BLOCK_SIZE) = h" by (simp add: B)
  have layer: "mt_layers ?t ! h = layer_at H h ?L" "length (mt_layers ?t) = Suc ?K"
    using h tree(1) by (simp_all del: upt_Suc)
  have llen: "length (layer_at H h ?L) = 2 ^ (?K - h)" using len h by (simp add: length_layer_at power_diff)
  have fl: "mt_file_length ?t = n" by (simp add: from_leaf_hashes_def Let_def)
  define hs where "hs = take p (layer_at H h ?L)"
  have "\<not> (BLOCK_SIZE * 2 ^ h < BLOCK_SIZE \<or> BLOCK_SIZE * 2 ^ h AND (BLOCK_SIZE * 2 ^ h - 1) \<noteq> 0)"
    unfolding pl power_two_and_pred by (simp add: BLOCK_SIZE_def power_add)
  then have 1: "piece_layer ?t (BLOCK_SIZE * 2 ^ h) = Inr hs"
    using h layer llen tz pc(1) p fl by (simp add: piece_layer_def Let_def hs_def)
  have nth: "hs ! i = tree_node H ?L h i" if "i < p" for i
    using that pc(1) llen nth_layer_at [where i = i and j = h and leaves = ?L and H = H]
    by (simp add: hs_def length_layer_at)
  show ?thesis using 1 nth pc(1) llen by (intro exI [of _ hs]) (simp add: hs_def)
qed

text \<open>
  \<open>MerkleTree::piece_layer\<close>, \<open>compute_root_from_piece_hashes\<close>: For a piece length of \<open>2 ^ h\<close> blocks
  the piece layer has one hash per piece of the file, the root of the subtree over that piece's
  blocks. When the pieces fill their layer, the root computed from them is the pieces root.
\<close>

theorem piece_layer_exact:
  assumes H: "\<And>x. length (H x) = 32" and n: "0 < n" "length leaves = (n + BLOCK_SIZE - 1) div BLOCK_SIZE"
    and h: "h \<le> tree_height (length leaves)"
    and p: "p = (n + BLOCK_SIZE * 2 ^ h - 1) div (BLOCK_SIZE * 2 ^ h)"
  shows "\<exists>hs. piece_layer (from_leaf_hashes H leaves n) (BLOCK_SIZE * 2 ^ h) = Inr hs \<and> length hs = p
    \<and> (\<forall>i<p. hs ! i = tree_node H (pad_layer leaves) h i)
    \<and> (p = 2 ^ (tree_height (length leaves) - h) \<longrightarrow>
        compute_root_from_piece_hashes H hs = mt_root (from_leaf_hashes H leaves n))"
proof -
  let ?L = "pad_layer leaves" and ?K = "tree_height (length leaves)"
  obtain hs where hs: "piece_layer (from_leaf_hashes H leaves n) (BLOCK_SIZE * 2 ^ h) = Inr hs" "length hs = p"
      "\<forall>i<p. hs ! i = tree_node H ?L h i"
    using piece_layer_nodes [OF n h p] by blast
  have "leaves \<noteq> []" using n by (auto simp: BLOCK_SIZE_def div_eq_0_iff)
  note root = from_leaf_hashes_layers(2) [OF this, of H n]
  have th: "tree_height p = ?K - h" using piece_count(2) [OF n h p] by (simp add: next_power_of_two_def)
  have pos: "hs \<noteq> []" using hs(2) p piece_count_pos [OF n(1), of "BLOCK_SIZE * 2 ^ h"] by (auto simp: BLOCK_SIZE_def)
  have "compute_root_from_piece_hashes H hs = mt_root (from_leaf_hashes H leaves n)" if full: "p = 2 ^ (?K - h)"
  proof -
    have "pad_layer hs = hs" using full hs(2) th by (simp add: pad_layer_def next_power_of_two_def)
    then show ?thesis
      using compute_root_padded [OF pos, of H] tree_node_segment [of "?K - h" hs H ?L h 0 "?K - h" 0] hs full th h root by simp
  qed
  then show ?thesis using hs by blast
qed

lemma piece_layer_exact_witness:
  "\<exists>hs. piece_layer (from_leaf_hashes toy_hash [toy_hash [1], toy_hash [2], toy_hash [3]] 40000) 32768 = Inr hs
    \<and> length hs = 2
    \<and> compute_root_from_piece_hashes toy_hash hs =
      mt_root (from_leaf_hashes toy_hash [toy_hash [1], toy_hash [2], toy_hash [3]] 40000)"
proof -
  let ?ls = "[toy_hash [1], toy_hash [2], toy_hash [3]]"
  have h: "tree_height (length ?ls) = 2" by (simp add: next_exponent.simps)
  have "length ?ls = (40000 + BLOCK_SIZE - 1) div BLOCK_SIZE" by (simp add: BLOCK_SIZE_def)
  from piece_layer_exact [where H = toy_hash, OF length_toy_hash _ this, where h = 1 and p = 2]
  show ?thesis unfolding h by (auto simp: BLOCK_SIZE_def)
qed

text \<open>
  When the pieces do not fill their layer and a piece has more than one block, the root computed
  from the piece hashes is not the pieces root: the code pads the layer with zero hashes, where
  the tree has roots of subtrees of zero leaves.
\<close>

lemma piece_root_padding_differs:
  assumes H: "\<And>x. length (H x) = 32" and zero: "\<And>x. H x \<noteq> zero_hash"
    and leaves: "\<forall>l\<in>set leaves. length l = 32"
    and n: "0 < n" "length leaves = (n + BLOCK_SIZE - 1) div BLOCK_SIZE"
    and h: "0 < h" "h \<le> tree_height (length leaves)"
    and p: "p = (n + BLOCK_SIZE * 2 ^ h - 1) div (BLOCK_SIZE * 2 ^ h)" "p < 2 ^ (tree_height (length leaves) - h)"
    and hs: "piece_layer (from_leaf_hashes H leaves n) (BLOCK_SIZE * 2 ^ h) = Inr hs"
    and inj: "inj_on H (tree_inputs H (pad_layer hs) (tree_height (length leaves) - h)
      \<union> tree_inputs H (pad_layer leaves) (tree_height (length leaves)))"
  shows "compute_root_from_piece_hashes H hs \<noteq> mt_root (from_leaf_hashes H leaves n)"
proof
  assume eq: "compute_root_from_piece_hashes H hs = mt_root (from_leaf_hashes H leaves n)"
  let ?L = "pad_layer leaves" and ?K = "tree_height (length leaves)"
  have ne: "leaves \<noteq> []" using n by (auto simp: BLOCK_SIZE_def div_eq_0_iff)
  have hsp: "length hs = p" and nth: "\<And>i. i < p \<Longrightarrow> hs ! i = tree_node H ?L h i"
    using piece_layer_nodes [OF n h(2) p(1), of H] hs by auto
  note pc = piece_count [OF n h(2) p(1)]
  have len: "length ?L = 2 ^ ?K" by (simp add: length_pad_layer next_power_of_two_def)
  have lens: "\<forall>l\<in>set ?L. length l = 32" by (rule pad_layer_lengths [OF leaves])
  have plen: "length (pad_layer hs) = 2 ^ (?K - h)" using pc(2) hsp by (simp add: length_pad_layer)
  have node32: "length (tree_node H ?L h i) = 32" if "i < 2 ^ (?K - h)" for i
    by (rule tree_node_length [OF H lens]) (use that len h(2) in \<open>simp add: power_diff\<close>)
  have "\<forall>l\<in>set hs. length l = 32" using nth hsp node32 pc(1) by (auto simp: in_set_conv_nth)
  then have plens: "\<forall>l\<in>set (pad_layer hs). length l = 32" by (rule pad_layer_lengths)
  have pos: "hs \<noteq> []" using hsp p(1) piece_count_pos [OF n(1), of "BLOCK_SIZE * 2 ^ h"] by (auto simp: BLOCK_SIZE_def)
  have th: "tree_height p = ?K - h" using pc(2) by (simp add: next_power_of_two_def)
  have top: "tree_node H (pad_layer hs) (?K - h) 0 = tree_node H ?L (h + (?K - h)) 0"
    using eq compute_root_padded [OF pos, of H] hsp th from_leaf_hashes_layers(2) [OF ne, of H n] h(2) by simp
  have "tree_node H (pad_layer hs) 0 p = tree_node H ?L h p"
    using subtree_sound [OF H plen plens len lens _ _ inj top, where d = "?K - h" and i = p] h(2) p(2) by simp
  moreover have "tree_node H (pad_layer hs) 0 p = zero_hash"
    using p(2) pc(2) hsp by (simp add: pad_layer_def nth_append)
  moreover have "tree_node H ?L h p \<noteq> zero_hash" using h(1) zero by (cases h) auto
  ultimately show False by simp
qed

end
