(* ===== verification/Piece_Layers.thy ===== *)
theory Piece_Layers
  imports Merkle "HOL-Library.AList"
begin

text \<open>
  The cache of BitTorrent v2 hash tree layers (\<open>library/src/storage/piece_layers_cache.rs\<close>): the
  bounded memory tier with least-recently-used eviction, the binary \<open>.layers\<close> file format with its
  trailing SHA-256 checksum, and the two-tier cache that saves, loads, serves, prunes and clears.
  The cache directory is an association list from file names to contents and modification times;
  what the file system may do wrong in a call is an argument of that call.
\<close>

type_synonym layers = "bytes list list"

section \<open>The memory tier\<close>

record MemoryTier =
  layers_by_root :: "(bytes \<times> layers) list"
  lru_order :: "bytes list"
  total_hashes :: nat
  max_hashes :: nat

definition tier_new :: "nat \<Rightarrow> MemoryTier" where
  "tier_new mx = \<lparr>layers_by_root = [], lru_order = [], total_hashes = 0, max_hashes = mx\<rparr>"

definition hashes_in_layers :: "layers \<Rightarrow> nat" where
  "hashes_in_layers ls = sum_list (map length ls)"

definition tier_get :: "bytes \<Rightarrow> MemoryTier \<Rightarrow> layers option \<times> MemoryTier" where
  "tier_get root t = (case map_of (layers_by_root t) root of
      None \<Rightarrow> (None, t)
    | Some ls \<Rightarrow> (Some ls, t\<lparr>lru_order := remove1 root (lru_order t) @ [root]\<rparr>))"

text \<open>The eviction loop of \<open>insert\<close>; \<open>n\<close> is the number of incoming hashes.\<close>

fun evict_oldest ::
  "nat \<Rightarrow> nat \<Rightarrow> bytes list \<Rightarrow> (bytes \<times> layers) list \<Rightarrow> nat \<Rightarrow> nat \<Rightarrow>
    bytes list \<times> (bytes \<times> layers) list \<times> nat \<times> nat" where
  "evict_oldest n mx [] m held evicted = ([], m, held, evicted)"
| "evict_oldest n mx (r # rs) m held evicted =
    (if mx < held + n then
       (case map_of m r of
          None \<Rightarrow> evict_oldest n mx rs m held evicted
        | Some old \<Rightarrow>
            evict_oldest n mx rs (AList.delete r m) (held - hashes_in_layers old) (evicted + 1))
     else (r # rs, m, held, evicted))"

definition tier_insert :: "bytes \<Rightarrow> layers \<Rightarrow> MemoryTier \<Rightarrow> MemoryTier \<times> nat" where
  "tier_insert root ls t =
    (let n = hashes_in_layers ls;
         (lru, m, held, evicted) =
           evict_oldest n (max_hashes t) (lru_order t) (layers_by_root t) (total_hashes t) 0;
         (lru, held) = (case map_of m root of
             None \<Rightarrow> (lru, held)
           | Some old \<Rightarrow> (remove1 root lru, held - hashes_in_layers old))
     in (t\<lparr>layers_by_root := AList.update root ls m, lru_order := lru @ [root],
           total_hashes := held + n\<rparr>, evicted))"

definition tier_remove :: "bytes \<Rightarrow> MemoryTier \<Rightarrow> bool \<times> MemoryTier" where
  "tier_remove root t =
    (let t = t\<lparr>lru_order := remove1 root (lru_order t)\<rparr>
     in case map_of (layers_by_root t) root of
          None \<Rightarrow> (False, t)
        | Some ls \<Rightarrow>
            (True, t\<lparr>layers_by_root := AList.delete root (layers_by_root t),
                     total_hashes := total_hashes t - hashes_in_layers ls\<rparr>))"

definition tier_clear :: "MemoryTier \<Rightarrow> MemoryTier" where
  "tier_clear t = t\<lparr>layers_by_root := [], lru_order := [], total_hashes := 0\<rparr>"

section \<open>The file format\<close>

definition BT2L_MAGIC :: bytes where "BT2L_MAGIC = bytes_of_string ''BT2L''"
definition BT2L_VERSION :: u16 where "BT2L_VERSION = 1"

text \<open>The layer bodies; \<open>idx\<close> is the position of the first layer.\<close>

fun encode_bodies :: "nat \<Rightarrow> layers \<Rightarrow> bytes" where
  "encode_bodies idx [] = []"
| "encode_bodies idx (layer # ls) =
    u32_to_be_bytes (of_nat idx) @ u32_to_be_bytes (of_nat (length layer)) @ concat layer
    @ encode_bodies (idx + 1) ls"

definition encode_payload :: "bytes \<Rightarrow> layers \<Rightarrow> bytes" where
  "encode_payload pieces_root ls =
    BT2L_MAGIC @ u16_to_be_bytes BT2L_VERSION @ [0, 0] @ pieces_root
    @ u32_to_be_bytes (of_nat (length ls)) @ u64_to_be_bytes (of_nat (hashes_in_layers ls))
    @ encode_bodies 0 ls"

definition encode_layers :: "(bytes \<Rightarrow> bytes) \<Rightarrow> bytes \<Rightarrow> layers \<Rightarrow> bytes" where
  "encode_layers H pieces_root ls =
    (let buf = encode_payload pieces_root ls in buf @ H buf)"

text \<open>The loop over the announced number of layers.\<close>

fun decode_bodies :: "bytes \<Rightarrow> nat \<Rightarrow> nat \<Rightarrow> nat \<Rightarrow> layers result" where
  "decode_bodies data payload_len 0 offset = Inr []"
| "decode_bodies data payload_len (Suc n) offset =
    (if payload_len < offset + 8 then Inl (Parse ''Unexpected EOF reading layer header'')
     else
       let hash_count = unat (from_be (bslice data (offset + 4) (offset + 8)) :: u32)
       in if payload_len < offset + 8 + hash_count * 32
          then Inl (Parse ''Unexpected EOF reading layer hashes'')
          else rbind (decode_bodies data payload_len n (offset + 8 + hash_count * 32))
            (\<lambda>ls. Inr (map (\<lambda>i. bslice data (offset + 8 + i * 32) (offset + 8 + i * 32 + 32))
                         [0..<hash_count] # ls)))"

definition decode_layers :: "(bytes \<Rightarrow> bytes) \<Rightarrow> bytes \<Rightarrow> (bytes \<times> layers) result" where
  "decode_layers H data =
    (if length data < 52 + 32 then
       Inl (Parse ''Layer cache payload smaller than minimum header size'')
     else
       let payload_len = length data - 32 in
       if drop payload_len data \<noteq> H (take payload_len data) then
         Inl (Parse ''Layer cache file integrity checksum mismatch'')
       else if take 4 data \<noteq> BT2L_MAGIC then
         Inl (Parse ''Invalid BT2L layer cache magic header'')
       else
         let version = from_be (bslice data 4 6) :: u16 in
         if version \<noteq> BT2L_VERSION then
           Inl (Parse (''Unsupported BT2L layer cache version: '' @ string_of_nat (unat version)))
         else
           let num_layers = unat (from_be (bslice data 40 44) :: u32)
           in rbind (decode_bodies data payload_len num_layers 52)
                (\<lambda>ls. Inr (bslice data 8 40, ls)))"

definition reconstruct_tree_from_piece_layer ::
  "(bytes \<Rightarrow> bytes) \<Rightarrow> bytes list \<Rightarrow> layers \<times> bytes" where
  "reconstruct_tree_from_piece_layer H base =
    (if base = [] then ([], zero_hash)
     else if length base = 1 then ([base], base ! 0)
     else
       let ls = build_layers H (pad_layer base)
       in (ls, case last ls of [] \<Rightarrow> zero_hash | root # _ \<Rightarrow> root))"

section \<open>The two-tier cache\<close>

record PieceLayersDiskCache =
  cache_files :: "(string \<times> bytes \<times> nat) list"
  memory_tier :: MemoryTier
  cache_hits :: nat
  cache_misses :: nat
  disk_reads :: nat
  disk_writes :: nat
  hash_requests_served :: nat
  bytes_served :: nat
  evictions :: nat

definition plc_new :: "(string \<times> bytes \<times> nat) list \<Rightarrow> nat \<Rightarrow> PieceLayersDiskCache" where
  "plc_new files max_memory_mb =
    \<lparr>cache_files = files, memory_tier = tier_new (max max_memory_mb 1 * 1024 * 1024 div 32),
     cache_hits = 0, cache_misses = 0, disk_reads = 0, disk_writes = 0,
     hash_requests_served = 0, bytes_served = 0, evictions = 0\<rparr>"

definition path_for_root :: "bytes \<Rightarrow> string" where
  "path_for_root pieces_root = to_hex pieces_root @ ''.layers''"

text \<open>\<open>with_extension("tmp")\<close> of that path\<close>

definition temp_path_for_root :: "bytes \<Rightarrow> string" where
  "temp_path_for_root pieces_root = to_hex pieces_root @ ''.tmp''"

definition has_layers :: "bytes \<Rightarrow> PieceLayersDiskCache \<Rightarrow> bool" where
  "has_layers pieces_root c \<longleftrightarrow>
    map_of (layers_by_root (memory_tier c)) pieces_root \<noteq> None
    \<or> map_of (cache_files c) (path_for_root pieces_root) \<noteq> None"

text \<open>\<open>fs::remove_file\<close> with its result ignored; \<open>removable\<close> says which files the system lets go.\<close>

definition remove_file :: "(string \<Rightarrow> bool) \<Rightarrow> string \<Rightarrow> (string \<times> 'f) list \<Rightarrow> (string \<times> 'f) list" where
  "remove_file removable path files = (if removable path then AList.delete path files else files)"

definition plc_remove ::
  "(string \<Rightarrow> bool) \<Rightarrow> bytes \<Rightarrow> PieceLayersDiskCache \<Rightarrow> bool \<times> PieceLayersDiskCache" where
  "plc_remove removable pieces_root c =
    (let (removed, t) = tier_remove pieces_root (memory_tier c);
         c = c\<lparr>memory_tier := t\<rparr>;
         path = path_for_root pieces_root
     in if map_of (cache_files c) path \<noteq> None
        then (True, c\<lparr>cache_files := remove_file removable path (cache_files c)\<rparr>)
        else (removed, c))"

definition plc_insert :: "bytes \<Rightarrow> layers \<Rightarrow> PieceLayersDiskCache \<Rightarrow> PieceLayersDiskCache" where
  "plc_insert pieces_root ls c =
    (let (t, ev) = tier_insert pieces_root ls (memory_tier c)
     in c\<lparr>memory_tier := t, evictions := evictions c + ev\<rparr>)"

text \<open>What can go wrong while the temporary file is written and moved into place.\<close>

datatype SaveFault = NoFault | OpenFails string | WriteFails nat string | RenameFails string

definition save_layers ::
  "(bytes \<Rightarrow> bytes) \<Rightarrow> SaveFault \<Rightarrow> nat \<Rightarrow> bytes \<Rightarrow> layers \<Rightarrow> PieceLayersDiskCache \<Rightarrow>
    unit result \<times> PieceLayersDiskCache" where
  "save_layers H fault now pieces_root ls c =
    (if ls = [] then (Inr (), c)
     else
       let c = plc_insert pieces_root ls c;
           encoded = encode_layers H pieces_root ls;
           target_path = path_for_root pieces_root;
           temp_path = temp_path_for_root pieces_root;
           written = (\<lambda>bs. AList.update temp_path (bs, now) (cache_files c))
       in case fault of
            OpenFails msg \<Rightarrow> (Inl (Io OtherKind msg), c)
          | WriteFails n msg \<Rightarrow> (Inl (Io OtherKind msg), c\<lparr>cache_files := written (take n encoded)\<rparr>)
          | RenameFails msg \<Rightarrow> (Inl (Io OtherKind msg), c\<lparr>cache_files := written encoded\<rparr>)
          | NoFault \<Rightarrow>
              (Inr (), c\<lparr>cache_files :=
                  AList.update target_path (encoded, now) (AList.delete temp_path (written encoded)),
                disk_writes := disk_writes c + 1\<rparr>))"

definition save_piece_layer ::
  "(bytes \<Rightarrow> bytes) \<Rightarrow> SaveFault \<Rightarrow> nat \<Rightarrow> bytes \<Rightarrow> bytes list \<Rightarrow> PieceLayersDiskCache \<Rightarrow>
    unit result \<times> PieceLayersDiskCache" where
  "save_piece_layer H fault now pieces_root base c =
    (let (reconstructed, calc_root) = reconstruct_tree_from_piece_layer H base
     in save_layers H fault now pieces_root reconstructed c)"

text \<open>\<open>fault\<close> is the error of opening or reading the file, if there is one.\<close>

definition load_layers ::
  "(bytes \<Rightarrow> bytes) \<Rightarrow> string option \<Rightarrow> bytes \<Rightarrow> PieceLayersDiskCache \<Rightarrow>
    layers option result \<times> PieceLayersDiskCache" where
  "load_layers H fault pieces_root c =
    (case tier_get pieces_root (memory_tier c) of
       (Some ls, t) \<Rightarrow> (Inr (Some ls), c\<lparr>memory_tier := t, cache_hits := cache_hits c + 1\<rparr>)
     | (None, t) \<Rightarrow>
         let c = c\<lparr>memory_tier := t, cache_misses := cache_misses c + 1\<rparr>
         in case map_of (cache_files c) (path_for_root pieces_root) of
              None \<Rightarrow> (Inr None, c)
            | Some (data, _) \<Rightarrow>
                (case fault of
                   Some msg \<Rightarrow> (Inl (Io OtherKind msg), c)
                 | None \<Rightarrow>
                     (case decode_layers H data of
                        Inl e \<Rightarrow> (Inl e, c)
                      | Inr (root, ls) \<Rightarrow>
                          if root \<noteq> pieces_root
                          then (Inl (Parse ''Cached layer file root does not match requested root''), c)
                          else (Inr (Some ls), plc_insert pieces_root ls (c\<lparr>disk_reads := disk_reads c + 1\<rparr>)))))"

definition load_piece_layer ::
  "(bytes \<Rightarrow> bytes) \<Rightarrow> string option \<Rightarrow> bytes \<Rightarrow> PieceLayersDiskCache \<Rightarrow>
    bytes list option result \<times> PieceLayersDiskCache" where
  "load_piece_layer H fault pieces_root c =
    (let (r, c) = load_layers H fault pieces_root c
     in (rbind r (\<lambda>ls. Inr (case ls of Some (l # _) \<Rightarrow> Some l | _ \<Rightarrow> None)), c))"

definition serve_hash_request ::
  "(bytes \<Rightarrow> bytes) \<Rightarrow> string option \<Rightarrow> bytes \<Rightarrow> u32 \<Rightarrow> u32 \<Rightarrow> u32 \<Rightarrow> u32 \<Rightarrow> PieceLayersDiskCache \<Rightarrow>
    bytes option \<times> PieceLayersDiskCache" where
  "serve_hash_request H fault pieces_root base_layer index len proof_layers c =
    (case load_layers H fault pieces_root c of
       (Inr (Some ls), c) \<Rightarrow>
         (case generate_hashes_response_from_layers ls base_layer index len proof_layers of
            Some resp \<Rightarrow> (Some resp, c\<lparr>hash_requests_served := hash_requests_served c + 1,
                                     bytes_served := bytes_served c + length resp\<rparr>)
          | None \<Rightarrow> (None, c))
     | (_, c) \<Rightarrow> (None, c))"

text \<open>\<open>path.extension() == "layers"\<close>: a name that is only an extension has none.\<close>

definition is_layers_file :: "string \<Rightarrow> bool" where
  "is_layers_file path \<longleftrightarrow> 7 < length path \<and> drop (length path - 7) path = ''.layers''"

fun prune_loop ::
  "(string \<Rightarrow> bool) \<Rightarrow> nat \<Rightarrow> nat \<Rightarrow> nat \<Rightarrow> (string \<times> bytes \<times> nat) list \<Rightarrow> nat \<Rightarrow> nat \<Rightarrow>
    (string \<times> bytes \<times> nat) list \<Rightarrow> nat \<times> (string \<times> bytes \<times> nat) list" where
  "prune_loop removable max_files max_bytes total_count [] total_size pruned files = (pruned, files)"
| "prune_loop removable max_files max_bytes total_count ((path, data, modified) # entries) total_size pruned files =
    (if max_files < total_count - pruned \<or> max_bytes < total_size
     then prune_loop removable max_files max_bytes total_count entries (total_size - length data) (pruned + 1)
            (remove_file removable path files)
     else (pruned, files))"

definition plc_prune ::
  "(string \<Rightarrow> bool) \<Rightarrow> nat \<Rightarrow> nat \<Rightarrow> PieceLayersDiskCache \<Rightarrow> nat \<times> PieceLayersDiskCache" where
  "plc_prune removable max_files max_bytes c =
    (let entries = filter (\<lambda>e. is_layers_file (fst e)) (cache_files c);
         total_size = sum_list (map (\<lambda>(_, data, _). length data) entries);
         (pruned, files) = prune_loop removable max_files max_bytes (length entries)
           (sort_key (\<lambda>(_, _, modified). modified) entries) total_size 0 (cache_files c)
     in (pruned, c\<lparr>cache_files := files\<rparr>))"

definition plc_clear :: "(string \<Rightarrow> bool) \<Rightarrow> PieceLayersDiskCache \<Rightarrow> PieceLayersDiskCache" where
  "plc_clear removable c = c\<lparr>memory_tier := tier_clear (memory_tier c),
    cache_files := filter (\<lambda>e. \<not> (is_layers_file (fst e) \<and> removable (fst e))) (cache_files c)\<rparr>"

section \<open>The memory tier is bounded\<close>

definition weight :: "(bytes \<times> layers) list \<Rightarrow> nat" where
  "weight m = sum_list (map (hashes_in_layers \<circ> snd) m)"

definition tier_inv :: "MemoryTier \<Rightarrow> bool" where
  "tier_inv t \<longleftrightarrow> distinct (map fst (layers_by_root t)) \<and> distinct (lru_order t)
    \<and> set (lru_order t) = fst ` set (layers_by_root t) \<and> total_hashes t = weight (layers_by_root t)
    \<and> (total_hashes t \<le> max_hashes t \<or> length (lru_order t) = 1)"

lemma delete_key_set: "fst ` set (AList.delete r m) = fst ` set m - {r}"
  by (force simp: AList.delete_eq)

lemma weight_delete:
  "distinct (map fst m) \<Longrightarrow> map_of m r = Some old \<Longrightarrow>
    weight (AList.delete r m) = weight m - hashes_in_layers old \<and> hashes_in_layers old \<le> weight m"
proof (induction m)
  case (Cons e m)
  have "AList.delete r m = m" if "r \<notin> fst ` set m"
    using that by (simp add: delete_id)
  then show ?case using Cons by (cases e) (auto simp: weight_def split: if_splits)
qed simp

lemma weight_update:
  "distinct (map fst m) \<Longrightarrow> weight (AList.update r ls m) =
    (case map_of m r of None \<Rightarrow> weight m | Some old \<Rightarrow> weight m - hashes_in_layers old) + hashes_in_layers ls"
proof (induction m)
  case (Cons e m)
  have "hashes_in_layers old \<le> weight m" if "map_of m r = Some old" for old
    using weight_delete [OF _ that] Cons.prems by simp
  then show ?case using Cons by (cases e) (auto simp: weight_def split: option.splits)
qed (simp add: weight_def)

text \<open>What the eviction loop keeps, and that it frees room or empties the tier.\<close>

lemma evict_oldest_inv:
  assumes "evict_oldest n mx lru m held ev = (lru', m', held', ev')"
    and "distinct (map fst m)" "distinct lru" "set lru = fst ` set m" "held = weight m"
  shows "distinct (map fst m') \<and> distinct lru' \<and> set lru' = fst ` set m' \<and> held' = weight m'
    \<and> (held' + n \<le> mx \<or> lru' = [])"
  using assms
proof (induction n mx lru m held ev rule: evict_oldest.induct)
  case (2 n mx r rs m held ev)
  show ?case
  proof (cases "mx < held + n")
    case True
    obtain old where old: "map_of m r = Some old"
      using 2(6) by (metis list.set_intros(1) map_of_eq_None_iff not_None_eq)
    have "set rs = fst ` set (AList.delete r m)" using 2(5,6) by (auto simp: delete_key_set)
    then show ?thesis
      using 2(2) [OF True old] 2(3-7) True old weight_delete [OF 2(4) old] by (auto simp: distinct_delete)
  next
    case False
    then show ?thesis using 2(3-7) by auto
  qed
qed simp

lemma evict_oldest_keeps:
  "evict_oldest n mx lru m held ev = (lru', m', held', ev') \<Longrightarrow> map_of m' r = Some ls \<Longrightarrow> map_of m r = Some ls"
  by (induction n mx lru m held ev rule: evict_oldest.induct)
    (auto simp: delete_conv' split: if_splits option.splits)

lemma tier_inv_new: "tier_inv (tier_new mx)"
  by (simp add: tier_inv_def tier_new_def weight_def)

lemma tier_inv_get:
  assumes "tier_inv t"
  shows "tier_inv (snd (tier_get r t))"
proof (cases "map_of (layers_by_root t) r")
  case None
  then show ?thesis using assms by (simp add: tier_get_def)
next
  case (Some ls)
  then have "r \<in> set (lru_order t)" using assms by (force simp: tier_inv_def dest: map_of_SomeD)
  moreover from this have "0 < length (lru_order t)" by (cases "lru_order t") auto
  ultimately show ?thesis
    using assms Some by (auto simp: tier_get_def tier_inv_def length_remove1)
qed

lemma tier_inv_insert:
  assumes "tier_inv t"
  shows "tier_inv (fst (tier_insert r ls t))"
proof -
  obtain lru m held ev where e: "evict_oldest (hashes_in_layers ls) (max_hashes t) (lru_order t) (layers_by_root t)
      (total_hashes t) 0 = (lru, m, held, ev)" by (metis prod_cases4)
  have inv: "distinct (map fst m)" "distinct lru" "set lru = fst ` set m" "held = weight m"
      "held + hashes_in_layers ls \<le> max_hashes t \<or> lru = []"
    using evict_oldest_inv [OF e] assms by (auto simp: tier_inv_def)
  show ?thesis
  proof (cases "map_of m r")
    case None
    then have "r \<notin> set lru" using inv(3) by (simp add: map_of_eq_None_iff)
    then show ?thesis
      using inv None weight_update [OF inv(1), of r ls]
      by (auto simp: tier_inv_def tier_insert_def e distinct_update dom_update)
  next
    case (Some old)
    then have "r \<in> set lru" using inv(3) by (force dest: map_of_SomeD)
    then show ?thesis
      using inv Some weight_update [OF inv(1), of r ls]
      by (auto simp: tier_inv_def tier_insert_def e distinct_update dom_update)
  qed
qed

lemma tier_inv_remove: "tier_inv t \<Longrightarrow> tier_inv (snd (tier_remove r t))"
proof (cases "map_of (layers_by_root t) r")
  case None
  assume "tier_inv t"
  moreover then have "remove1 r (lru_order t) = lru_order t"
    using None by (simp add: tier_inv_def map_of_eq_None_iff remove1_idem)
  ultimately show ?thesis using None by (simp add: tier_remove_def)
next
  case (Some ls)
  assume inv: "tier_inv t"
  then have d: "distinct (map fst (layers_by_root t))" by (simp add: tier_inv_def)
  have "set (remove1 r (lru_order t)) = fst ` set (AList.delete r (layers_by_root t))"
    using inv by (simp add: tier_inv_def delete_key_set)
  moreover have "r \<in> set (lru_order t)" using inv Some by (force simp: tier_inv_def dest: map_of_SomeD)
  then have "weight (AList.delete r (layers_by_root t)) \<le> max_hashes t \<or> length (lru_order t) = 1"
    using inv weight_delete [OF d Some] by (auto simp: tier_inv_def)
  moreover have "weight (AList.delete r (layers_by_root t)) \<le> max_hashes t" if "length (lru_order t) = 1"
  proof -
    have "remove1 r (lru_order t) = []"
      using that \<open>r \<in> set (lru_order t)\<close> by (cases "lru_order t") auto
    then have "AList.delete r (layers_by_root t) = []" using calculation(1) by simp
    then show ?thesis by (simp add: weight_def)
  qed
  ultimately show ?thesis
    using inv Some weight_delete [OF d Some] by (auto simp: tier_inv_def tier_remove_def distinct_delete)
qed

section \<open>The file format round trip\<close>

definition wf_layers :: "layers \<Rightarrow> bool" where
  "wf_layers ls \<longleftrightarrow> length ls < 2 ^ 32 \<and> (\<forall>l\<in>set ls. length l < 2 ^ 32 \<and> (\<forall>h\<in>set l. length h = 32))"

lemma concat_slices:
  "\<forall>h\<in>set l. length h = 32 \<Longrightarrow>
    map (\<lambda>i. bslice (pre @ concat l @ post) (length pre + i * 32) (length pre + i * 32 + 32)) [0..<length l] = l"
proof (induction l arbitrary: pre)
  case (Cons h l)
  have "bslice (pre @ h @ concat l @ post) (length pre) (length pre + 32) = h"
    using Cons.prems by (intro bslice_append_mid) simp_all
  then show ?case
    using Cons.IH [of "pre @ h"] Cons.prems by (simp add: map_upt_Suc add.assoc [symmetric] del: upt_Suc)
qed simp

lemma length_concat_32: "\<forall>h\<in>set l. length h = 32 \<Longrightarrow> length (concat l) = length l * 32"
  by (induction l) simp_all

lemma u32_count: "n < 2 ^ 32 \<Longrightarrow> unat (of_nat n :: u32) = n"
  by (simp add: unat_of_nat take_bit_nat_eq_self)

lemma decode_encode_bodies:
  assumes "\<forall>l\<in>set ls. length l < 2 ^ 32 \<and> (\<forall>h\<in>set l. length h = 32)"
    and "length pre + length (encode_bodies idx ls) \<le> payload_len"
  shows "decode_bodies (pre @ encode_bodies idx ls @ post) payload_len (length ls) (length pre) = Inr ls"
  using assms
proof (induction ls arbitrary: pre idx)
  case (Cons l ls)
  let ?head = "u32_to_be_bytes (of_nat idx) @ u32_to_be_bytes (of_nat (length l))"
  let ?rest = "encode_bodies (idx + 1) ls @ post"
  let ?data = "pre @ encode_bodies idx (l # ls) @ post"
  have data: "?data = (pre @ u32_to_be_bytes (of_nat idx)) @ u32_to_be_bytes (of_nat (length l)) @ concat l @ ?rest"
    by simp
  have len: "length (concat l) = length l * 32" using Cons.prems(1) by (simp add: length_concat_32)
  have "bslice ?data (length pre + 4) (length pre + 8) = u32_to_be_bytes (of_nat (length l))"
    unfolding data by (rule bslice_append_mid) simp_all
  then have count: "unat (from_be (bslice ?data (length pre + 4) (length pre + 8)) :: u32) = length l"
    using Cons.prems(1) by (simp add: u32_count)
  have hashes: "map (\<lambda>i. bslice ?data (length pre + 8 + i * 32) (length pre + 8 + i * 32 + 32)) [0..<length l] = l"
    using concat_slices [of l "pre @ ?head" ?rest] Cons.prems(1) by simp
  have "decode_bodies ?data payload_len (length ls) (length pre + 8 + length l * 32) = Inr ls"
    using Cons.IH [of "pre @ ?head @ concat l" "idx + 1"] Cons.prems len by (simp add: add.assoc)
  then show ?case using Cons.prems(2) count hashes len by (simp add: Let_def del: encode_bodies.simps(2)) simp
qed simp

lemma decode_encode_layers:
  assumes H: "\<And>x. length (H x) = 32" and "length root = 32" and ls: "wf_layers ls"
  shows "decode_layers H (encode_layers H root ls) = Inr (root, ls)"
proof -
  define buf where "buf = encode_payload root ls"
  define data where "data = encode_layers H root ls"
  let ?n = "u32_to_be_bytes (of_nat (length ls))" and ?t = "u64_to_be_bytes (of_nat (hashes_in_layers ls))"
  let ?pre = "BT2L_MAGIC @ u16_to_be_bytes BT2L_VERSION @ [0, 0] @ root @ ?n @ ?t"
  have magic: "length BT2L_MAGIC = 4" by (simp add: BT2L_MAGIC_def bytes_of_string_def)
  have pre: "length ?pre = 52" using assms(2) magic by simp
  have buf: "buf = ?pre @ encode_bodies 0 ls" by (simp add: buf_def encode_payload_def)
  have data: "data = buf @ H buf" by (simp add: data_def encode_layers_def buf_def Let_def)
  have len: "length data = length buf + 32" "52 \<le> length buf" using H pre by (simp_all add: data buf)
  have "bslice data 4 6 = u16_to_be_bytes BT2L_VERSION"
    unfolding data buf append_assoc by (rule bslice_append_mid) (simp_all add: magic)
  then have version: "from_be (bslice data 4 6) = BT2L_VERSION" by simp
  have root: "bslice data 8 40 = root"
    using bslice_append_mid [of 8 "BT2L_MAGIC @ u16_to_be_bytes BT2L_VERSION @ [0, 0]" 40 root
        "?n @ ?t @ encode_bodies 0 ls @ H buf"] magic assms(2) by (simp add: data buf)
  have "bslice data 40 44 = ?n"
    using bslice_append_mid [of 40 "BT2L_MAGIC @ u16_to_be_bytes BT2L_VERSION @ [0, 0] @ root" 44 ?n
        "?t @ encode_bodies 0 ls @ H buf"] magic assms(2) by (simp add: data buf)
  then have num: "unat (from_be (bslice data 40 44) :: u32) = length ls"
    using ls by (simp add: u32_count wf_layers_def)
  have bodies: "decode_bodies data (length buf) (length ls) 52 = Inr ls"
    using decode_encode_bodies [of ls ?pre 0 "length buf" "H buf"] ls magic assms(2) by (simp add: wf_layers_def data buf)
  have "take 4 data = BT2L_MAGIC" by (simp add: data buf magic)
  then show ?thesis
    using len version root num bodies unfolding data_def [symmetric] decode_layers_def by (simp add: data)
qed

text \<open>
  \<open>encode_layers\<close>, \<open>decode_layers\<close>: Every layers file that the cache writes is read back as the
  root and the layers it was written from.
\<close>

theorem layers_file_roundtrip:
  assumes "\<And>x. length (H x) = 32" and "length root = 32" and "wf_layers ls"
  shows "decode_layers H (encode_layers H root ls) = Inr (root, ls)"
  using assms by (rule decode_encode_layers)

lemma layers_file_roundtrip_witness:
  "decode_layers toy_hash (encode_layers toy_hash (toy_hash [7]) [[toy_hash [1], toy_hash [2]], [toy_hash [7]]]) =
    Inr (toy_hash [7], [[toy_hash [1], toy_hash [2]], [toy_hash [7]]])"
  by (rule layers_file_roundtrip) (simp_all add: length_toy_hash wf_layers_def)

section \<open>Runs of the cache\<close>

text \<open>\<open>Restart\<close> is a new process over the same directory: the memory tier is lost, files are kept.\<close>

datatype CacheCall =
    Save SaveFault nat bytes layers
  | Load "string option" bytes
  | Serve "string option" bytes u32 u32 u32 u32
  | Remove "string \<Rightarrow> bool" bytes
  | Prune "string \<Rightarrow> bool" nat nat
  | Clear "string \<Rightarrow> bool"
  | Restart nat

fun plc_call :: "(bytes \<Rightarrow> bytes) \<Rightarrow> CacheCall \<Rightarrow> PieceLayersDiskCache \<Rightarrow> PieceLayersDiskCache" where
  "plc_call H (Save fault now root ls) c = snd (save_layers H fault now root ls c)"
| "plc_call H (Load fault root) c = snd (load_layers H fault root c)"
| "plc_call H (Serve fault root base index len proof_layers) c =
    snd (serve_hash_request H fault root base index len proof_layers c)"
| "plc_call H (Remove removable root) c = snd (plc_remove removable root c)"
| "plc_call H (Prune removable max_files max_bytes) c = snd (plc_prune removable max_files max_bytes c)"
| "plc_call H (Clear removable) c = plc_clear removable c"
| "plc_call H (Restart mb) c = plc_new (cache_files c) mb"

fun call_ok :: "CacheCall \<Rightarrow> bool" where
  "call_ok (Save fault now root ls) \<longleftrightarrow> length root = 32 \<and> wf_layers ls"
| "call_ok (Load fault root) \<longleftrightarrow> length root = 32"
| "call_ok (Serve fault root base index len proof_layers) \<longleftrightarrow> length root = 32"
| "call_ok (Remove removable root) \<longleftrightarrow> length root = 32"
| "call_ok call \<longleftrightarrow> True"

fun saved_by :: "CacheCall \<Rightarrow> (bytes \<times> layers) set" where
  "saved_by (Save fault now root ls) = {(root, ls)}"
| "saved_by call = {}"

definition saved :: "CacheCall list \<Rightarrow> (bytes \<times> layers) set" where
  "saved run = \<Union> (saved_by ` set run)"

lemma from_to_hex: "from_hex_loop (to_hex bs) = Some (Inr bs)"
  unfolding to_hex_def by (rule from_hex_loop_append [where dig = hex_digit, OF hex_digit_cases(1)])

lemma to_hex_inject: "to_hex a = to_hex b \<longleftrightarrow> a = b"
  by (metis from_to_hex option.inject sum.inject(2))

lemma path_inject [simp]: "path_for_root a = path_for_root b \<longleftrightarrow> a = b"
  unfolding path_for_root_def append_same_eq by (rule to_hex_inject)

lemma temp_path_differs [simp]: "temp_path_for_root a \<noteq> path_for_root b"
proof
  have 1: "last (temp_path_for_root a) = CHR ''p''" unfolding temp_path_for_root_def by simp
  have 2: "last (path_for_root b) = CHR ''s''" unfolding path_for_root_def by simp
  assume "temp_path_for_root a = path_for_root b"
  then show False using 1 unfolding \<open>temp_path_for_root a = path_for_root b\<close> 2 by simp
qed

lemmas path_differs_temp [simp] = temp_path_differs [symmetric]

lemma tier_insert_lookup:
  "map_of (layers_by_root (fst (tier_insert r ls t))) r' = Some ls' \<Longrightarrow>
    (if r' = r then ls' = ls else map_of (layers_by_root t) r' = Some ls')"
proof -
  obtain lru m held ev where e: "evict_oldest (hashes_in_layers ls) (max_hashes t) (lru_order t) (layers_by_root t)
      (total_hashes t) 0 = (lru, m, held, ev)" by (metis prod_cases4)
  assume "map_of (layers_by_root (fst (tier_insert r ls t))) r' = Some ls'"
  then have "map_of (AList.update r ls m) r' = Some ls'"
    by (simp add: tier_insert_def e split: option.splits)
  then show ?thesis using evict_oldest_keeps [OF e, of r'] by (auto simp: update_conv' split: if_splits)
qed

lemma tier_get_lookup [simp]:
  "fst (tier_get r t) = map_of (layers_by_root t) r" "layers_by_root (snd (tier_get r t)) = layers_by_root t"
  by (simp_all add: tier_get_def split: option.splits)

lemma tier_remove_lookup:
  "map_of (layers_by_root (snd (tier_remove r t))) r' = (if r' = r then None else map_of (layers_by_root t) r')"
  by (auto simp: tier_remove_def Let_def delete_conv' split: option.splits)

lemma plc_insert_simps [simp]:
  "cache_files (plc_insert r ls c) = cache_files c"
  "memory_tier (plc_insert r ls c) = fst (tier_insert r ls (memory_tier c))"
  by (simp_all add: plc_insert_def split: prod.splits)

lemma prune_loop_files:
  "map_of (snd (prune_loop removable mf mb tc entries ts pruned files)) p \<in> {None, map_of files p}"
proof (induction removable mf mb tc entries ts pruned files rule: prune_loop.induct)
  case (2 removable max_files max_bytes total_count path data modified entries total_size pruned files)
  have "map_of (remove_file removable path files) p \<in> {None, map_of files p}"
    by (simp add: remove_file_def delete_conv')
  then show ?case using 2 by auto
qed simp

lemma filter_files: "map_of (filter (\<lambda>e. P (fst e)) files) p = (if P p then map_of files p else None)"
  by (induction files) auto

text \<open>
  The invariant of a run: every layers file is the complete encoding of layers saved under its
  root, and the memory tier holds saved layers only.
\<close>

definition cache_inv :: "(bytes \<Rightarrow> bytes) \<Rightarrow> (bytes \<times> layers) set \<Rightarrow> PieceLayersDiskCache \<Rightarrow> bool" where
  "cache_inv H S c \<longleftrightarrow> (\<forall>(r, ls)\<in>S. length r = 32 \<and> wf_layers ls)
    \<and> (\<forall>r data time. map_of (cache_files c) (path_for_root r) = Some (data, time) \<longrightarrow>
        (\<exists>ls. (r, ls) \<in> S \<and> data = encode_layers H r ls))
    \<and> (\<forall>r ls. map_of (layers_by_root (memory_tier c)) r = Some ls \<longrightarrow> (r, ls) \<in> S)"

lemma load_layers_files [simp]: "cache_files (snd (load_layers H fault r c)) = cache_files c"
  by (auto simp: load_layers_def Let_def split: prod.splits option.splits sum.splits)

lemma cache_invD:
  assumes "cache_inv H S c"
  shows "(r, ls) \<in> S \<Longrightarrow> length r = 32 \<and> wf_layers ls"
    and "map_of (cache_files c) (path_for_root r) = Some (data, time) \<Longrightarrow>
      \<exists>ls. (r, ls) \<in> S \<and> data = encode_layers H r ls"
    and "map_of (layers_by_root (memory_tier c)) r = Some ls \<Longrightarrow> (r, ls) \<in> S"
  using assms unfolding cache_inv_def by blast+

lemma cache_inv_cong:
  assumes "cache_inv H S c"
    and "\<And>r. map_of (cache_files c') (path_for_root r) \<in> {None, map_of (cache_files c) (path_for_root r)}"
    and "\<And>r ls. map_of (layers_by_root (memory_tier c')) r = Some ls \<Longrightarrow> (r, ls) \<in> S"
  shows "cache_inv H S c'"
proof -
  have "\<exists>ls. (r, ls) \<in> S \<and> data = encode_layers H r ls"
    if "map_of (cache_files c') (path_for_root r) = Some (data, time)" for r data time
    using that assms(2) [of r] cache_invD(2) [OF assms(1), of r data time] by auto
  then show ?thesis using assms(1,3) unfolding cache_inv_def by blast
qed

lemma load_layers_spec:
  assumes H: "\<And>x. length (H x) = 32" and inv: "cache_inv H S c"
  shows "cache_inv H S (snd (load_layers H fault r c))"
    and "fst (load_layers H fault r c) = Inr None \<or>
      (\<exists>ls. fst (load_layers H fault r c) = Inr (Some ls) \<and> (r, ls) \<in> S) \<or>
      (\<exists>msg. fault = Some msg \<and> fst (load_layers H fault r c) = Inl (Io OtherKind msg))"
proof -
  let ?goal = "cache_inv H S (snd (load_layers H fault r c)) \<and>
     (fst (load_layers H fault r c) = Inr None \<or>
      (\<exists>ls. fst (load_layers H fault r c) = Inr (Some ls) \<and> (r, ls) \<in> S) \<or>
      (\<exists>msg. fault = Some msg \<and> fst (load_layers H fault r c) = Inl (Io OtherKind msg)))"
  obtain t where t: "tier_get r (memory_tier c) = (map_of (layers_by_root (memory_tier c)) r, t)"
      "layers_by_root t = layers_by_root (memory_tier c)"
    using tier_get_lookup [of r "memory_tier c"] by (metis prod.collapse)
  have keep: "cache_inv H S c'" if "cache_files c' = cache_files c" "memory_tier c' = t" for c'
    by (rule cache_inv_cong [OF inv]) (use that t(2) cache_invD(3) [OF inv] in auto)
  have ?goal
  proof (cases "map_of (layers_by_root (memory_tier c)) r")
    case (Some ls)
    then show ?thesis using t(1) keep cache_invD(3) [OF inv Some] by (simp add: load_layers_def)
  next
    case None
    show ?thesis
    proof (cases "map_of (cache_files c) (path_for_root r)")
      case None': None
      then show ?thesis using t(1) None keep by (simp add: load_layers_def)
    next
      case (Some f)
      obtain data time where f: "f = (data, time)" by (cases f)
      obtain ls where ls: "(r, ls) \<in> S" "data = encode_layers H r ls"
        using cache_invD(2) [OF inv, of r data time] Some f by auto
      have dec: "decode_layers H data = Inr (r, ls)"
        using decode_encode_layers [OF H, of r ls] cache_invD(1) [OF inv ls(1)] ls(2) by simp
      have "(r', ls') \<in> S" if "map_of (layers_by_root (fst (tier_insert r ls t))) r' = Some ls'" for r' ls'
        using tier_insert_lookup [OF that] ls(1) cache_invD(3) [OF inv, of r' ls'] t(2) by (auto split: if_splits)
      then have "cache_inv H S (plc_insert r ls c')" if "cache_files c' = cache_files c" "memory_tier c' = t" for c'
        using that by (intro cache_inv_cong [OF inv]) simp_all
      then show ?thesis
        using t(1) None Some f dec ls(1) keep by (cases fault) (simp_all add: load_layers_def)
    qed
  qed
  then show "cache_inv H S (snd (load_layers H fault r c))"
    and "fst (load_layers H fault r c) = Inr None \<or>
      (\<exists>ls. fst (load_layers H fault r c) = Inr (Some ls) \<and> (r, ls) \<in> S) \<or>
      (\<exists>msg. fault = Some msg \<and> fst (load_layers H fault r c) = Inl (Io OtherKind msg))"
    by blast+
qed

lemma serve_state:
  "memory_tier (snd (serve_hash_request H fault r b i n p c)) = memory_tier (snd (load_layers H fault r c))"
  "cache_files (snd (serve_hash_request H fault r b i n p c)) = cache_files (snd (load_layers H fault r c))"
  by (auto simp: serve_hash_request_def simp del: load_layers_files split: prod.splits sum.splits option.splits)

lemma save_layers_files:
  "map_of (cache_files (snd (save_layers H fault now r ls c))) (path_for_root r') =
    (if r' = r \<and> ls \<noteq> [] \<and> fault = NoFault then Some (encode_layers H r ls, now)
     else map_of (cache_files c) (path_for_root r'))"
  by (cases fault) (auto simp: save_layers_def Let_def update_conv' delete_conv' split: if_splits)

lemma save_layers_tier:
  "memory_tier (snd (save_layers H fault now r ls c)) =
    (if ls = [] then memory_tier c else fst (tier_insert r ls (memory_tier c)))"
  by (cases fault) (simp_all add: save_layers_def Let_def)

lemma cache_inv_save:
  assumes inv: "cache_inv H S c" and ok: "length r = 32" "wf_layers ls"
  shows "cache_inv H (insert (r, ls) S) (snd (save_layers H fault now r ls c))"
  unfolding cache_inv_def
proof (intro conjI allI impI)
  show "\<forall>(r, ls)\<in>insert (r, ls) S. length r = 32 \<and> wf_layers ls" using ok cache_invD(1) [OF inv] by auto
  fix r' data time
  assume "map_of (cache_files (snd (save_layers H fault now r ls c))) (path_for_root r') = Some (data, time)"
  then show "\<exists>ls'. (r', ls') \<in> insert (r, ls) S \<and> data = encode_layers H r' ls'"
    using cache_invD(2) [OF inv, of r' data time] unfolding save_layers_files by (auto split: if_splits)
next
  fix r' ls'
  assume "map_of (layers_by_root (memory_tier (snd (save_layers H fault now r ls c)))) r' = Some ls'"
  then show "(r', ls') \<in> insert (r, ls) S"
    using tier_insert_lookup [of r ls "memory_tier c" r' ls'] cache_invD(3) [OF inv, of r' ls']
    unfolding save_layers_tier by (auto split: if_splits)
qed

lemma plc_remove_state:
  "memory_tier (snd (plc_remove removable r c)) = snd (tier_remove r (memory_tier c))"
  "map_of (cache_files (snd (plc_remove removable r c))) p \<in> {None, map_of (cache_files c) p}"
  by (auto simp: plc_remove_def Let_def remove_file_def delete_conv' split: prod.splits)

lemma plc_prune_state:
  "memory_tier (snd (plc_prune removable mf mb c)) = memory_tier c"
  "map_of (cache_files (snd (plc_prune removable mf mb c))) p \<in> {None, map_of (cache_files c) p}"
  using prune_loop_files [of removable mf mb _ _ _ _ "cache_files c" p]
  by (auto simp: plc_prune_def Let_def split: prod.splits) (metis snd_conv)

lemma cache_inv_call:
  assumes H: "\<And>x. length (H x) = 32" and inv: "cache_inv H S c" and ok: "call_ok call"
  shows "cache_inv H (S \<union> saved_by call) (plc_call H call c)"
proof (cases call)
  case (Save fault now r ls)
  then show ?thesis using cache_inv_save [OF inv] ok by simp
next
  case (Load fault r)
  then show ?thesis using load_layers_spec(1) [OF H inv] by simp
next
  case (Serve fault r b i n p)
  have "cache_inv H S (snd (serve_hash_request H fault r b i n p c))"
    by (rule cache_inv_cong [OF load_layers_spec(1) [OF H inv, of fault r]])
      (simp_all add: serve_state cache_invD(3) [OF load_layers_spec(1) [OF H inv, of fault r]])
  then show ?thesis using Serve by simp
next
  case (Remove removable r)
  have "cache_inv H S (snd (plc_remove removable r c))"
    by (rule cache_inv_cong [OF inv plc_remove_state(2)])
      (use cache_invD(3) [OF inv] in \<open>auto simp: plc_remove_state(1) tier_remove_lookup split: if_splits\<close>)
  then show ?thesis using Remove by simp
next
  case (Prune removable mf mb)
  have "cache_inv H S (snd (plc_prune removable mf mb c))"
    by (rule cache_inv_cong [OF inv plc_prune_state(2)]) (use cache_invD(3) [OF inv] in \<open>simp add: plc_prune_state(1)\<close>)
  then show ?thesis using Prune by simp
next
  case (Clear removable)
  have "map_of (cache_files (plc_clear removable c)) p =
      (if \<not> (is_layers_file p \<and> removable p) then map_of (cache_files c) p else None)" for p
    unfolding plc_clear_def using filter_files [of "\<lambda>p. \<not> (is_layers_file p \<and> removable p)" "cache_files c" p] by simp
  then have "cache_inv H S (plc_clear removable c)"
    by (intro cache_inv_cong [OF inv]) (simp_all add: plc_clear_def tier_clear_def)
  then show ?thesis using Clear by simp
next
  case (Restart mb)
  have "cache_inv H S (plc_new (cache_files c) mb)"
    by (rule cache_inv_cong [OF inv]) (simp_all add: plc_new_def tier_new_def)
  then show ?thesis using Restart by simp
qed

lemma cache_inv_run:
  assumes H: "\<And>x. length (H x) = 32" and "list_all call_ok run" and "cache_inv H S c"
  shows "cache_inv H (S \<union> saved run) (fold (plc_call H) run c)"
  using assms(2,3)
proof (induction run arbitrary: S c)
  case (Cons call run)
  then show ?case
    using Cons.IH [of "S \<union> saved_by call" "plc_call H call c"] cache_inv_call [OF H, where S = S and c = c and call = call]
    by (simp add: saved_def Un_assoc)
qed (simp add: saved_def)

text \<open>
  C28 (\<open>PieceLayersDiskCache\<close>). In every sequence of saves, loads, served requests, removals, prunings,
  clearings and restarts, with file system faults at any point of a save, a load of a root never
  fails on the contents of a file and yields nothing or layers that were saved under that root.
\<close>

theorem layers_cache_sound:
  assumes "\<And>x. length (H x) = 32" and "list_all call_ok run"
    and "fst (load_layers H None root (fold (plc_call H) run (plc_new [] mb))) = res"
  shows "res = Inr None \<or> (\<exists>ls. res = Inr (Some ls) \<and> (root, ls) \<in> saved run)"
proof -
  have "cache_inv H {} (plc_new [] mb)" by (simp add: cache_inv_def plc_new_def tier_new_def)
  from cache_inv_run [OF assms(1,2) this] show ?thesis
    using load_layers_spec(2) [OF assms(1), where fault = None and r = root] assms(3) by fastforce
qed

lemma layers_cache_sound_witness:
  "fst (load_layers toy_hash None (toy_hash [7]) (fold (plc_call toy_hash)
      [Save (WriteFails 60 ''disk full'') 5 (toy_hash [7]) [[toy_hash [7]]], Restart 1] (plc_new [] 1))) = Inr None \<or>
    (\<exists>ls. fst (load_layers toy_hash None (toy_hash [7]) (fold (plc_call toy_hash)
      [Save (WriteFails 60 ''disk full'') 5 (toy_hash [7]) [[toy_hash [7]]], Restart 1] (plc_new [] 1))) = Inr (Some ls)
      \<and> (toy_hash [7], ls) \<in> saved [Save (WriteFails 60 ''disk full'') 5 (toy_hash [7]) [[toy_hash [7]]], Restart 1])"
  by (rule layers_cache_sound [OF length_toy_hash _ refl]) (simp add: length_toy_hash wf_layers_def)

text \<open>The calls after which saved layers of a root must still be there.\<close>

fun keeps :: "bytes \<Rightarrow> CacheCall \<Rightarrow> bool" where
  "keeps root (Save fault now r ls) \<longleftrightarrow> r \<noteq> root"
| "keeps root (Remove removable r) \<longleftrightarrow> r \<noteq> root"
| "keeps root (Prune removable mf mb) \<longleftrightarrow> False"
| "keeps root (Clear removable) \<longleftrightarrow> False"
| "keeps root call \<longleftrightarrow> True"

definition holds :: "(bytes \<Rightarrow> bytes) \<Rightarrow> bytes \<Rightarrow> layers \<Rightarrow> PieceLayersDiskCache \<Rightarrow> bool" where
  "holds H root ls c \<longleftrightarrow> (\<exists>time. map_of (cache_files c) (path_for_root root) = Some (encode_layers H root ls, time))
    \<and> map_of (layers_by_root (memory_tier c)) root \<in> {None, Some ls}"

lemma tier_insert_keeps:
  assumes "map_of (layers_by_root t) root \<in> {None, Some ls}" and "r = root \<Longrightarrow> ls' = ls"
  shows "map_of (layers_by_root (fst (tier_insert r ls' t))) root \<in> {None, Some ls}"
  using assms tier_insert_lookup [of r ls' t root]
  by (cases "map_of (layers_by_root (fst (tier_insert r ls' t))) root") (auto split: if_splits)

lemma load_layers_holds:
  assumes H: "\<And>x. length (H x) = 32" and "length root = 32" "wf_layers ls" and h: "holds H root ls c"
  shows "fst (load_layers H None root c) = Inr (Some ls)"
proof -
  have dec: "decode_layers H (encode_layers H root ls) = Inr (root, ls)"
    by (rule decode_encode_layers [OF H assms(2,3)])
  obtain time where f: "map_of (cache_files c) (path_for_root root) = Some (encode_layers H root ls, time)"
    using h by (auto simp: holds_def)
  show ?thesis
    using h f dec by (cases "map_of (layers_by_root (memory_tier c)) root") (auto simp: holds_def load_layers_def tier_get_def)
qed

lemma load_layers_tier:
  assumes "cache_inv H S c" and H: "\<And>x. length (H x) = 32"
  shows "layers_by_root (memory_tier (snd (load_layers H fault r c))) = layers_by_root (memory_tier c) \<or>
    (\<exists>ls time. map_of (cache_files c) (path_for_root r) = Some (encode_layers H r ls, time) \<and> (r, ls) \<in> S \<and>
      layers_by_root (memory_tier (snd (load_layers H fault r c))) =
        layers_by_root (fst (tier_insert r ls (memory_tier c))))"
proof (cases "map_of (layers_by_root (memory_tier c)) r = None \<and> fault = None \<and>
    map_of (cache_files c) (path_for_root r) \<noteq> None")
  case True
  then obtain data time where f: "map_of (cache_files c) (path_for_root r) = Some (data, time)" by auto
  obtain ls where ls: "(r, ls) \<in> S" "data = encode_layers H r ls" using cache_invD(2) [OF assms(1) f] by auto
  have "decode_layers H data = Inr (r, ls)"
    using decode_encode_layers [OF H, of r ls] cache_invD(1) [OF assms(1) ls(1)] ls(2) by simp
  then show ?thesis using True f ls by (auto simp: load_layers_def tier_get_def)
next
  case False
  then show ?thesis
    by (auto simp: load_layers_def tier_get_def Let_def split: option.splits)
qed

lemma encode_layers_inject:
  assumes "\<And>x. length (H x) = 32" "length root = 32" "wf_layers ls" "wf_layers ls'"
    and "encode_layers H root ls = encode_layers H root ls'"
  shows "ls = ls'"
proof -
  have "decode_layers H (encode_layers H root ls) = Inr (root, ls)" by (rule decode_encode_layers) (fact assms)+
  moreover have "decode_layers H (encode_layers H root ls') = Inr (root, ls')"
    by (rule decode_encode_layers) (fact assms)+
  ultimately show ?thesis unfolding assms(5) by simp
qed

lemma holds_load:
  assumes H: "\<And>x. length (H x) = 32" and inv: "cache_inv H S c" and "length root = 32" "wf_layers ls"
    and h: "holds H root ls c"
  shows "holds H root ls (snd (load_layers H fault r c))"
proof -
  have t: "map_of (layers_by_root (memory_tier c)) root \<in> {None, Some ls}" using h by (simp add: holds_def)
  have "map_of (layers_by_root (memory_tier (snd (load_layers H fault r c)))) root \<in> {None, Some ls}"
    using load_layers_tier [OF inv H, of fault r]
  proof (elim disjE exE conjE)
    fix ls' time
    assume f: "map_of (cache_files c) (path_for_root r) = Some (encode_layers H r ls', time)" "(r, ls') \<in> S"
      and eq: "layers_by_root (memory_tier (snd (load_layers H fault r c))) =
        layers_by_root (fst (tier_insert r ls' (memory_tier c)))"
    have "ls' = ls" if "r = root"
      using encode_layers_inject [OF H assms(3) _ assms(4), of ls'] cache_invD(1) [OF inv f(2)] f(1) h that
      by (auto simp: holds_def)
    then show ?thesis using tier_insert_keeps [OF t] eq by simp
  qed (use t in simp)
  then show ?thesis using h by (simp add: holds_def)
qed

lemma holds_call:
  assumes H: "\<And>x. length (H x) = 32" and inv: "cache_inv H S c" and root: "length root = 32" "wf_layers ls"
    and h: "holds H root ls c" and k: "keeps root call"
  shows "holds H root ls (plc_call H call c)"
proof (cases call)
  case (Save fault now r ls')
  then have "map_of (layers_by_root (memory_tier (snd (save_layers H fault now r ls' c)))) root \<in> {None, Some ls}"
    using h k tier_insert_keeps [of "memory_tier c" root ls r ls'] by (simp add: save_layers_tier holds_def)
  then show ?thesis using Save h k by (simp add: holds_def save_layers_files)
next
  case (Load fault r)
  then show ?thesis using holds_load [OF H inv root h] by simp
next
  case (Serve fault r b i n p)
  then show ?thesis using holds_load [OF H inv root h, of fault r] by (simp add: holds_def serve_state)
next
  case (Remove removable r)
  then have "map_of (cache_files (snd (plc_remove removable r c))) (path_for_root root) =
      map_of (cache_files c) (path_for_root root)"
    using k by (auto simp: plc_remove_def Let_def remove_file_def delete_conv' split: prod.splits)
  then show ?thesis using Remove h k by (simp add: holds_def plc_remove_state(1) tier_remove_lookup)
next
  case (Restart mb)
  then show ?thesis using h by (simp add: holds_def plc_new_def tier_new_def)
qed (use k in simp_all)

lemma holds_run:
  assumes H: "\<And>x. length (H x) = 32" and inv: "cache_inv H S c" and root: "length root = 32" "wf_layers ls"
    and h: "holds H root ls c" and k: "list_all (keeps root) run" "list_all call_ok run"
  shows "holds H root ls (fold (plc_call H) run c)"
  using k inv h
proof (induction run arbitrary: S c)
  case (Cons call run)
  then show ?case
    using Cons.IH [where S = "S \<union> saved_by call" and c = "plc_call H call c"]
      cache_inv_call [where H = H and S = S and c = c and call = call, OF H]
      holds_call [OF H _ root, where S = S and c = c and call = call] by simp
qed simp

text \<open>
  C29 (\<open>save_layers\<close>, \<open>load_layers\<close>). Layers that were saved without a fault are what a load of their
  root returns, whatever was evicted from memory and however often the process restarted since,
  until they are saved again, removed, pruned or cleared.
\<close>

theorem layers_cache_durable:
  assumes "\<And>x. length (H x) = 32" and "list_all call_ok (before @ after)"
    and "length root = 32" "wf_layers ls" "ls \<noteq> []" and "list_all (keeps root) after"
  shows "fst (load_layers H None root
      (fold (plc_call H) (before @ Save NoFault now root ls # after) (plc_new [] mb))) = Inr (Some ls)"
proof -
  let ?c = "fold (plc_call H) before (plc_new [] mb)" and ?S = "{} \<union> saved before"
  have "cache_inv H {} (plc_new [] mb)" by (simp add: cache_inv_def plc_new_def tier_new_def)
  then have inv: "cache_inv H ?S ?c" using cache_inv_run [where H = H and run = before and S = "{}" and c = "plc_new [] mb", OF assms(1)] assms(2) by simp
  then have inv': "cache_inv H (insert (root, ls) ?S) (plc_call H (Save NoFault now root ls) ?c)"
    using cache_inv_save [OF inv assms(3,4)] by simp
  have "map_of (layers_by_root (fst (tier_insert root ls (memory_tier ?c)))) root \<in> {None, Some ls}"
    using tier_insert_lookup [of root ls "memory_tier ?c" root] by (cases "map_of (layers_by_root
      (fst (tier_insert root ls (memory_tier ?c)))) root") auto
  then have "holds H root ls (plc_call H (Save NoFault now root ls) ?c)"
    using assms(5) by (simp add: holds_def save_layers_files save_layers_tier)
  then have "holds H root ls (fold (plc_call H) after (plc_call H (Save NoFault now root ls) ?c))"
    using holds_run [OF assms(1) inv' assms(3,4)] assms(2,6) by simp
  then show ?thesis using load_layers_holds [OF assms(1,3,4)] by simp
qed

lemma layers_cache_durable_witness:
  "fst (load_layers toy_hash None (toy_hash [7]) (fold (plc_call toy_hash)
      ([] @ Save NoFault 5 (toy_hash [7]) [[toy_hash [7]]] #
        [Restart 1, Save (RenameFails ''busy'') 6 (toy_hash [8]) [[toy_hash [8]]]]) (plc_new [] 1))) =
    Inr (Some [[toy_hash [7]]])"
proof (rule layers_cache_durable [OF length_toy_hash])
  have "toy_hash [8] ! 1 \<noteq> toy_hash [7] ! 1" by (simp add: toy_hash_def)
  then have "toy_hash [8] \<noteq> toy_hash [7]" by metis
  then show "list_all (keeps (toy_hash [7])) [Restart 1, Save (RenameFails ''busy'') 6 (toy_hash [8]) [[toy_hash [8]]]]"
    by simp
qed (simp_all add: length_toy_hash wf_layers_def)

text \<open>
  C30 (\<open>MemoryTier::insert\<close>). In every run the memory tier counts its hashes exactly and holds at most
  \<open>max_hashes\<close> of them, except that a single tree larger than the limit is kept alone; its queue
  lists each cached root once.
\<close>

theorem memory_tier_bounded:
  "tier_inv (memory_tier (fold (plc_call H) run (plc_new files mb)))"
proof -
  have load: "tier_inv (memory_tier (snd (load_layers H fault r c)))" if "tier_inv (memory_tier c)" for fault r c
    using tier_inv_get [OF that, of r] tier_inv_insert
    by (auto simp: load_layers_def Let_def split: prod.splits option.splits sum.splits)
  have "tier_inv (memory_tier (plc_call H call c))" if "tier_inv (memory_tier c)" for call c
  proof (cases call)
    case (Save fault now r ls)
    then show ?thesis using that tier_inv_insert by (simp add: save_layers_tier)
  next
    case (Prune removable mf mb)
    then show ?thesis using that by (simp add: plc_prune_state)
  qed (use that load tier_inv_remove tier_inv_new in
      \<open>simp_all add: serve_state plc_remove_state(1) plc_clear_def tier_clear_def plc_new_def tier_inv_def weight_def tier_new_def\<close>)
  then have "tier_inv (memory_tier (fold (plc_call H) run c))" if "tier_inv (memory_tier c)" for c
    using that by (induction run arbitrary: c) simp_all
  then show ?thesis by (simp add: plc_new_def tier_inv_new)
qed

end
