(* ===== verification/Piece_Buffer.thy ===== *)
theory Piece_Buffer
  imports Util "HOL-Library.Multiset"
begin

text \<open>
  \<open>PieceBuffer\<close> and \<open>BlockBufferPool\<close> (\<open>library/src/storage/piece_buffer.rs\<close>) and the block
  reservations of \<open>Assembler\<close> (\<open>library/src/storage/assembler.rs\<close>). An index out of range panics:
  the result is then \<open>None\<close>.
\<close>

section \<open>Piece buffers\<close>

record PieceBuffer =
  pb_number :: u32
  pb_length :: u32
  pb_present_blocks :: "u64 list"
  pb_block_sources :: "string option list"
  pb_block_count :: int

definition piece_block_count :: "nat \<Rightarrow> nat" where
  "piece_block_count len = (len + BLOCK_SIZE - 1) div BLOCK_SIZE"

definition pb_new :: "u32 \<Rightarrow> u32 \<Rightarrow> PieceBuffer" where
  "pb_new piece_number len =
     (let block_count = piece_block_count (unat len); word_count = (block_count + 63) div 64 in
      \<lparr>pb_number = piece_number, pb_length = len, pb_present_blocks = replicate word_count 0,
       pb_block_sources = replicate block_count None, pb_block_count = int block_count\<rparr>)"

definition pb_is_block_present :: "PieceBuffer \<Rightarrow> u32 \<Rightarrow> bool" where
  "pb_is_block_present pb block_number =
     (let word_idx = unat block_number div 64; bit_idx = unat block_number mod 64 in
      if word_idx < length (pb_present_blocks pb)
      then pb_present_blocks pb ! word_idx AND push_bit bit_idx 1 \<noteq> 0 else False)"

definition pb_add_block :: "PieceBuffer \<Rightarrow> u32 \<Rightarrow> string \<Rightarrow> PieceBuffer option" where
  "pb_add_block pb block_number source_ip =
     (if pb_is_block_present pb block_number then Some pb
      else
        let word_idx = unat block_number div 64; bit_idx = unat block_number mod 64 in
        if word_idx < length (pb_present_blocks pb) \<and> unat block_number < length (pb_block_sources pb)
        then Some (pb\<lparr>
          pb_present_blocks := (pb_present_blocks pb)[word_idx := pb_present_blocks pb ! word_idx OR push_bit bit_idx 1],
          pb_block_sources := (pb_block_sources pb)[unat block_number := Some source_ip],
          pb_block_count := pb_block_count pb - 1\<rparr>)
        else None)"

definition pb_all_blocks_there :: "PieceBuffer \<Rightarrow> bool" where
  "pb_all_blocks_there pb \<longleftrightarrow> pb_block_count pb = 0"

subsection \<open>The set of blocks that are there\<close>

abbreviation pb_blocks :: "PieceBuffer \<Rightarrow> nat" where
  "pb_blocks pb \<equiv> length (pb_block_sources pb)"

definition pb_has :: "PieceBuffer \<Rightarrow> nat \<Rightarrow> bool" where
  "pb_has pb i \<longleftrightarrow> i div 64 < length (pb_present_blocks pb) \<and> bit (pb_present_blocks pb ! (i div 64)) (i mod 64)"

text \<open>
  The invariant: one bit and one source entry per block, a source exactly for the blocks that
  are there, no bit beyond the last block, and the counter is the number of absent blocks.
\<close>

definition pb_wf :: "PieceBuffer \<Rightarrow> bool" where
  "pb_wf pb \<longleftrightarrow>
     length (pb_present_blocks pb) = (pb_blocks pb + 63) div 64 \<and>
     (\<forall>i. pb_has pb i \<longrightarrow> i < pb_blocks pb) \<and>
     (\<forall>i < pb_blocks pb. pb_has pb i \<longleftrightarrow> pb_block_sources pb ! i \<noteq> None) \<and>
     pb_block_count pb = int (pb_blocks pb) - int (card {i. pb_has pb i})"

lemma bit_single_u64: "j < 64 \<Longrightarrow> bit (push_bit j (1 :: u64)) k \<longleftrightarrow> k = j"
  unfolding bit_push_bit_iff bit_1_iff by auto

lemma and_single_u64: "j < 64 \<Longrightarrow> (x :: u64) AND push_bit j 1 \<noteq> 0 \<longleftrightarrow> bit x j"
proof
  assume j: "j < 64" and "x AND push_bit j 1 \<noteq> 0"
  then obtain k where "bit (x AND push_bit j 1) k" by (metis bit_eqI bit_0_eq bot_apply bot_bool_def)
  then show "bit x j" using bit_single_u64 [OF j] by (auto simp: bit_and_iff)
next
  assume j: "j < 64" and "bit x j"
  then have "bit (x AND push_bit j 1) j" using bit_single_u64 [OF j] by (simp add: bit_and_iff)
  then show "x AND push_bit j 1 \<noteq> 0" by auto
qed

lemma pb_is_block_present_has: "pb_is_block_present pb b \<longleftrightarrow> pb_has pb (unat b)"
  unfolding pb_is_block_present_def pb_has_def Let_def
  using and_single_u64 [of "unat b mod 64"] by simp

lemma pb_has_new [simp]: "\<not> pb_has (pb_new n len) i"
  by (simp add: pb_has_def pb_new_def Let_def)

lemma pb_wf_new: "pb_wf (pb_new n len)"
  by (simp add: pb_wf_def) (simp add: pb_new_def Let_def)

lemma pb_blocks_new: "pb_blocks (pb_new n len) = piece_block_count (unat len)"
  by (simp add: pb_new_def Let_def)

lemma pb_add_block_has:
  assumes "unat b div 64 < length (pb_present_blocks pb)"
  shows "pb_has (pb\<lparr>pb_present_blocks := (pb_present_blocks pb)
        [unat b div 64 := pb_present_blocks pb ! (unat b div 64) OR push_bit (unat b mod 64) 1],
        pb_block_sources := ss, pb_block_count := c\<rparr>) i \<longleftrightarrow> pb_has pb i \<or> i = unat b"
proof (cases "i div 64 = unat b div 64")
  case True
  then have "i = unat b \<longleftrightarrow> i mod 64 = unat b mod 64" by (metis div_mult_mod_eq)
  moreover have "bit (push_bit (unat b mod 64) (1 :: u64)) (i mod 64) \<longleftrightarrow> i mod 64 = unat b mod 64"
    by (rule bit_single_u64) simp
  ultimately show ?thesis using True assms by (auto simp: pb_has_def bit_or_iff)
next
  case False
  then have "i \<noteq> unat b" by auto
  with False show ?thesis by (auto simp: pb_has_def)
qed

lemma finite_pb_has: "finite {i. pb_has pb i}"
proof (rule finite_subset)
  show "{i. pb_has pb i} \<subseteq> {..< 64 * length (pb_present_blocks pb)}"
    by (auto simp: pb_has_def div_less_iff_less_mult mult.commute)
qed simp

text \<open>Within range \<open>add_block\<close> adds the block and keeps the first source; out of range it panics.\<close>

lemma pb_add_block_ok:
  assumes wf: "pb_wf pb" and b: "unat b < pb_blocks pb"
  shows "\<exists>pb'. pb_add_block pb b ip = Some pb' \<and> pb_wf pb' \<and> pb_blocks pb' = pb_blocks pb \<and>
    {i. pb_has pb' i} = insert (unat b) {i. pb_has pb i} \<and>
    pb_block_sources pb' =
      (if pb_has pb (unat b) then pb_block_sources pb else (pb_block_sources pb)[unat b := Some ip])"
proof (cases "pb_has pb (unat b)")
  case True
  with wf show ?thesis by (auto simp: pb_add_block_def pb_is_block_present_has)
next
  case False
  note I = wf [unfolded pb_wf_def]
  have w: "unat b div 64 < length (pb_present_blocks pb)"
    using I b by (simp add: less_eq_Suc_le div_less_iff_less_mult)
  let ?pb' = "pb\<lparr>pb_present_blocks := (pb_present_blocks pb)
        [unat b div 64 := pb_present_blocks pb ! (unat b div 64) OR push_bit (unat b mod 64) 1],
        pb_block_sources := (pb_block_sources pb)[unat b := Some ip], pb_block_count := pb_block_count pb - 1\<rparr>"
  have add: "pb_add_block pb b ip = Some ?pb'"
    using False w b by (simp add: pb_add_block_def pb_is_block_present_has Let_def)
  note has = pb_add_block_has [OF w, where ss = "(pb_block_sources pb)[unat b := Some ip]" and c = "pb_block_count pb - 1"]
  have set': "{i. pb_has ?pb' i} = insert (unat b) {i. pb_has pb i}" by (auto simp only: has)
  have "pb_wf ?pb'"
    unfolding pb_wf_def set' using I b False has finite_pb_has [of pb]
    by (auto simp: nth_list_update)
  with add set' False show ?thesis by auto
qed

lemma pb_add_block_panics:
  assumes "pb_wf pb" and "pb_blocks pb \<le> unat b"
  shows "pb_add_block pb b ip = None"
  using assms by (auto simp: pb_add_block_def pb_is_block_present_has pb_wf_def)

lemma pb_complete_iff:
  assumes "pb_wf pb"
  shows "pb_all_blocks_there pb \<longleftrightarrow> (\<forall>i < pb_blocks pb. pb_has pb i)"
proof -
  let ?S = "{i. pb_has pb i}"
  have sub: "?S \<subseteq> {..<pb_blocks pb}" using assms by (auto simp: pb_wf_def)
  have "pb_all_blocks_there pb \<longleftrightarrow> card ?S = card {..<pb_blocks pb}"
    using assms by (auto simp: pb_all_blocks_there_def pb_wf_def)
  also have "\<dots> \<longleftrightarrow> ?S = {..<pb_blocks pb}"
    using sub by (metis card_subset_eq finite_lessThan)
  also have "\<dots> \<longleftrightarrow> (\<forall>i < pb_blocks pb. pb_has pb i)" using sub by auto
  finally show ?thesis .
qed

fun pb_add_blocks :: "PieceBuffer \<Rightarrow> (u32 \<times> string) list \<Rightarrow> PieceBuffer option" where
  "pb_add_blocks pb [] = Some pb"
| "pb_add_blocks pb ((b, ip) # rest) =
     (case pb_add_block pb b ip of None \<Rightarrow> None | Some pb' \<Rightarrow> pb_add_blocks pb' rest)"

definition first_source :: "(u32 \<times> string) list \<Rightarrow> nat \<Rightarrow> string option" where
  "first_source arrivals i = map_of (map (\<lambda>(b, ip). (unat b, ip)) arrivals) i"

lemma pb_add_blocks_exact:
  assumes "pb_wf pb" and "\<forall>(b, ip) \<in> set arrivals. unat b < pb_blocks pb"
  shows "\<exists>pb'. pb_add_blocks pb arrivals = Some pb' \<and> pb_wf pb' \<and> pb_blocks pb' = pb_blocks pb \<and>
    {i. pb_has pb' i} = {i. pb_has pb i} \<union> (\<lambda>(b, ip). unat b) ` set arrivals \<and>
    (\<forall>i < pb_blocks pb. pb_block_sources pb' ! i =
      (if pb_has pb i then pb_block_sources pb ! i else first_source arrivals i))"
  using assms
proof (induction arrivals arbitrary: pb)
  case Nil
  then show ?case by (auto simp: first_source_def pb_wf_def)
next
  case (Cons a arrivals)
  obtain b ip where a: "a = (b, ip)" by force
  with Cons.prems have b: "unat b < pb_blocks pb" by simp
  from pb_add_block_ok [OF Cons.prems(1) b, of ip] obtain pb1 where
    pb1: "pb_add_block pb b ip = Some pb1" "pb_wf pb1" "pb_blocks pb1 = pb_blocks pb"
      "{i. pb_has pb1 i} = insert (unat b) {i. pb_has pb i}"
      "pb_block_sources pb1 = (if pb_has pb (unat b) then pb_block_sources pb
        else (pb_block_sources pb)[unat b := Some ip])" by blast
  have has1: "pb_has pb1 i \<longleftrightarrow> i = unat b \<or> pb_has pb i" for i using pb1(4) by auto
  have "\<forall>(b, ip) \<in> set arrivals. unat b < pb_blocks pb1" using Cons.prems(2) pb1(3) by auto
  from Cons.IH [OF pb1(2) this] obtain pb' where
    pb': "pb_add_blocks pb1 arrivals = Some pb'" "pb_wf pb'" "pb_blocks pb' = pb_blocks pb1"
      "{i. pb_has pb' i} = {i. pb_has pb1 i} \<union> (\<lambda>(b, ip). unat b) ` set arrivals"
      "\<forall>i < pb_blocks pb1. pb_block_sources pb' ! i =
        (if pb_has pb1 i then pb_block_sources pb1 ! i else first_source arrivals i)" by blast
  have "pb_block_sources pb' ! i =
      (if pb_has pb i then pb_block_sources pb ! i else first_source (a # arrivals) i)"
    if "i < pb_blocks pb" for i
    using that pb'(5) pb1(3,5) b by (auto simp: has1 a first_source_def nth_list_update)
  with pb1 pb' a show ?case by auto
qed

section \<open>The block buffer pool\<close>

text \<open>
  A buffer is its content and its capacity. \<open>Vec::with_capacity(n)\<close> reserves at least \<open>n\<close> bytes;
  how many is the allocator's choice, the parameter \<open>alloc\<close>.
\<close>

record BlockBuffer =
  bb_content :: bytes
  bb_capacity :: nat

record BlockBufferPool =
  bp_pool :: "BlockBuffer list"
  bp_max_capacity :: nat
  bp_block_size :: nat
  bp_hits :: nat
  bp_misses :: nat
  bp_returns :: nat
  bp_active_borrows :: int

definition bp_new :: "nat \<Rightarrow> nat \<Rightarrow> BlockBufferPool" where
  "bp_new max_capacity block_size =
     \<lparr>bp_pool = [], bp_max_capacity = max_capacity, bp_block_size = block_size, bp_hits = 0,
      bp_misses = 0, bp_returns = 0, bp_active_borrows = 0\<rparr>"

definition bp_with_preallocated :: "(nat \<Rightarrow> nat) \<Rightarrow> nat \<Rightarrow> nat \<Rightarrow> nat \<Rightarrow> BlockBufferPool" where
  "bp_with_preallocated alloc max_capacity block_size cnt =
     (bp_new max_capacity block_size)
       \<lparr>bp_pool := replicate (min cnt max_capacity) \<lparr>bb_content = [], bb_capacity = alloc block_size\<rparr>\<rparr>"

text \<open>The \<open>while let Some(buf) = guard.pop()\<close> loop of \<open>acquire\<close>: buffers that are too small are dropped.\<close>

fun bp_pop_loop :: "nat \<Rightarrow> BlockBuffer list \<Rightarrow> BlockBuffer option \<times> BlockBuffer list" where
  "bp_pop_loop required [] = (None, [])"
| "bp_pop_loop required (buf # stack) =
     (if required \<le> bb_capacity buf then (Some (buf\<lparr>bb_content := []\<rparr>), stack)
      else bp_pop_loop required stack)"

text \<open>\<open>Vec::pop\<close> takes from the end; the stack is kept with its top first.\<close>

definition bp_acquire :: "(nat \<Rightarrow> nat) \<Rightarrow> BlockBufferPool \<Rightarrow> nat \<Rightarrow> BlockBuffer \<times> BlockBufferPool" where
  "bp_acquire alloc p required_capacity =
     (let p1 = p\<lparr>bp_active_borrows := bp_active_borrows p + 1\<rparr> in
      case bp_pop_loop required_capacity (bp_pool p1) of
        (Some buf, stack) \<Rightarrow> (buf, p1\<lparr>bp_pool := stack, bp_hits := bp_hits p1 + 1\<rparr>)
      | (None, stack) \<Rightarrow>
          (\<lparr>bb_content = [], bb_capacity = alloc (max required_capacity (bp_block_size p1))\<rparr>,
           p1\<lparr>bp_pool := stack, bp_misses := bp_misses p1 + 1\<rparr>))"

definition bp_acquire_block :: "(nat \<Rightarrow> nat) \<Rightarrow> BlockBufferPool \<Rightarrow> BlockBuffer \<times> BlockBufferPool" where
  "bp_acquire_block alloc p = bp_acquire alloc p (bp_block_size p)"

definition bp_release :: "BlockBufferPool \<Rightarrow> BlockBuffer \<Rightarrow> BlockBufferPool" where
  "bp_release p buf =
     (let p1 = p\<lparr>bp_active_borrows := bp_active_borrows p - 1\<rparr> in
      if bp_block_size p1 \<le> bb_capacity buf \<and> length (bp_pool p1) < bp_max_capacity p1
      then p1\<lparr>bp_pool := buf\<lparr>bb_content := []\<rparr> # bp_pool p1, bp_returns := bp_returns p1 + 1\<rparr>
      else p1)"

definition bp_clear :: "BlockBufferPool \<Rightarrow> BlockBufferPool" where
  "bp_clear p = p\<lparr>bp_pool := []\<rparr>"

record BlockBufferPoolMetrics =
  available_buffers :: nat
  active_borrowed_buffers :: nat
  pool_hits :: nat
  pool_misses :: nat
  buffers_returned :: nat
  total_allocations :: nat

definition bp_metrics :: "BlockBufferPool \<Rightarrow> BlockBufferPoolMetrics" where
  "bp_metrics p = \<lparr>available_buffers = length (bp_pool p),
     active_borrowed_buffers = nat (max 0 (bp_active_borrows p)), pool_hits = bp_hits p,
     pool_misses = bp_misses p, buffers_returned = bp_returns p,
     total_allocations = bp_hits p + bp_misses p\<rparr>"

definition bp_inv :: "BlockBufferPool \<Rightarrow> bool" where
  "bp_inv p \<longleftrightarrow> length (bp_pool p) \<le> bp_max_capacity p \<and>
     (\<forall>buf \<in> set (bp_pool p). bb_content buf = [] \<and> bp_block_size p \<le> bb_capacity buf)"

lemma bp_pop_loop_suffix:
  "bp_pop_loop r stack = (res, stack') \<Longrightarrow> set stack' \<subseteq> set stack \<and> length stack' \<le> length stack"
  by (induction stack arbitrary: res) (auto split: if_splits intro: le_SucI)

lemma bp_pop_loop_Some:
  "bp_pop_loop r stack = (Some buf, stack') \<Longrightarrow> r \<le> bb_capacity buf \<and> bb_content buf = []"
  by (induction stack) (auto split: if_splits)

lemma bp_acquire_inv:
  assumes "bp_inv p" and "bp_acquire alloc p r = (buf, p')"
  shows "bp_inv p'"
  using assms bp_pop_loop_suffix [of r "bp_pool p"]
  by (fastforce simp: bp_inv_def bp_acquire_def Let_def split: prod.splits option.splits)

lemma bp_release_inv: "bp_inv p \<Longrightarrow> bp_inv (bp_release p buf)"
  by (auto simp: bp_inv_def bp_release_def Let_def)

text \<open>Operations in any order, as the callers issue them.\<close>

datatype PoolOp = Acquire nat | Release BlockBuffer | Clear

fun pool_op :: "(nat \<Rightarrow> nat) \<Rightarrow> BlockBufferPool \<Rightarrow> PoolOp \<Rightarrow> BlockBufferPool" where
  "pool_op alloc p (Acquire r) = snd (bp_acquire alloc p r)"
| "pool_op alloc p (Release buf) = bp_release p buf"
| "pool_op alloc p Clear = bp_clear p"

lemma pool_op_counts:
  "bp_hits (pool_op alloc p op) + bp_misses (pool_op alloc p op) =
     bp_hits p + bp_misses p + (case op of Acquire _ \<Rightarrow> 1 | _ \<Rightarrow> 0)"
  "bp_active_borrows (pool_op alloc p op) =
     bp_active_borrows p + (case op of Acquire _ \<Rightarrow> 1 | Release _ \<Rightarrow> -1 | Clear \<Rightarrow> 0)"
  "bp_max_capacity (pool_op alloc p op) = bp_max_capacity p"
  "bp_block_size (pool_op alloc p op) = bp_block_size p"
  by (cases op; auto simp: bp_acquire_def bp_release_def bp_clear_def Let_def
      split: prod.splits option.splits)+

lemma bp_clear_inv: "bp_inv p \<Longrightarrow> bp_inv (bp_clear p)"
  by (simp add: bp_inv_def bp_clear_def)

lemma pool_op_inv: "bp_inv p \<Longrightarrow> bp_inv (pool_op alloc p op)"
  by (cases op)
    (simp_all add: bp_release_inv bp_clear_inv bp_acquire_inv [OF _ surjective_pairing])

lemma pool_ops_inv: "bp_inv p \<Longrightarrow> bp_inv (foldl (pool_op alloc) p ops)"
  by (induction ops arbitrary: p) (simp_all add: pool_op_inv)

lemma pool_ops_counts:
  "bp_hits (foldl (pool_op alloc) p ops) + bp_misses (foldl (pool_op alloc) p ops) =
     bp_hits p + bp_misses p + length (filter (\<lambda>op. case op of Acquire _ \<Rightarrow> True | _ \<Rightarrow> False) ops)"
  "bp_max_capacity (foldl (pool_op alloc) p ops) = bp_max_capacity p"
  by (induction ops arbitrary: p) (simp_all add: pool_op_counts split: PoolOp.splits)

section \<open>Block reservations\<close>

record Assembler =
  piece_buffers :: "u32 \<Rightarrow> PieceBuffer option"
  requested_blocks :: "(u32 \<times> u32) set"

definition assembler_new :: Assembler where
  "assembler_new = \<lparr>piece_buffers = (\<lambda>_. None), requested_blocks = {}\<rparr>"

definition as_is_block_requested :: "Assembler \<Rightarrow> u32 \<Rightarrow> u32 \<Rightarrow> bool" where
  "as_is_block_requested a piece_number block_index \<longleftrightarrow> (piece_number, block_index) \<in> requested_blocks a"

text \<open>\<open>HashSet::insert\<close> tells whether the element is new.\<close>

definition as_reserve_block_request :: "Assembler \<Rightarrow> u32 \<Rightarrow> u32 \<Rightarrow> bool \<times> Assembler" where
  "as_reserve_block_request a piece_number block_index =
     ((piece_number, block_index) \<notin> requested_blocks a,
      a\<lparr>requested_blocks := insert (piece_number, block_index) (requested_blocks a)\<rparr>)"

definition as_release_block_request :: "Assembler \<Rightarrow> u32 \<Rightarrow> u32 \<Rightarrow> Assembler" where
  "as_release_block_request a piece_number block_index =
     a\<lparr>requested_blocks := requested_blocks a - {(piece_number, block_index)}\<rparr>"

definition as_clear_piece_requests :: "Assembler \<Rightarrow> u32 \<Rightarrow> Assembler" where
  "as_clear_piece_requests a piece_number =
     a\<lparr>requested_blocks := {pb \<in> requested_blocks a. fst pb \<noteq> piece_number}\<rparr>"

section \<open>Properties\<close>

text \<open>
  C22 (\<open>PieceBuffer::add_block\<close>, \<open>all_blocks_there\<close>). However the blocks of a piece arrive, in any
  order and with repetitions, the buffer records exactly the blocks that arrived, blames each on
  the first peer that sent it, and reports the piece complete exactly when all of its blocks
  have arrived.
\<close>

theorem piece_assembly_exact:
  assumes "\<forall>(b, ip) \<in> set arrivals. unat b < piece_block_count (unat len)"
  shows "\<exists>pb. pb_add_blocks (pb_new n len) arrivals = Some pb \<and>
    (\<forall>i. pb_has pb i \<longleftrightarrow> i \<in> (\<lambda>(b, ip). unat b) ` set arrivals) \<and>
    (\<forall>i < piece_block_count (unat len). pb_block_sources pb ! i = first_source arrivals i) \<and>
    (pb_all_blocks_there pb \<longleftrightarrow>
      (\<forall>i < piece_block_count (unat len). i \<in> (\<lambda>(b, ip). unat b) ` set arrivals))"
proof -
  have "\<forall>(b, ip) \<in> set arrivals. unat b < pb_blocks (pb_new n len)"
    using assms by (simp add: pb_blocks_new)
  from pb_add_blocks_exact [OF pb_wf_new this] obtain pb where pb:
    "pb_add_blocks (pb_new n len) arrivals = Some pb" "pb_wf pb" "pb_blocks pb = pb_blocks (pb_new n len)"
    "{i. pb_has pb i} = {i. pb_has (pb_new n len) i} \<union> (\<lambda>(b, ip). unat b) ` set arrivals"
    "\<forall>i < pb_blocks (pb_new n len). pb_block_sources pb ! i =
      (if pb_has (pb_new n len) i then pb_block_sources (pb_new n len) ! i else first_source arrivals i)"
    by blast
  from pb(4) have "pb_has pb i \<longleftrightarrow> i \<in> (\<lambda>(b, ip). unat b) ` set arrivals" for i by auto
  with pb pb_complete_iff [OF pb(2)] show ?thesis by (simp add: pb_blocks_new)
qed

theorem piece_assembly_exact_witness:
  "\<exists>pb. pb_add_blocks (pb_new 0 32768) [(1, ''a''), (0, ''b''), (1, ''c'')] = Some pb \<and>
     pb_all_blocks_there pb \<and> pb_block_sources pb ! 1 = Some ''a''"
proof -
  have two: "piece_block_count (unat (32768 :: u32)) = 2" by (simp add: piece_block_count_def BLOCK_SIZE_def)
  have "\<forall>(b, ip) \<in> set [(1 :: u32, ''a''), (0, ''b''), (1, ''c'')]. unat b < piece_block_count (unat (32768 :: u32))"
    unfolding two by simp
  from piece_assembly_exact [OF this, of 0] show ?thesis
    unfolding two by (auto simp: first_source_def less_2_cases_iff)
qed

text \<open>
  \<open>PieceBuffer::add_block\<close>, panics: Adding a block panics exactly when the index is not a block
  of the piece: callers must have checked the index.
\<close>

theorem add_block_panics_iff:
  assumes "pb_wf pb"
  shows "pb_add_block pb b ip = None \<longleftrightarrow> pb_blocks pb \<le> unat b"
  using pb_add_block_panics [OF assms] pb_add_block_ok [OF assms, of b ip] by (metis not_le option.distinct(1))

theorem add_block_panics_iff_witness: "pb_add_block (pb_new 0 16384) 1 ''peer'' = None"
  using add_block_panics_iff [OF pb_wf_new, of 0 16384 1]
  by (simp add: pb_blocks_new piece_block_count_def BLOCK_SIZE_def)

text \<open>
  \<open>BlockBufferPool\<close>: Over any sequence of acquisitions, releases and clears, the pool retains
  at most its maximum of buffers, every acquired buffer is empty and large enough, and the
  hits and misses add up to the number of acquisitions.
\<close>

theorem buffer_pool_bounded:
  assumes "\<And>n. n \<le> alloc n"
  shows "let p = foldl (pool_op alloc) (bp_with_preallocated alloc mx bs cnt) ops;
             (buf, p') = bp_acquire alloc p r
         in length (bp_pool p) \<le> mx \<and> bb_content buf = [] \<and> r \<le> bb_capacity buf \<and>
            total_allocations (bp_metrics p) =
              length (filter (\<lambda>op. case op of Acquire _ \<Rightarrow> True | _ \<Rightarrow> False) ops)"
proof -
  let ?p0 = "bp_with_preallocated alloc mx bs cnt"
  have inv0: "bp_inv ?p0" using assms by (simp add: bp_inv_def bp_with_preallocated_def bp_new_def)
  define p where "p = foldl (pool_op alloc) ?p0 ops"
  have "bp_inv p" unfolding p_def by (rule pool_ops_inv [OF inv0])
  moreover have "bp_max_capacity p = mx" "bp_hits p + bp_misses p =
      length (filter (\<lambda>op. case op of Acquire _ \<Rightarrow> True | _ \<Rightarrow> False) ops)"
    unfolding p_def pool_ops_counts by (simp_all add: bp_with_preallocated_def bp_new_def)
  moreover obtain buf p' where acq: "bp_acquire alloc p r = (buf, p')" by force
  moreover from acq have "bb_content buf = [] \<and> r \<le> bb_capacity buf"
    using assms [of "max r (bp_block_size p)"] bp_pop_loop_Some [of r "bp_pool p"]
    by (fastforce simp: bp_acquire_def Let_def split: prod.splits option.splits)
  ultimately show ?thesis
    unfolding p_def [symmetric] by (simp add: bp_inv_def bp_metrics_def)
qed

theorem buffer_pool_bounded_witness:
  "let p = foldl (pool_op id) (bp_with_preallocated id 2 16 1) [Acquire 8, Acquire 16];
       (buf, p') = bp_acquire id p 20
   in length (bp_pool p) \<le> 2 \<and> bb_content buf = [] \<and> 20 \<le> bb_capacity buf \<and>
      total_allocations (bp_metrics p) = 2"
  using buffer_pool_bounded [of id 2 16 1 "[Acquire 8, Acquire 16]" 20] by (simp add: Let_def numeral_2_eq_2)

end
