(* ===== verification/Block_Storage.thy ===== *)
theory Block_Storage
  imports BT_Prelude
begin

text \<open>
  The block storage interface (\<open>BlockReader\<close> and \<open>BlockWriter\<close> of
  \<open>library/src/utils/io_traits.rs\<close>) as a record of operations with a locale stating what an
  implementation promises, and its implementation over the torrent's files,
  \<open>DiskBlockStorage\<close> (\<open>library/src/storage/disk_block_storage.rs\<close>). The disk is a map
  from paths to file contents.
\<close>

section \<open>Overwriting a range of a byte array\<close>

definition overwrite :: "'a list \<Rightarrow> nat \<Rightarrow> 'a list \<Rightarrow> 'a list" where
  "overwrite c off d = take off c @ d @ drop (off + length d) c"

lemma length_overwrite [simp]:
  "off + length d \<le> length c \<Longrightarrow> length (overwrite c off d) = length c"
  by (simp add: overwrite_def)

lemma overwrite_Nil [simp]: "overwrite c off [] = c"
  by (simp add: overwrite_def)

lemma nth_overwrite:
  assumes "off + length d \<le> length c" and "i < length c"
  shows "overwrite c off d ! i = (if off \<le> i \<and> i < off + length d then d ! (i - off) else c ! i)"
  using assms by (auto simp: overwrite_def nth_append min_def)

lemma overwrite_append_right:
  "length c \<le> off \<Longrightarrow> overwrite (c @ e) off d = c @ overwrite e (off - length c) d"
  by (simp add: overwrite_def)

lemma overwrite_append_left:
  "off + length d \<le> length c \<Longrightarrow> overwrite (c @ e) off d = overwrite c off d @ e"
  by (simp add: overwrite_def)

lemma overwrite_append_across:
  assumes "off + k = length c" and "k \<le> length d"
  shows "overwrite (c @ e) off d = overwrite c off (take k d) @ overwrite e 0 (drop k d)"
proof -
  have "off + length d - length c = length d - k" and "k = min (length d) k" and "off + k = length c"
    using assms by auto
  moreover have "take off c @ d = take off c @ take k d @ drop k d" by simp
  ultimately show ?thesis using assms
    by (simp add: overwrite_def)
qed

lemma overwrite_adjacent:
  assumes "off + length d + length e \<le> length c"
  shows "overwrite (overwrite c off d) (off + length d) e = overwrite c off (d @ e)"
  using assms
  by (intro nth_equalityI) (auto simp: nth_overwrite nth_append not_less diff_diff_left)

lemma overwrite_commute:
  assumes "off + length d \<le> length c" and "off' + length d' \<le> length c"
    and "off + length d \<le> off' \<or> off' + length d' \<le> off"
  shows "overwrite (overwrite c off d) off' d' = overwrite (overwrite c off' d') off d"
  using assms by (intro nth_equalityI) (auto simp: nth_overwrite)

lemma bslice_overwrite_same:
  "off + length d \<le> length c \<Longrightarrow> bslice (overwrite c off d) off (off + length d) = d"
  by (simp add: bslice_def overwrite_def)

lemma bslice_overwrite_disjoint:
  assumes "off + length d \<le> length c" and "b \<le> length c" and "b \<le> off \<or> off + length d \<le> a"
  shows "bslice (overwrite c off d) a b = bslice c a b"
  using assms by (intro nth_equalityI) (auto simp: bslice_def nth_overwrite)

section \<open>The storage interface\<close>

text \<open>
  A storage object is its state; every operation returns the state after it. Reading fills a
  buffer of the given length.
\<close>

record 's BlockStorage =
  st_write :: "'s \<Rightarrow> nat \<Rightarrow> bytes \<Rightarrow> unit result \<times> 's"
  st_read :: "'s \<Rightarrow> nat \<Rightarrow> nat \<Rightarrow> bytes result \<times> 's"
  st_flush :: "'s \<Rightarrow> unit result \<times> 's"
  st_discard :: "'s \<Rightarrow> nat \<Rightarrow> nat \<Rightarrow> 's"

text \<open>
  The contract: a storage in a good state behaves as one array of bytes. \<open>can_write\<close> is the
  discipline an implementation asks of its writers beyond staying within the array.
\<close>

locale block_storage =
  fixes st :: "'s BlockStorage"
    and good :: "'s \<Rightarrow> bool"
    and content :: "'s \<Rightarrow> bytes"
    and can_write :: "'s \<Rightarrow> nat \<Rightarrow> bytes \<Rightarrow> bool"
  assumes write_ok: "good s \<Longrightarrow> off + length d \<le> length (content s) \<Longrightarrow> can_write s off d \<Longrightarrow>
      \<exists>s'. st_write st s off d = (Inr (), s') \<and> good s' \<and> content s' = overwrite (content s) off d"
    and read_ok: "good s \<Longrightarrow> off + n \<le> length (content s) \<Longrightarrow>
      \<exists>s'. st_read st s off n = (Inr (bslice (content s) off (off + n)), s') \<and> good s'
        \<and> content s' = content s"
begin

lemma read_after_write:
  assumes "good s" and "off + length d \<le> length (content s)" and "can_write s off d"
  shows "\<exists>s'. st_write st s off d = (Inr (), s') \<and> fst (st_read st s' off (length d)) = Inr d"
proof -
  obtain s' where w: "st_write st s off d = (Inr (), s')" "good s'"
      "content s' = overwrite (content s) off d"
    using write_ok [OF assms] by blast
  then have "off + length d \<le> length (content s')" using assms(2) by simp
  from read_ok [OF w(2) this] w show ?thesis
    by (auto simp: bslice_overwrite_same assms(2))
qed

lemma read_elsewhere:
  assumes "good s" and "off + length d \<le> length (content s)" and "can_write s off d"
    and "a + n \<le> length (content s)" and "a + n \<le> off \<or> off + length d \<le> a"
  shows "\<exists>s'. st_write st s off d = (Inr (), s')
    \<and> fst (st_read st s' a n) = fst (st_read st s a n)"
proof -
  obtain s' where w: "st_write st s off d = (Inr (), s')" "good s'"
      "content s' = overwrite (content s) off d"
    using write_ok [OF assms(1-3)] by blast
  then have "a + n \<le> length (content s')" using assms(2,4) by simp
  from read_ok [OF w(2) this] read_ok [OF assms(1,4)] w show ?thesis
    by (auto simp: bslice_overwrite_disjoint assms)
qed

end

text \<open>
  What a torrent relies on when it assembles pieces: the writer's discipline does not depend on
  the state of the storage, flushing changes no byte, and discarding a range changes no byte
  outside it.
\<close>

locale piece_storage = block_storage st good content can_write
  for st :: "'s BlockStorage" and good :: "'s \<Rightarrow> bool" and content :: "'s \<Rightarrow> bytes"
    and can_write :: "'s \<Rightarrow> nat \<Rightarrow> bytes \<Rightarrow> bool" +
  fixes ok_write :: "nat \<Rightarrow> nat \<Rightarrow> bool"
    and ok_discard :: "nat \<Rightarrow> nat \<Rightarrow> bool"
  assumes ok_write: "good s \<Longrightarrow> ok_write off (length d) \<Longrightarrow> can_write s off d"
    and flush_ok: "good s \<Longrightarrow> good (snd (st_flush st s)) \<and> content (snd (st_flush st s)) = content s"
    and discard_ok: "good s \<Longrightarrow> ok_discard off n \<Longrightarrow> good (st_discard st s off n)
      \<and> length (content (st_discard st s off n)) = length (content s)
      \<and> (\<forall>i<length (content s). i < off \<or> off + n \<le> i \<longrightarrow>
          content (st_discard st s off n) ! i = content s ! i)"
begin

lemma write_slice:
  assumes "good s" and "off + length d \<le> length (content s)" and "ok_write off (length d)"
  obtains s' where "st_write st s off d = (Inr (), s')" and "good s'"
    and "content s' = overwrite (content s) off d"
  using write_ok [OF assms(1,2) ok_write [OF assms(1,3)]] by blast

lemma discard_slice:
  assumes "good s" and "ok_discard off n" and "a + m \<le> off \<or> off + n \<le> a" and "a + m \<le> length (content s)"
  shows "bslice (content (st_discard st s off n)) a (a + m) = bslice (content s) a (a + m)"
  using discard_ok [OF assms(1,2)] assms(3,4)
  by (intro nth_equalityI) (auto simp: bslice_def)

end

section \<open>Files of a torrent\<close>

datatype FilePriority = Skip | Low | Normal | High

record FileDetails =
  fd_name :: string
  fd_torrent_path :: string
  fd_length :: nat
  fd_md5sum :: "string option"
  fd_offset :: nat
  fd_pieces_root :: "bytes option"
  fd_priority :: FilePriority

record TargetFileRange =
  file_path :: string
  seek_offset :: nat
  io_length :: nat

text \<open>The storage's file list together with the disk it works on.\<close>

record DiskBlockStorage =
  dbs_files :: "FileDetails list"
  dbs_disk :: "string \<rightharpoonup> bytes"

definition total_capacity :: "FileDetails list \<Rightarrow> nat" where
  "total_capacity files = sum_list (map fd_length files)"

fun resolve_file_ranges :: "FileDetails list \<Rightarrow> nat \<Rightarrow> nat \<Rightarrow> TargetFileRange list" where
  "resolve_file_ranges [] current_offset remaining = []"
| "resolve_file_ranges (file # files) current_offset remaining =
    (if current_offset \<ge> fd_length file
     then resolve_file_ranges files (current_offset - fd_length file) remaining
     else let write_start = current_offset;
              write_size = min remaining (fd_length file - write_start);
              rng = \<lparr>file_path = fd_name file, seek_offset = write_start, io_length = write_size\<rparr>
          in rng # (if remaining - write_size = 0 then []
                      else resolve_file_ranges files 0 (remaining - write_size)))"

text \<open>
  \<open>write_all\<close> after \<open>seek\<close>: the bytes replace those at the position, a gap beyond the end
  of the file is filled with zeros. \<open>read_exact\<close> fails when the file ends first.
\<close>

definition file_write :: "bytes \<Rightarrow> nat \<Rightarrow> bytes \<Rightarrow> bytes" where
  "file_write c pos d = overwrite (c @ replicate (pos - length c) 0) pos d"

definition file_read :: "bytes \<Rightarrow> nat \<Rightarrow> nat \<Rightarrow> bytes result" where
  "file_read c pos n = (if pos + n \<le> length c then Inr (bslice c pos (pos + n))
    else Inl (Io OtherKind ''failed to fill whole buffer''))"

definition open_file :: "(string \<rightharpoonup> bytes) \<Rightarrow> string \<Rightarrow> bytes result" where
  "open_file disk path = (case disk path of Some c \<Rightarrow> Inr c
    | None \<Rightarrow> Inl (Io OtherKind ''No such file or directory''))"

text \<open>The loops over the resolved ranges. A failure keeps what was already written.\<close>

fun write_ranges :: "(string \<rightharpoonup> bytes) \<Rightarrow> TargetFileRange list \<Rightarrow> bytes \<Rightarrow> unit result \<times> (string \<rightharpoonup> bytes)"
where
  "write_ranges disk [] data = (Inr (), disk)"
| "write_ranges disk (rng # ranges) data =
    (case open_file disk (file_path rng) of
       Inl e \<Rightarrow> (Inl e, disk)
     | Inr c \<Rightarrow> write_ranges
         (disk(file_path rng \<mapsto> file_write c (seek_offset rng) (take (io_length rng) data)))
         ranges (drop (io_length rng) data))"

fun read_ranges :: "(string \<rightharpoonup> bytes) \<Rightarrow> TargetFileRange list \<Rightarrow> bytes result" where
  "read_ranges disk [] = Inr []"
| "read_ranges disk (rng # ranges) =
    rbind (open_file disk (file_path rng)) (\<lambda>c.
    rbind (file_read c (seek_offset rng) (io_length rng)) (\<lambda>d.
    rbind (read_ranges disk ranges) (\<lambda>ds. Inr (d @ ds))))"

definition dbs_write_block :: "DiskBlockStorage \<Rightarrow> nat \<Rightarrow> bytes \<Rightarrow> unit result \<times> DiskBlockStorage" where
  "dbs_write_block s off data =
    (if data = [] then (Inr (), s)
     else case checked_add U64_MAX off (length data) of
       None \<Rightarrow> (Inl (Io OtherKind ''write offset + length overflowed u64''), s)
     | Some en \<Rightarrow>
       if en > total_capacity (dbs_files s)
       then (Inl (Io OtherKind ''write offset + length exceeds storage capacity''), s)
       else let ranges = resolve_file_ranges (dbs_files s) off (length data) in
         if sum_list (map io_length ranges) < length data
         then (Inl (Io OtherKind ''Not enough space in torrent files to write the block''), s)
         else case write_ranges (dbs_disk s) ranges data of (r, disk) \<Rightarrow> (r, s\<lparr>dbs_disk := disk\<rparr>))"

definition dbs_read_block :: "DiskBlockStorage \<Rightarrow> nat \<Rightarrow> nat \<Rightarrow> bytes result" where
  "dbs_read_block s off n =
    (if n = 0 then Inr []
     else case checked_add U64_MAX off n of
       None \<Rightarrow> Inl (Io OtherKind ''read offset + length overflowed u64'')
     | Some en \<Rightarrow>
       if en > total_capacity (dbs_files s)
       then Inl (Io OtherKind ''read offset + length exceeds storage capacity'')
       else let ranges = resolve_file_ranges (dbs_files s) off n in
         if sum_list (map io_length ranges) < n
         then Inl (Io OtherKind ''Not enough data in torrent files to read the block'')
         else read_ranges (dbs_disk s) ranges)"

definition disk_block_storage :: "DiskBlockStorage BlockStorage" where
  "disk_block_storage = \<lparr>st_write = dbs_write_block, st_read = (\<lambda>s off n. (dbs_read_block s off n, s)),
     st_flush = (\<lambda>s. (Inr (), s)), st_discard = (\<lambda>s off n. s)\<rparr>"

text \<open>
  \<open>FileAllocationManager::allocate_torrent_structure\<close> creates every absent file with the
  length the metainfo gives it, as zeros, and leaves present files alone. The directories above
  the files are not part of the disk.
\<close>

fun allocate_files :: "FileDetails list \<Rightarrow> (string \<rightharpoonup> bytes) \<Rightarrow> (string \<rightharpoonup> bytes)" where
  "allocate_files [] disk = disk"
| "allocate_files (file # files) disk = allocate_files files
    (if disk (fd_name file) = None then disk(fd_name file \<mapsto> replicate (fd_length file) 0) else disk)"

definition verify_files_exist :: "FileDetails list \<Rightarrow> (string \<rightharpoonup> bytes) \<Rightarrow> bool" where
  "verify_files_exist files disk = list_all (\<lambda>file. case disk (fd_name file) of
      Some c \<Rightarrow> length c \<ge> fd_length file | None \<Rightarrow> False) files"

section \<open>The file storage as one array\<close>

definition file_part :: "(string \<rightharpoonup> bytes) \<Rightarrow> FileDetails \<Rightarrow> bytes" where
  "file_part disk file = (case disk (fd_name file) of Some c \<Rightarrow> take (fd_length file) c | None \<Rightarrow> [])"

definition files_content :: "FileDetails list \<Rightarrow> (string \<rightharpoonup> bytes) \<Rightarrow> bytes" where
  "files_content files disk = concat (map (file_part disk) files)"

definition files_good :: "FileDetails list \<Rightarrow> (string \<rightharpoonup> bytes) \<Rightarrow> bool" where
  "files_good files disk \<longleftrightarrow> distinct (map fd_name files) \<and> verify_files_exist files disk"

definition dbs_content :: "DiskBlockStorage \<Rightarrow> bytes" where
  "dbs_content s = files_content (dbs_files s) (dbs_disk s)"

definition dbs_good :: "DiskBlockStorage \<Rightarrow> bool" where
  "dbs_good s \<longleftrightarrow> files_good (dbs_files s) (dbs_disk s) \<and> total_capacity (dbs_files s) \<le> U64_MAX"

lemma files_content_simps [simp]:
  "files_content [] disk = []"
  "files_content (f # fs) disk = file_part disk f @ files_content fs disk"
  by (simp_all add: files_content_def)

lemma total_capacity_simps [simp]:
  "total_capacity [] = 0"
  "total_capacity (f # fs) = fd_length f + total_capacity fs"
  by (simp_all add: total_capacity_def)

lemma files_good_Nil [simp]: "files_good [] disk"
  by (simp add: files_good_def verify_files_exist_def)

lemma files_good_Cons: "files_good (f # fs) disk \<longleftrightarrow>
    fd_name f \<notin> fd_name ` set fs \<and> (\<exists>c. disk (fd_name f) = Some c \<and> fd_length f \<le> length c)
    \<and> files_good fs disk"
  by (auto simp: files_good_def verify_files_exist_def split: option.splits)

lemma length_files_content: "files_good files disk \<Longrightarrow> length (files_content files disk) = total_capacity files"
  by (induction files) (auto simp: files_good_Cons file_part_def)

lemma files_unchanged:
  assumes "\<And>f. f \<in> set fs \<Longrightarrow> disk' (fd_name f) = disk (fd_name f)"
  shows "files_good fs disk' = files_good fs disk" and "files_content fs disk' = files_content fs disk"
proof -
  have "verify_files_exist fs disk' = verify_files_exist fs disk"
    unfolding verify_files_exist_def by (rule list.pred_cong) (simp_all add: assms)
  then show "files_good fs disk' = files_good fs disk" by (simp add: files_good_def)
  show "files_content fs disk' = files_content fs disk"
    by (auto simp: files_content_def file_part_def assms intro!: arg_cong [of _ _ concat])
qed

lemma file_write_inside: "pos + length d \<le> length c \<Longrightarrow> file_write c pos d = overwrite c pos d"
  by (simp add: file_write_def)

lemma take_overwrite: "pos + length d \<le> n \<Longrightarrow> n \<le> length c \<Longrightarrow>
    take n (overwrite c pos d) = overwrite (take n c) pos d"
  by (intro nth_equalityI) (simp_all add: nth_overwrite)

text \<open>The resolved ranges cover the whole request when it fits the files.\<close>

lemma resolve_sum: "off + n \<le> total_capacity files \<Longrightarrow>
    sum_list (map io_length (resolve_file_ranges files off n)) = n"
  by (induction files off n rule: resolve_file_ranges.induct) (auto simp: Let_def)

lemma write_ranges_content:
  assumes "files_good files disk" and "off + length data \<le> total_capacity files" and "data \<noteq> []"
  shows "\<exists>disk'. write_ranges disk (resolve_file_ranges files off (length data)) data = (Inr (), disk')
    \<and> files_good files disk' \<and> (\<forall>p. p \<notin> fd_name ` set files \<longrightarrow> disk' p = disk p)
    \<and> files_content files disk' = overwrite (files_content files disk) off data"
  using assms
proof (induction files arbitrary: disk off data)
  case Nil
  then show ?case by simp
next
  case (Cons f fs)
  obtain c where c: "disk (fd_name f) = Some c" "fd_length f \<le> length c"
      and new: "fd_name f \<notin> fd_name ` set fs" and good: "files_good fs disk"
    using Cons.prems(1) by (auto simp: files_good_Cons)
  have part: "file_part disk f = take (fd_length f) c" using c by (simp add: file_part_def)
  show ?case
  proof (cases "fd_length f \<le> off")
    case True
    then have "off - fd_length f + length data \<le> total_capacity fs" using Cons.prems(2) by simp
    from Cons.IH [OF good this Cons.prems(3)] obtain disk' where
      d': "write_ranges disk (resolve_file_ranges fs (off - fd_length f) (length data)) data = (Inr (), disk')"
      "files_good fs disk'" "\<forall>p. p \<notin> fd_name ` set fs \<longrightarrow> disk' p = disk p"
      "files_content fs disk' = overwrite (files_content fs disk) (off - fd_length f) data" by blast
    have keep: "disk' (fd_name f) = Some c" using d'(3) new c by simp
    show ?thesis
      using True d' keep c new
      by (intro exI [of _ disk'])
        (auto simp: files_good_Cons file_part_def overwrite_append_right)
  next
    case False
    define k where "k = min (length data) (fd_length f - off)"
    define disk1 where "disk1 = disk(fd_name f \<mapsto> overwrite c off (take k data))"
    have k: "off + k \<le> fd_length f" "k \<le> length data" "k \<noteq> 0"
      using False Cons.prems(3) by (auto simp: k_def)
    have fw: "file_write c off (take k data) = overwrite c off (take k data)"
      using k c by (intro file_write_inside) simp
    have same: "disk1 (fd_name g) = disk (fd_name g)" if "g \<in> set fs" for g
      using that new by (metis disk1_def fun_upd_apply imageI)
    have good1: "files_good fs disk1" and content1: "files_content fs disk1 = files_content fs disk"
      using files_unchanged [where fs = fs and disk' = disk1 and disk = disk, OF same] good by simp_all
    have part1: "file_part disk1 f = overwrite (file_part disk f) off (take k data)"
      using k c by (simp add: disk1_def file_part_def take_overwrite)
    have len1: "fd_length f \<le> length (overwrite c off (take k data))" using k c by simp
    show ?thesis
    proof (cases "length data \<le> fd_length f - off")
      case True
      then have all: "k = length data" by (simp add: k_def)
      then have "files_content (f # fs) disk1 = overwrite (files_content (f # fs) disk) off data"
        using part1 content1 k part c by (simp add: overwrite_append_left)
      moreover have "write_ranges disk (resolve_file_ranges (f # fs) off (length data)) data = (Inr (), disk1)"
        using False True fw all c by (simp add: open_file_def Let_def disk1_def)
      moreover have "disk1 (fd_name f) = Some (overwrite c off data)"
        and "\<forall>p. p \<notin> fd_name ` set (f # fs) \<longrightarrow> disk1 p = disk p"
        using all by (simp_all add: disk1_def)
      ultimately show ?thesis
        using good1 new len1 all by (intro exI [of _ disk1]) (simp add: files_good_Cons)
    next
      case beyond: False
      then have kf: "off + k = fd_length f" using False by (simp add: k_def)
      have fit: "0 + length (drop k data) \<le> total_capacity fs" "drop k data \<noteq> []"
        using Cons.prems(2) kf beyond False by (auto simp: k_def)
      from Cons.IH [OF good1 fit] obtain disk' where
        d': "write_ranges disk1 (resolve_file_ranges fs 0 (length (drop k data))) (drop k data) = (Inr (), disk')"
        "files_good fs disk'" "\<forall>p. p \<notin> fd_name ` set fs \<longrightarrow> disk' p = disk1 p"
        "files_content fs disk' = overwrite (files_content fs disk1) 0 (drop k data)" by blast
      have keep: "disk' (fd_name f) = disk1 (fd_name f)" using d'(3) new by simp
      then have part': "file_part disk' f = overwrite (file_part disk f) off (take k data)"
        using part1 by (simp add: file_part_def)
      have step: "write_ranges disk (resolve_file_ranges (f # fs) off (length data)) data =
          write_ranges disk1 (resolve_file_ranges fs 0 (length (drop k data))) (drop k data)"
        using False beyond fw c k by (auto simp: open_file_def Let_def k_def disk1_def min_def)
      have content': "files_content (f # fs) disk' = overwrite (files_content (f # fs) disk) off data"
        using overwrite_append_across [of off k "file_part disk f" data "files_content fs disk"]
          kf k part c part' d'(4) content1 by simp
      show ?thesis
        using d' keep new step content' len1
        by (intro exI [of _ disk']) (auto simp: files_good_Cons disk1_def)
    qed
  qed
qed

lemma read_ranges_content:
  assumes "files_good files disk" and "off + n \<le> total_capacity files" and "n \<noteq> 0"
  shows "read_ranges disk (resolve_file_ranges files off n) =
    Inr (bslice (files_content files disk) off (off + n))"
  using assms
proof (induction files arbitrary: off n)
  case Nil
  then show ?case by simp
next
  case (Cons f fs)
  obtain c where c: "disk (fd_name f) = Some c" "fd_length f \<le> length c" and good: "files_good fs disk"
    using Cons.prems(1) by (auto simp: files_good_Cons)
  have part: "file_part disk f = take (fd_length f) c" using c by (simp add: file_part_def)
  show ?case
  proof (cases "fd_length f \<le> off")
    case True
    then show ?thesis
      using Cons.IH [OF good, of "off - fd_length f" n] Cons.prems part c by (simp add: bslice_def)
  next
    case False
    define k where "k = min n (fd_length f - off)"
    have fr: "file_read c off k = Inr (bslice (file_part disk f) off (off + k))"
      using False c part by (auto simp: file_read_def k_def bslice_def take_drop)
    show ?thesis
    proof (cases "n \<le> fd_length f - off")
      case True
      then show ?thesis
        using False fr c part by (simp add: k_def open_file_def Let_def bslice_def)
    next
      case beyond: False
      then have k: "k = fd_length f - off" by (simp add: k_def)
      have "read_ranges disk (resolve_file_ranges fs 0 (n - k)) =
          Inr (bslice (files_content fs disk) 0 (0 + (n - k)))"
        using Cons.IH [OF good, of 0 "n - k"] Cons.prems(2) beyond False by (simp add: k)
      moreover have "bslice (file_part disk f @ files_content fs disk) off (off + n) =
          bslice (file_part disk f) off (off + k) @ take (n - k) (files_content fs disk)"
        using False beyond part c k by (simp add: bslice_def)
      ultimately show ?thesis
        using False beyond fr c k by (simp add: open_file_def Let_def)
    qed
  qed
qed

lemma dbs_write_ok:
  assumes good: "dbs_good s" and fit: "off + length d \<le> length (dbs_content s)"
  shows "\<exists>s'. dbs_write_block s off d = (Inr (), s') \<and> dbs_good s'
    \<and> dbs_content s' = overwrite (dbs_content s) off d \<and> dbs_files s' = dbs_files s
    \<and> (\<forall>p. p \<notin> fd_name ` set (dbs_files s) \<longrightarrow> dbs_disk s' p = dbs_disk s p)"
proof (cases "d = []")
  case True
  then show ?thesis using good by (simp add: dbs_write_block_def)
next
  case False
  have good': "files_good (dbs_files s) (dbs_disk s)" and cap: "total_capacity (dbs_files s) \<le> U64_MAX"
    using good by (simp_all add: dbs_good_def)
  have fit': "off + length d \<le> total_capacity (dbs_files s)"
    using fit length_files_content [OF good'] by (simp add: dbs_content_def)
  from write_ranges_content [OF good' fit' False] obtain disk' where
    d': "write_ranges (dbs_disk s) (resolve_file_ranges (dbs_files s) off (length d)) d = (Inr (), disk')"
    "files_good (dbs_files s) disk'" "\<forall>p. p \<notin> fd_name ` set (dbs_files s) \<longrightarrow> disk' p = dbs_disk s p"
    "files_content (dbs_files s) disk' = overwrite (files_content (dbs_files s) (dbs_disk s)) off d"
    by blast
  have "dbs_write_block s off d = (Inr (), s\<lparr>dbs_disk := disk'\<rparr>)"
    using False fit' cap d'(1) resolve_sum [OF fit']
    by (simp add: dbs_write_block_def checked_add_def)
  then show ?thesis using d' cap by (simp add: dbs_good_def dbs_content_def)
qed

lemma dbs_read_ok:
  assumes good: "dbs_good s" and fit: "off + n \<le> length (dbs_content s)"
  shows "dbs_read_block s off n = Inr (bslice (dbs_content s) off (off + n))"
proof (cases "n = 0")
  case True
  then show ?thesis by (simp add: dbs_read_block_def)
next
  case False
  have good': "files_good (dbs_files s) (dbs_disk s)" and cap: "total_capacity (dbs_files s) \<le> U64_MAX"
    using good by (simp_all add: dbs_good_def)
  have fit': "off + n \<le> total_capacity (dbs_files s)"
    using fit length_files_content [OF good'] by (simp add: dbs_content_def)
  show ?thesis
    using False fit' cap resolve_sum [OF fit'] read_ranges_content [OF good' fit' False]
    by (simp add: dbs_read_block_def checked_add_def dbs_content_def)
qed

interpretation disk: block_storage disk_block_storage dbs_good dbs_content "\<lambda>_ _ _. True"
  by unfold_locales (use dbs_write_ok dbs_read_ok in \<open>force simp: disk_block_storage_def\<close>)+

interpretation disk_pieces: piece_storage disk_block_storage dbs_good dbs_content "\<lambda>_ _ _. True"
    "\<lambda>_ _. True" "\<lambda>_ _. True"
  by unfold_locales (simp_all add: disk_block_storage_def)

text \<open>Outside the array every access fails and changes nothing.\<close>

lemma dbs_beyond:
  assumes good: "dbs_good s" and beyond: "off + length d > length (dbs_content s)" and "d \<noteq> []"
  shows "\<exists>e. dbs_write_block s off d = (Inl e, s) \<and> (\<exists>e'. dbs_read_block s off (length d) = Inl e')"
  using assms length_files_content [of "dbs_files s" "dbs_disk s"]
  by (auto simp: dbs_write_block_def dbs_read_block_def checked_add_def dbs_good_def dbs_content_def)

lemma allocate_files_keeps: "disk p \<noteq> None \<Longrightarrow> allocate_files files disk p = disk p"
  by (induction files disk rule: allocate_files.induct) (auto split: if_splits)

lemma allocate_files_verify:
  assumes "distinct (map fd_name files)"
    and "\<And>f c. f \<in> set files \<Longrightarrow> disk (fd_name f) = Some c \<Longrightarrow> fd_length f \<le> length c"
  shows "files_good files (allocate_files files disk)"
  using assms
proof (induction files disk rule: allocate_files.induct)
  case (1 disk)
  then show ?case by simp
next
  case (2 fl files disk)
  let ?disk = "if disk (fd_name fl) = None then disk(fd_name fl \<mapsto> replicate (fd_length fl) 0) else disk"
  have other: "?disk (fd_name f) = disk (fd_name f)" if "f \<in> set files" for f
    using that "2.prems"(1) by (auto simp: image_iff)
  have "files_good files (allocate_files files ?disk)"
    by (rule "2.IH") (use "2.prems" other in auto)
  moreover have "allocate_files files ?disk (fd_name fl) = ?disk (fd_name fl)"
    by (rule allocate_files_keeps) auto
  ultimately show ?case
    using "2.prems" by (auto simp: files_good_Cons split: option.splits)
qed

section \<open>Properties\<close>

text \<open>
  C23 (\<open>DiskBlockStorage::write_block\<close>, \<open>read_block\<close>). Over files that exist with at least
  their declared length, the storage is one byte array: a write inside it succeeds, replaces
  exactly the addressed bytes wherever file boundaries fall and touches no other file; a read
  inside it returns exactly the addressed bytes; an access past the end fails and changes
  nothing.
\<close>

theorem disk_storage_is_array:
  assumes good: "dbs_good s" and "d \<noteq> []"
  shows "if off + length d \<le> length (dbs_content s)
    then dbs_read_block s off (length d) = Inr (bslice (dbs_content s) off (off + length d))
      \<and> (\<exists>s'. dbs_write_block s off d = (Inr (), s') \<and> dbs_good s'
           \<and> dbs_content s' = overwrite (dbs_content s) off d
           \<and> (\<forall>p. p \<notin> fd_name ` set (dbs_files s) \<longrightarrow> dbs_disk s' p = dbs_disk s p)
           \<and> dbs_read_block s' off (length d) = Inr d)
    else \<exists>e e'. dbs_write_block s off d = (Inl e, s) \<and> dbs_read_block s off (length d) = Inl e'"
proof (cases "off + length d \<le> length (dbs_content s)")
  case True
  have "\<exists>s'. dbs_write_block s off d = (Inr (), s') \<and> dbs_read_block s' off (length d) = Inr d"
    using disk.read_after_write [OF good True] by (simp add: disk_block_storage_def)
  then show ?thesis using True dbs_read_ok [OF good True] dbs_write_ok [OF good True] by auto
next
  case False
  then show ?thesis using dbs_beyond [OF good _ assms(2)] by auto
qed

definition sample_files :: "FileDetails list" where
  "sample_files = map (\<lambda>(n, len, off). \<lparr>fd_name = n, fd_torrent_path = n, fd_length = len, fd_md5sum = None,
     fd_offset = off, fd_pieces_root = None, fd_priority = Normal\<rparr>) [(''a'', 2, 0), (''e'', 0, 2), (''b'', 3, 2)]"

definition sample_storage :: DiskBlockStorage where
  "sample_storage = \<lparr>dbs_files = sample_files, dbs_disk = allocate_files sample_files Map.empty\<rparr>"

lemma sample_storage_good: "dbs_good sample_storage" "dbs_content sample_storage = [0, 0, 0, 0, 0]"
proof -
  have "total_capacity sample_files = 5" and "distinct (map fd_name sample_files)"
    by (simp_all add: sample_files_def)
  then show "dbs_good sample_storage"
    using allocate_files_verify [of sample_files Map.empty]
    by (simp add: dbs_good_def sample_storage_def U64_MAX_def)
  show "dbs_content sample_storage = [0, 0, 0, 0, 0]"
    by (simp add: sample_storage_def sample_files_def dbs_content_def file_part_def numeral_eq_Suc)
qed

lemma disk_storage_is_array_witness:
  "dbs_good sample_storage
    \<and> (\<exists>s'. dbs_write_block sample_storage 1 [7, 8, 9] = (Inr (), s') \<and> dbs_content s' = [0, 7, 8, 9, 0]
        \<and> dbs_read_block s' 1 3 = Inr [7, 8, 9])"
proof -
  have "1 + length [7, 8, 9 :: u8] \<le> length (dbs_content sample_storage)"
    and "overwrite (dbs_content sample_storage) 1 [7, 8, 9] = [0, 7, 8, 9, 0]"
    by (simp_all add: sample_storage_good overwrite_def)
  with disk_storage_is_array [of sample_storage "[7, 8, 9]" 1] sample_storage_good(1)
  show ?thesis by (auto simp: numeral_3_eq_3)
qed

text \<open>
  \<open>FileAllocationManager::allocate_torrent_structure\<close>: After allocation, if the files
  already present were long enough, every file is usable by the storage, and no byte that was
  on disk is changed.
\<close>

theorem allocation_prepares_storage:
  assumes "distinct (map fd_name files)" and "total_capacity files \<le> U64_MAX"
    and "\<And>f c. f \<in> set files \<Longrightarrow> disk (fd_name f) = Some c \<Longrightarrow> fd_length f \<le> length c"
  shows "dbs_good \<lparr>dbs_files = files, dbs_disk = allocate_files files disk\<rparr>
    \<and> (disk p = Some c \<longrightarrow> allocate_files files disk p = Some c)"
proof (intro conjI impI)
  show "dbs_good \<lparr>dbs_files = files, dbs_disk = allocate_files files disk\<rparr>"
    using allocate_files_verify [OF assms(1,3)] assms(2) by (simp add: dbs_good_def)
  show "allocate_files files disk p = Some c" if "disk p = Some c"
    using allocate_files_keeps [of disk p files] that by simp
qed

lemma allocation_prepares_storage_witness:
  "dbs_good \<lparr>dbs_files = sample_files, dbs_disk = allocate_files sample_files [''b'' \<mapsto> [1, 2, 3, 4]]\<rparr>
    \<and> allocate_files sample_files [''b'' \<mapsto> [1, 2, 3, 4]] ''b'' = Some [1, 2, 3, 4]"
proof -
  have "distinct (map fd_name sample_files)" and "total_capacity sample_files \<le> U64_MAX"
    and "f \<in> set sample_files \<Longrightarrow> [''b'' \<mapsto> [1, 2, 3, 4 :: u8]] (fd_name f) = Some c \<Longrightarrow>
      fd_length f \<le> length c" for f c
    by (auto simp: sample_files_def U64_MAX_def split: if_splits)
  from allocation_prepares_storage [where disk = "[''b'' \<mapsto> [1, 2, 3, 4]]", OF this,
      where p = "''b''" and c = "[1, 2, 3, 4]"]
  show ?thesis by simp
qed

end
