(* ===== verification/Erasure_Staging.thy ===== *)
theory Erasure_Staging
  imports BT_Prelude "HOL-Library.AList"
begin

text \<open>
  The endgame staging cache (\<open>library/src/storage/erasure_staging.rs\<close>): which blocks are in
  flight from which peers, which of them are stalled, and which have arrived. The clock is an
  argument, durations count nanoseconds, and \<open>Duration::mul_f64\<close> with the straggler ratio is the
  parameter \<open>scale\<close>. The map of staged blocks is an association list in its iteration order.
\<close>

datatype BlockArrivalOutcome =
    CommitAndCancelOthers "string list"
  | AbsorbDuplicate string

record StagedBlock =
  sb_piece :: u32
  sb_block_index :: u32
  sb_sources :: "string list"
  sb_first_requested :: nat
  sb_latest_requested :: nat
  sb_expected_completion :: nat
  sb_is_preempted :: bool

record EndgameStagingMetrics =
  active_staged_blocks :: nat
  total_staged_blocks :: nat
  committed_count :: nat
  preempted_stragglers :: nat
  absorbed_duplicate_blocks :: nat
  cancelled_redundant_requests :: nat
  estimated_stall_time_saved_ms :: nat

record AdaptiveErasureStaging =
  es_staged :: "((u32 \<times> u32) \<times> StagedBlock) list"
  es_committed :: "(u32 \<times> u32) set"
  es_max_clones :: nat
  es_metrics :: EndgameStagingMetrics

definition es_new :: "nat \<Rightarrow> AdaptiveErasureStaging" where
  "es_new max_clones = \<lparr>es_staged = [], es_committed = {}, es_max_clones = max max_clones 1,
     es_metrics = \<lparr>active_staged_blocks = 0, total_staged_blocks = 0, committed_count = 0,
       preempted_stragglers = 0, absorbed_duplicate_blocks = 0, cancelled_redundant_requests = 0,
       estimated_stall_time_saved_ms = 0\<rparr>\<rparr>"

definition set_active :: "AdaptiveErasureStaging \<Rightarrow> AdaptiveErasureStaging" where
  "set_active es = es\<lparr>es_metrics := (es_metrics es)\<lparr>active_staged_blocks := length (es_staged es)\<rparr>\<rparr>"

definition stage_request :: "nat \<Rightarrow> u32 \<Rightarrow> u32 \<Rightarrow> string \<Rightarrow> nat \<Rightarrow> AdaptiveErasureStaging \<Rightarrow> AdaptiveErasureStaging" where
  "stage_request now piece bi peer_ip ect es =
    (let key = (piece, bi) in
     set_active (case map_of (es_staged es) key of
       Some sb \<Rightarrow>
         if peer_ip \<in> set (sb_sources sb) then es
         else es\<lparr>es_staged := AList.update key
           (sb\<lparr>sb_sources := sb_sources sb @ [peer_ip], sb_latest_requested := now\<rparr>) (es_staged es)\<rparr>
     | None \<Rightarrow>
         es\<lparr>es_staged := AList.update key
              \<lparr>sb_piece = piece, sb_block_index = bi, sb_sources = [peer_ip], sb_first_requested = now,
               sb_latest_requested = now, sb_expected_completion = ect, sb_is_preempted = False\<rparr> (es_staged es),
            es_metrics := (es_metrics es)\<lparr>total_staged_blocks := total_staged_blocks (es_metrics es) + 1\<rparr>\<rparr>))"

definition can_clone_block :: "AdaptiveErasureStaging \<Rightarrow> u32 \<Rightarrow> u32 \<Rightarrow> bool" where
  "can_clone_block es piece bi =
    (if (piece, bi) \<in> es_committed es then False
     else case map_of (es_staged es) (piece, bi) of
       None \<Rightarrow> True
     | Some sb \<Rightarrow> length (sb_sources sb) < es_max_clones es)"

definition is_stalled :: "(nat \<Rightarrow> nat) \<Rightarrow> nat \<Rightarrow> nat \<Rightarrow> StagedBlock \<Rightarrow> bool" where
  "is_stalled scale now max_clones sb \<longleftrightarrow>
    \<not> (max_clones \<le> length (sb_sources sb) \<or> sb_is_preempted sb)
    \<and> max (scale (sb_expected_completion sb)) (400 * 10 ^ 6) < now - sb_first_requested sb"

definition detect_stalled_blocks ::
  "(nat \<Rightarrow> nat) \<Rightarrow> nat \<Rightarrow> AdaptiveErasureStaging \<Rightarrow> (u32 \<times> u32 \<times> string) list \<times> AdaptiveErasureStaging" where
  "detect_stalled_blocks scale now es =
    (let stalls = is_stalled scale now (es_max_clones es);
         stalled = concat (map (\<lambda>((piece, bi), sb).
           if stalls sb then (case sb_sources sb of [] \<Rightarrow> [] | p # _ \<Rightarrow> [(piece, bi, p)]) else [])
           (es_staged es))
     in (stalled, es\<lparr>
       es_staged := map (\<lambda>(key, sb). (key, if stalls sb then sb\<lparr>sb_is_preempted := True\<rparr> else sb)) (es_staged es),
       es_metrics := (es_metrics es)\<lparr>preempted_stragglers :=
         preempted_stragglers (es_metrics es) + length stalled\<rparr>\<rparr>))"

definition on_block_arrived ::
  "u32 \<Rightarrow> u32 \<Rightarrow> string \<Rightarrow> AdaptiveErasureStaging \<Rightarrow> BlockArrivalOutcome \<times> AdaptiveErasureStaging" where
  "on_block_arrived piece bi from_peer es =
    (let key = (piece, bi); m = es_metrics es in
     if key \<in> es_committed es
     then (AbsorbDuplicate from_peer,
       es\<lparr>es_metrics := m\<lparr>absorbed_duplicate_blocks := absorbed_duplicate_blocks m + 1\<rparr>\<rparr>)
     else
       let m = m\<lparr>committed_count := committed_count m + 1\<rparr>;
           es = es\<lparr>es_committed := insert key (es_committed es)\<rparr>
       in case map_of (es_staged es) key of
            None \<Rightarrow> (CommitAndCancelOthers [], set_active (es\<lparr>es_metrics := m\<rparr>))
          | Some sb \<Rightarrow>
              let cancel_list = filter (\<lambda>p. p \<noteq> from_peer) (sb_sources sb);
                  m = m\<lparr>cancelled_redundant_requests := cancelled_redundant_requests m + length cancel_list\<rparr>;
                  m = (if sb_is_preempted sb
                       then m\<lparr>estimated_stall_time_saved_ms := estimated_stall_time_saved_ms m
                              + sb_expected_completion sb div 10 ^ 6\<rparr>
                       else m)
              in (CommitAndCancelOthers cancel_list,
                  set_active (es\<lparr>es_staged := AList.delete key (es_staged es), es_metrics := m\<rparr>)))"

definition es_clear_piece :: "u32 \<Rightarrow> AdaptiveErasureStaging \<Rightarrow> AdaptiveErasureStaging" where
  "es_clear_piece piece es = set_active
    (es\<lparr>es_staged := filter (\<lambda>e. fst (fst e) \<noteq> piece) (es_staged es),
        es_committed := {k \<in> es_committed es. fst k \<noteq> piece}\<rparr>)"

section \<open>The staging discipline\<close>

lemma set_active_simps [simp]:
  "es_staged (set_active es) = es_staged es" "es_committed (set_active es) = es_committed es"
  "es_max_clones (set_active es) = es_max_clones es"
  by (simp_all add: set_active_def)

text \<open>
  Keys are unique and agree with the blocks they index, every staged block has a source and no
  source twice.
\<close>

definition es_wf :: "AdaptiveErasureStaging \<Rightarrow> bool" where
  "es_wf es \<longleftrightarrow> distinct (map fst (es_staged es)) \<and> 0 < es_max_clones es
    \<and> (\<forall>(k, sb)\<in>set (es_staged es). k = (sb_piece sb, sb_block_index sb)
        \<and> sb_sources sb \<noteq> [] \<and> distinct (sb_sources sb))"

lemma es_wf_new: "es_wf (es_new n)"
  by (simp add: es_wf_def es_new_def)

lemma set_alist_update: "set (AList.update k v m) \<subseteq> insert (k, v) (set m)"
  by (induction m) (auto split: prod.splits)

lemma es_wf_update:
  assumes "es_wf es" and "k = (sb_piece sb, sb_block_index sb)" "sb_sources sb \<noteq> []" "distinct (sb_sources sb)"
  shows "es_wf (es\<lparr>es_staged := AList.update k sb (es_staged es), es_metrics := m\<rparr>)"
  using assms set_alist_update [of k sb "es_staged es"]
  by (fastforce simp: es_wf_def distinct_update)

lemma es_wf_staged: "es_wf es \<Longrightarrow> map_of (es_staged es) k = Some sb \<Longrightarrow>
    k = (sb_piece sb, sb_block_index sb) \<and> sb_sources sb \<noteq> [] \<and> distinct (sb_sources sb)"
  by (auto simp: es_wf_def dest!: map_of_SomeD)

lemma es_wf_set_active [simp]: "es_wf (set_active es) = es_wf es"
  by (simp add: es_wf_def)

lemma es_wf_stage:
  assumes "es_wf es"
  shows "es_wf (stage_request now piece bi ip ect es)"
proof (cases "map_of (es_staged es) (piece, bi)")
  case None
  then show ?thesis by (simp add: stage_request_def Let_def) (rule es_wf_update [OF assms], simp_all)
next
  case (Some sb)
  let ?sb = "sb\<lparr>sb_sources := sb_sources sb @ [ip], sb_latest_requested := now\<rparr>"
  show ?thesis
    using Some assms es_wf_staged [OF assms Some] es_wf_update [OF assms, of "(piece, bi)" ?sb "es_metrics es"]
    by (auto simp: stage_request_def Let_def)
qed

lemma es_wf_arrived:
  assumes "es_wf es"
  shows "es_wf (snd (on_block_arrived piece bi ip es))"
proof -
  have "es_wf (es\<lparr>es_committed := C, es_staged := AList.delete k (es_staged es), es_metrics := m\<rparr>)" for C k m
    using assms by (auto simp: es_wf_def AList.delete_eq distinct_map_filter)
  moreover have "es_wf (es\<lparr>es_committed := C, es_metrics := m\<rparr>)" for C m
    using assms by (simp add: es_wf_def)
  moreover have "es_wf (es\<lparr>es_metrics := m\<rparr>)" for m using assms by (simp add: es_wf_def)
  ultimately show ?thesis by (simp add: on_block_arrived_def Let_def split: option.splits)
qed

lemma arrived_exact:
  "(\<exists>ps. fst (on_block_arrived piece bi ip es) = CommitAndCancelOthers ps) \<longleftrightarrow> (piece, bi) \<notin> es_committed es"
  "es_committed (snd (on_block_arrived piece bi ip es)) = insert (piece, bi) (es_committed es)"
  by (auto simp: on_block_arrived_def Let_def split: option.splits)

lemma arrived_cancels:
  assumes "es_wf es" and "fst (on_block_arrived piece bi ip es) = CommitAndCancelOthers ps"
  shows "distinct ps \<and> set ps = (case map_of (es_staged es) (piece, bi) of
      None \<Rightarrow> {} | Some sb \<Rightarrow> set (sb_sources sb) - {ip})"
  using assms es_wf_staged [OF assms(1), of "(piece, bi)"]
  by (auto simp: on_block_arrived_def Let_def split: option.splits if_splits)

text \<open>Outside \<open>clear_piece\<close> no block is committed twice, whatever arrives in which order.\<close>

fun commits :: "(u32 \<times> u32 \<times> string) list \<Rightarrow> AdaptiveErasureStaging \<Rightarrow> (u32 \<times> u32) list" where
  "commits [] es = []"
| "commits ((piece, bi, ip) # arrivals) es = (case on_block_arrived piece bi ip es of
     (CommitAndCancelOthers _, es') \<Rightarrow> (piece, bi) # commits arrivals es'
   | (AbsorbDuplicate _, es') \<Rightarrow> commits arrivals es')"

lemma commits_once:
  "distinct (commits arrivals es)
    \<and> set (commits arrivals es) = {(p, b). \<exists>ip. (p, b, ip) \<in> set arrivals} - es_committed es"
proof (induction arrivals es rule: commits.induct)
  case (2 piece bi ip arrivals es)
  obtain r es' where r: "on_block_arrived piece bi ip es = (r, es')" by force
  then have c: "es_committed es' = insert (piece, bi) (es_committed es)"
    and k: "(\<exists>ps. r = CommitAndCancelOthers ps) \<longleftrightarrow> (piece, bi) \<notin> es_committed es"
    using arrived_exact [of piece bi ip es] by simp_all
  show ?case
  proof (cases r)
    case (CommitAndCancelOthers ps)
    then show ?thesis using 2(1) [OF r [symmetric] CommitAndCancelOthers] r c k by auto
  next
    case (AbsorbDuplicate s)
    then show ?thesis using 2(2) [OF r [symmetric] AbsorbDuplicate] r c k by auto
  qed
qed simp

end
