(* ===== verification/Torrent_Context.thy ===== *)
theory Torrent_Context
  imports Piece_Store Piece_Buffer Block_Storage Merkle Erasure_Staging
begin

text \<open>
  The state of a torrent (\<open>TorrentContext\<close> in \<open>library/src/core/torrent_context.rs\<close>), its piece
  accounting and file selection (\<open>library/src/core/piece_accounting.rs\<close>) and its lifecycle. The
  record holds the fields that these operations and the block pipeline read or write. Locks are
  left out: every operation here runs under the context's own lock. \<open>u32\<close> piece numbers and the
  \<open>u64\<close> byte counters keep their width; a loop over \<open>0..number_of_pieces as u32\<close> runs over the
  truncated count.
\<close>

section \<open>State\<close>

datatype TorrentStatus = Initialised | Seeding | Downloading | Paused | Ended

fun status_code :: "TorrentStatus \<Rightarrow> u8" where
  "status_code Initialised = 0"
| "status_code Seeding = 1"
| "status_code Downloading = 2"
| "status_code Paused = 3"
| "status_code Ended = 4"

definition status_of_code :: "u8 \<Rightarrow> TorrentStatus" where
  "status_of_code v = (if v = 0 then Initialised else if v = 1 then Seeding
     else if v = 2 then Downloading else if v = 3 then Paused else Ended)"

datatype SessionEvent =
    StateChanged TorrentStatus
  | PieceCompleted nat nat nat
  | FileCompleted nat string
  | PeerConnected string string
  | PeerDisconnected string string
  | MetadataResolved string u64 nat
  | DownloadFinished
  | ErrorEvent string

text \<open>
  The fields of \<open>Peer\<close> that the context reads. \<open>peer_unchoked\<close> is the state of the event
  \<open>peer_choking\<close>, which is signalled when the peer has unchoked us.
\<close>

record Peer =
  peer_ip :: string
  remote_piece_bitfield :: bytes
  peer_is_seed :: bool
  peer_unchoked :: bool
  suggested_pieces :: "u32 list"
  allowed_fast_pieces :: "u32 list"
  reserved_blocks :: "(u32 \<times> u32 \<times> nat) list"

definition is_piece_on_remote_peer :: "Peer \<Rightarrow> u32 \<Rightarrow> bool" where
  "is_piece_on_remote_peer peer piece_number \<longleftrightarrow>
    peer_is_seed peer \<or> bf_get (remote_piece_bitfield peer) piece_number"

record SuperSeedingState =
  ss_enabled :: bool
  piece_offered_to :: "u32 \<rightharpoonup> string"
  peer_pending_piece :: "string \<rightharpoonup> u32"
  piece_swarm_count :: "u32 \<rightharpoonup> nat"
  total_pieces_offered :: nat
  total_pieces_propagated :: nat

record SessionConfig =
  cfg_block_size :: nat
  cfg_enable_adaptive_endgame :: bool
  cfg_enable_async_verification :: bool
  cfg_endgame_max_clones_per_block :: nat
  cfg_super_seeding :: bool

record TorrentContext =
  ctx_number_of_pieces :: nat
  ctx_piece_length :: u32
  ctx_pieces_info_hash :: bytes
  ctx_bitfield :: bytes
  ctx_pieces_missing :: bytes
  ctx_missing_pieces_count :: nat
  ctx_piece_data :: "PieceInfo list"
  ctx_piece_priority_queue :: "PieceRarity list"
  ctx_files_to_download :: "FileDetails list"
  ctx_selected_file_indices :: "nat list option"
  ctx_total_bytes_downloaded :: u64
  ctx_total_bytes_to_download :: u64
  ctx_status :: TorrentStatus
  ctx_atomic_status :: u8
  ctx_paused :: bool
  ctx_download_finished :: bool
  ctx_peer_swarm :: "(string \<times> Peer) list"
  ctx_maximum_swarm_size :: nat
  ctx_unchoked_peers_count :: u64
  ctx_bad_peer_scores :: "string \<rightharpoonup> nat"
  ctx_assembler :: Assembler
  ctx_pieces_verifying :: "u32 set"
  ctx_endgame_staging :: AdaptiveErasureStaging
  ctx_super_seeding :: SuperSeedingState
  ctx_file_merkle_trees :: "nat \<rightharpoonup> MerkleTree"
  ctx_file_merkle_proofs :: "nat \<times> nat \<rightharpoonup> MerkleProof"
  ctx_verified_v2_hashes :: "((bytes \<times> u32 \<times> u32) \<times> bytes list) list"
  ctx_piece_store :: PieceStore
  ctx_piece_manager :: PieceManager
  ctx_config :: SessionConfig
  ctx_events :: "SessionEvent list option"
  ctx_haves_sent :: "(string \<times> u32) list"

text \<open>\<open>0..self.number_of_pieces as u32\<close>\<close>

definition piece_range :: "TorrentContext \<Rightarrow> u32 list" where
  "piece_range tc = map of_nat [0..<ctx_number_of_pieces tc mod 2 ^ 32]"

text \<open>\<open>EventBroadcaster::emit\<close>, when there is a broadcaster\<close>

definition emit :: "SessionEvent \<Rightarrow> TorrentContext \<Rightarrow> TorrentContext" where
  "emit e tc = tc\<lparr>ctx_events := map_option (\<lambda>es. es @ [e]) (ctx_events tc)\<rparr>"

definition MAXIMUM_SWARM_SIZE :: nat where
  "MAXIMUM_SWARM_SIZE = 100"

text \<open>The fields of \<open>TorrentContextParams\<close> that the modelled state is built from.\<close>

record TorrentContextParams =
  prm_number_of_pieces :: nat
  prm_piece_length :: u32
  prm_pieces_info_hash :: bytes
  prm_bitfield :: bytes
  prm_pieces_missing :: bytes
  prm_piece_data :: "PieceInfo list"
  prm_files_to_download :: "FileDetails list"
  prm_total_bytes_to_download :: u64
  prm_status :: TorrentStatus
  prm_config :: SessionConfig

definition tc_new_base :: "TorrentContextParams \<Rightarrow> TorrentContext" where
  "tc_new_base params =
    \<lparr>ctx_number_of_pieces = prm_number_of_pieces params, ctx_piece_length = prm_piece_length params,
     ctx_pieces_info_hash = prm_pieces_info_hash params, ctx_bitfield = prm_bitfield params,
     ctx_pieces_missing = prm_pieces_missing params, ctx_missing_pieces_count = 0,
     ctx_piece_data = prm_piece_data params,
     ctx_piece_priority_queue = initial_queue (prm_number_of_pieces params),
     ctx_files_to_download = prm_files_to_download params, ctx_selected_file_indices = None,
     ctx_total_bytes_downloaded = 0, ctx_total_bytes_to_download = prm_total_bytes_to_download params,
     ctx_status = prm_status params, ctx_atomic_status = status_code (prm_status params),
     ctx_paused = False, ctx_download_finished = False,
     ctx_peer_swarm = [], ctx_maximum_swarm_size = MAXIMUM_SWARM_SIZE, ctx_unchoked_peers_count = 0,
     ctx_bad_peer_scores = Map.empty, ctx_assembler = assembler_new, ctx_pieces_verifying = {},
     ctx_endgame_staging = es_new (cfg_endgame_max_clones_per_block (prm_config params)),
     ctx_super_seeding = \<lparr>ss_enabled = cfg_super_seeding (prm_config params), piece_offered_to = Map.empty,
       peer_pending_piece = Map.empty, piece_swarm_count = Map.empty, total_pieces_offered = 0,
       total_pieces_propagated = 0\<rparr>,
     ctx_file_merkle_trees = Map.empty, ctx_file_merkle_proofs = Map.empty, ctx_verified_v2_hashes = [],
     ctx_piece_store = ps_new (prm_number_of_pieces params) (prm_piece_length params) (prm_pieces_info_hash params),
     ctx_piece_manager = pm_new (prm_number_of_pieces params) (prm_piece_length params) (prm_pieces_info_hash params),
     ctx_config = prm_config params, ctx_events = None, ctx_haves_sent = []\<rparr>"

text \<open>The arguments that \<open>TorrentContext::new\<close> passes, from what it reads in the meta information.\<close>

definition tc_new ::
  "bytes \<Rightarrow> u32 \<Rightarrow> u64 \<times> FileDetails list \<Rightarrow> bool \<Rightarrow> SessionConfig \<Rightarrow> TorrentContext" where
  "tc_new pieces_info_hash piece_length files seeding config =
    (let number_of_pieces = length pieces_info_hash div HASH_LENGTH in
     tc_new_base \<lparr>prm_number_of_pieces = number_of_pieces, prm_piece_length = piece_length,
       prm_pieces_info_hash = pieces_info_hash,
       prm_bitfield = replicate ((number_of_pieces + 7) div 8) 0,
       prm_pieces_missing = replicate ((number_of_pieces + 7) div 8) 0,
       prm_piece_data = replicate number_of_pieces \<lparr>pi_peer_count = 0, pi_piece_length = piece_length\<rparr>,
       prm_files_to_download = snd files, prm_total_bytes_to_download = fst files,
       prm_status = (if seeding then Seeding else Initialised), prm_config = config\<rparr>)"

definition new_magnet_bootstrap :: "SessionConfig \<Rightarrow> TorrentContext" where
  "new_magnet_bootstrap config =
     tc_new_base \<lparr>prm_number_of_pieces = 0, prm_piece_length = 0, prm_pieces_info_hash = [],
       prm_bitfield = [], prm_pieces_missing = [], prm_piece_data = [], prm_files_to_download = [],
       prm_total_bytes_to_download = 0, prm_status = Initialised, prm_config = config\<rparr>"

definition tc_init_pieces :: "nat \<Rightarrow> u32 \<Rightarrow> TorrentContext \<Rightarrow> TorrentContext" where
  "tc_init_pieces number_of_pieces piece_length tc =
    tc\<lparr>ctx_number_of_pieces := number_of_pieces, ctx_piece_length := piece_length,
       ctx_bitfield := replicate ((number_of_pieces + 7) div 8) 0,
       ctx_pieces_missing := replicate ((number_of_pieces + 7) div 8) 0,
       ctx_piece_data := replicate number_of_pieces \<lparr>pi_peer_count = 0, pi_piece_length = piece_length\<rparr>,
       ctx_piece_priority_queue := initial_queue number_of_pieces,
       ctx_piece_store := ps_init_pieces (ctx_piece_store tc) number_of_pieces piece_length,
       ctx_piece_manager := pm_init_pieces (ctx_piece_manager tc) number_of_pieces piece_length
         (ctx_pieces_info_hash tc)\<rparr>"

definition tc_validate :: "TorrentContext \<Rightarrow> unit result" where
  "tc_validate tc =
    (if ctx_pieces_info_hash tc = [] then Inr ()
     else if ctx_number_of_pieces tc = 0 then Inl (Parse ''Torrent must contain at least one piece.'')
     else if ctx_piece_length tc = 0 then Inl (Parse ''Torrent piece length must be greater than zero.'')
     else if ctx_files_to_download tc = [] then Inl (Parse ''Torrent contains no files to download.'')
     else if length (ctx_pieces_info_hash tc) \<noteq> ctx_number_of_pieces tc * HASH_LENGTH
     then Inl (Parse ''Torrent pieces hash list length does not match number of pieces.'')
     else if length (ctx_bitfield tc) \<noteq> (ctx_number_of_pieces tc + 7) div 8
     then Inl (Parse ''Torrent bitfield length is invalid.'')
     else Inr ())"

section \<open>Piece accounting\<close>

definition tc_mark_piece_local :: "TorrentContext \<Rightarrow> u32 \<Rightarrow> bool \<Rightarrow> TorrentContext" where
  "tc_mark_piece_local tc piece_number local =
    (let tc = tc\<lparr>ctx_bitfield := bf_put (ctx_bitfield tc) piece_number local,
                 ctx_piece_store := ps_mark_piece_local (ctx_piece_store tc) piece_number local,
                 ctx_piece_manager := pm_mark_piece_local (ctx_piece_manager tc) piece_number local\<rparr>
     in if local
        then emit (PieceCompleted (unat piece_number) (pm_completed_pieces_count (ctx_piece_manager tc))
               (ctx_number_of_pieces tc)) tc
        else tc)"

definition tc_is_piece_local :: "TorrentContext \<Rightarrow> u32 \<Rightarrow> bool" where
  "tc_is_piece_local tc piece_number =
    (if bf_range (ctx_bitfield tc) piece_number then bf_get (ctx_bitfield tc) piece_number
     else ps_is_piece_local (ctx_piece_store tc) piece_number)"

definition tc_mark_piece_missing :: "TorrentContext \<Rightarrow> u32 \<Rightarrow> bool \<Rightarrow> TorrentContext" where
  "tc_mark_piece_missing tc piece_number missing =
    (let was = bf_get (ctx_pieces_missing tc) piece_number;
         tc = (if bf_range (ctx_pieces_missing tc) piece_number then
                 (if missing then
                    (if \<not> was then
                       tc\<lparr>ctx_pieces_missing := bf_put (ctx_pieces_missing tc) piece_number True,
                          ctx_missing_pieces_count := ctx_missing_pieces_count tc + 1\<rparr>
                     else tc)
                  else if was then
                    tc\<lparr>ctx_pieces_missing := bf_put (ctx_pieces_missing tc) piece_number False,
                       ctx_missing_pieces_count := ctx_missing_pieces_count tc - 1\<rparr>
                  else tc)
               else tc)
     in tc\<lparr>ctx_piece_store := ps_mark_piece_missing (ctx_piece_store tc) piece_number missing,
           ctx_piece_manager := pm_mark_piece_missing (ctx_piece_manager tc) piece_number missing\<rparr>)"

definition tc_is_piece_missing :: "TorrentContext \<Rightarrow> u32 \<Rightarrow> bool" where
  "tc_is_piece_missing tc piece_number =
    (if bf_range (ctx_pieces_missing tc) piece_number then bf_get (ctx_pieces_missing tc) piece_number
     else ps_is_piece_missing (ctx_piece_store tc) piece_number)"

text \<open>
  The loop over the bits of a peer's bitfield, most significant first, with its two bounds. A
  piece it reaches is in range of \<open>piece_data\<close>.
\<close>

definition bump_peer_count :: "bool \<Rightarrow> u32 \<Rightarrow> TorrentContext \<Rightarrow> TorrentContext" where
  "bump_peer_count increment piece_number tc =
    (let idx = unat piece_number;
         info = ctx_piece_data tc ! idx;
         count = (if increment then pi_peer_count info + 1 else pi_peer_count info - 1)
     in tc\<lparr>ctx_piece_data := (ctx_piece_data tc)[idx := info\<lparr>pi_peer_count := count\<rparr>],
           ctx_piece_priority_queue := PieceRarity count piece_number # ctx_piece_priority_queue tc\<rparr>)"

definition update_piece_peer_counts :: "TorrentContext \<Rightarrow> Peer \<Rightarrow> bool \<Rightarrow> TorrentContext" where
  "update_piece_peer_counts tc remote_peer increment =
    (if ctx_piece_data tc = [] \<or> ctx_number_of_pieces tc = 0 then tc
     else fold (\<lambda>i tc. if bit (remote_piece_bitfield remote_peer ! (i div 8)) (7 - i mod 8)
                       then bump_peer_count increment (of_nat i) tc else tc)
       [0..<min (8 * length (remote_piece_bitfield remote_peer))
              (min (ctx_number_of_pieces tc) (length (ctx_piece_data tc)))] tc)"

definition merge_piece_bitfield :: "TorrentContext \<Rightarrow> Peer \<Rightarrow> TorrentContext" where
  "merge_piece_bitfield tc remote_peer = update_piece_peer_counts tc remote_peer True"

definition unmerge_piece_bitfield :: "TorrentContext \<Rightarrow> Peer \<Rightarrow> TorrentContext" where
  "unmerge_piece_bitfield tc remote_peer = update_piece_peer_counts tc remote_peer False"

definition tc_get_piece_length :: "TorrentContext \<Rightarrow> u32 \<Rightarrow> u32" where
  "tc_get_piece_length tc piece_number =
    (if unat piece_number < length (ctx_piece_data tc)
     then pi_piece_length (ctx_piece_data tc ! unat piece_number) else ctx_piece_length tc)"

definition tc_get_piece_peer_count :: "TorrentContext \<Rightarrow> u32 \<Rightarrow> nat" where
  "tc_get_piece_peer_count tc piece_number =
    (if unat piece_number < length (ctx_piece_data tc)
     then pi_peer_count (ctx_piece_data tc ! unat piece_number) else 0)"

definition tc_set_piece_length :: "TorrentContext \<Rightarrow> u32 \<Rightarrow> u32 \<Rightarrow> TorrentContext" where
  "tc_set_piece_length tc piece_number len =
    (if len \<le> ctx_piece_length tc \<and> unat piece_number < length (ctx_piece_data tc)
     then tc\<lparr>ctx_piece_data := (ctx_piece_data tc)[unat piece_number :=
            (ctx_piece_data tc ! unat piece_number)\<lparr>pi_piece_length := len\<rparr>]\<rparr>
     else tc)"

text \<open>
  The slice of the expected hash panics when the hash list is too short, as does the slice of a
  buffer that is shorter than the piece. The digests are compared byte by byte along their
  common length.
\<close>

definition expected_piece_hash :: "TorrentContext \<Rightarrow> u32 \<Rightarrow> bytes option" where
  "expected_piece_hash tc piece_number =
    (let offset = unat piece_number * HASH_LENGTH in
     if offset + HASH_LENGTH \<le> length (ctx_pieces_info_hash tc)
     then Some (bslice (ctx_pieces_info_hash tc) offset (offset + HASH_LENGTH)) else None)"

definition hash_matches :: "bytes \<Rightarrow> bytes \<Rightarrow> bool" where
  "hash_matches hash expected = list_all (\<lambda>(a, b). a = b) (zip hash expected)"

definition check_piece_hash :: "(bytes \<Rightarrow> bytes) \<Rightarrow> TorrentContext \<Rightarrow> u32 \<Rightarrow> bytes \<Rightarrow> u32 \<Rightarrow> bool option" where
  "check_piece_hash sha1 tc piece_number piece_buffer number_of_bytes =
    (if length piece_buffer < unat number_of_bytes then None
     else map_option (hash_matches (sha1 (take (unat number_of_bytes) piece_buffer))) (expected_piece_hash tc piece_number))"

text \<open>The read loop of \<open>check_piece_hash_streaming\<close>; the hasher's input is what has been read.\<close>

function stream_piece ::
  "'s BlockStorage \<Rightarrow> nat \<Rightarrow> nat \<Rightarrow> bytes \<Rightarrow> 's \<Rightarrow> bytes option \<times> 's" where
  "stream_piece st read_offset remaining acc s =
    (if remaining = 0 then (Some acc, s)
     else let to_read = min remaining BLOCK_SIZE in
       case st_read st s read_offset to_read of
         (Inr bs, s') \<Rightarrow>
           if length bs = to_read then stream_piece st (read_offset + to_read) (remaining - to_read) (acc @ bs) s'
           else (None, s')
       | (Inl _, s') \<Rightarrow> (None, s'))"
  by pat_completeness auto
termination stream_piece
  by (relation "measure (\<lambda>(_, _, remaining, _, _). remaining)") (auto simp: BLOCK_SIZE_def)

declare stream_piece.simps [simp del]

definition check_piece_hash_streaming ::
  "(bytes \<Rightarrow> bytes) \<Rightarrow> 's BlockStorage \<Rightarrow> TorrentContext \<Rightarrow> u32 \<Rightarrow> u32 \<Rightarrow> 's \<Rightarrow> bool option \<times> 's" where
  "check_piece_hash_streaming sha1 st tc piece_number number_of_bytes s =
    (case stream_piece st (unat piece_number * unat (ctx_piece_length tc)) (unat number_of_bytes) [] s of
       (Some data, s') \<Rightarrow> (map_option (hash_matches (sha1 data)) (expected_piece_hash tc piece_number), s')
     | (None, s') \<Rightarrow> (Some False, s'))"

definition tc_update_bitfield_status :: "TorrentContext \<Rightarrow> u32 \<Rightarrow> bool \<Rightarrow> u32 \<Rightarrow> TorrentContext" where
  "tc_update_bitfield_status tc piece_number piece_there number_of_bytes =
    (let tc = (if piece_there \<and> \<not> tc_is_piece_local tc piece_number
               then tc\<lparr>ctx_total_bytes_downloaded := ctx_total_bytes_downloaded tc + ucast number_of_bytes\<rparr>
               else tc);
         tc = tc_set_piece_length tc piece_number number_of_bytes;
         tc = tc_mark_piece_local tc piece_number piece_there
     in tc_mark_piece_missing tc piece_number (\<not> piece_there))"

definition update_bitfield_from_buffer ::
  "(bytes \<Rightarrow> bytes) \<Rightarrow> TorrentContext \<Rightarrow> u32 \<Rightarrow> bytes \<Rightarrow> u32 \<Rightarrow> TorrentContext option" where
  "update_bitfield_from_buffer sha1 tc piece_number piece_buffer number_of_bytes =
    map_option (\<lambda>piece_there. tc_update_bitfield_status tc piece_number piece_there number_of_bytes)
      (check_piece_hash sha1 tc piece_number piece_buffer number_of_bytes)"

definition bytes_left_to_download :: "u64 \<Rightarrow> TorrentContext \<Rightarrow> u64 result" where
  "bytes_left_to_download metrics_total tc =
    (let downloaded = ctx_total_bytes_downloaded tc;
         total_bytes = (if 0 < ctx_total_bytes_to_download tc then ctx_total_bytes_to_download tc
                        else metrics_total)
     in if total_bytes = 0 then Inr 0
        else if total_bytes < downloaded then Inl (Parse ''Bytes left to download turned negative.'')
        else Inr (total_bytes - downloaded))"

text \<open>\<open>progress_ppm\<close>: the product is taken in \<open>u64\<close>, the result is capped at 10000.\<close>

definition progress_ppm :: "u64 \<Rightarrow> TorrentContext \<Rightarrow> u32" where
  "progress_ppm metrics_total tc =
    (let total_bytes = (if 0 < ctx_total_bytes_to_download tc then ctx_total_bytes_to_download tc
                        else metrics_total)
     in if total_bytes = 0 then 0
        else ucast (min (ctx_total_bytes_downloaded tc * 10000 div total_bytes) 10000))"

section \<open>File priorities and completion\<close>

fun priority_rank :: "FilePriority \<Rightarrow> nat" where
  "priority_rank Skip = 0"
| "priority_rank Low = 1"
| "priority_rank Normal = 4"
| "priority_rank High = 7"

instantiation FilePriority :: linorder
begin

definition less_eq_FilePriority :: "FilePriority \<Rightarrow> FilePriority \<Rightarrow> bool" where
  "less_eq_FilePriority a b \<longleftrightarrow> priority_rank a \<le> priority_rank b"

definition less_FilePriority :: "FilePriority \<Rightarrow> FilePriority \<Rightarrow> bool" where
  "less_FilePriority a b \<longleftrightarrow> priority_rank a < priority_rank b"

instance
proof
  fix a b :: FilePriority
  show "a \<le> b \<Longrightarrow> b \<le> a \<Longrightarrow> a = b"
    by (cases a; cases b) (simp_all add: less_eq_FilePriority_def)
qed (auto simp: less_eq_FilePriority_def less_FilePriority_def)

end

definition piece_end_offset :: "TorrentContext \<Rightarrow> u32 \<Rightarrow> nat" where
  "piece_end_offset tc piece =
    (let piece_start = unat piece * unat (ctx_piece_length tc) in
     if 0 < ctx_total_bytes_to_download tc
     then min (piece_start + unat (ctx_piece_length tc)) (unat (ctx_total_bytes_to_download tc))
     else piece_start + unat (ctx_piece_length tc))"

definition file_overlaps :: "TorrentContext \<Rightarrow> u32 \<Rightarrow> FileDetails \<Rightarrow> bool" where
  "file_overlaps tc piece file \<longleftrightarrow>
    0 < fd_length file \<and> fd_offset file < piece_end_offset tc piece
    \<and> unat piece * unat (ctx_piece_length tc) < fd_offset file + fd_length file"

definition get_piece_priority :: "TorrentContext \<Rightarrow> u32 \<Rightarrow> FilePriority" where
  "get_piece_priority tc piece =
    (if ctx_files_to_download tc = [] \<or> ctx_piece_length tc = 0 then Normal
     else if piece_end_offset tc piece \<le> unat piece * unat (ctx_piece_length tc) then Normal
     else case fold (\<lambda>file mx. if file_overlaps tc piece file
                     then Some (case mx of None \<Rightarrow> fd_priority file | Some p \<Rightarrow> max p (fd_priority file))
                     else mx) (ctx_files_to_download tc) None of
            None \<Rightarrow> Normal
          | Some p \<Rightarrow> p)"

definition is_piece_wanted :: "TorrentContext \<Rightarrow> u32 \<Rightarrow> bool" where
  "is_piece_wanted tc piece \<longleftrightarrow> get_piece_priority tc piece \<noteq> Skip"

definition tc_clear_piece_requests :: "u32 \<Rightarrow> TorrentContext \<Rightarrow> TorrentContext" where
  "tc_clear_piece_requests piece_number tc =
    tc\<lparr>ctx_assembler := as_clear_piece_requests (ctx_assembler tc) piece_number\<rparr>"

definition clear_unwanted_requests :: "TorrentContext \<Rightarrow> TorrentContext" where
  "clear_unwanted_requests tc =
    fold (\<lambda>piece tc. if \<not> is_piece_wanted tc piece then tc_clear_piece_requests piece tc else tc)
      (piece_range tc) tc"

definition reseed_queue :: "TorrentContext \<Rightarrow> TorrentContext" where
  "reseed_queue tc = tc\<lparr>ctx_piece_priority_queue :=
    map (\<lambda>p. PieceRarity (tc_get_piece_peer_count tc p) p)
      (filter (\<lambda>p. is_piece_wanted tc p \<and> \<not> tc_is_piece_local tc p) (piece_range tc))\<rparr>"

definition set_file_priority :: "nat \<Rightarrow> FilePriority \<Rightarrow> TorrentContext \<Rightarrow> unit result \<times> TorrentContext" where
  "set_file_priority file_index priority tc =
    (if length (ctx_files_to_download tc) \<le> file_index
     then (Inl (Parse (''File index '' @ string_of_nat file_index @ '' out of range'')), tc)
     else
       let fs = ctx_files_to_download tc;
           tc = tc\<lparr>ctx_files_to_download := fs[file_index := (fs ! file_index)\<lparr>fd_priority := priority\<rparr>]\<rparr>
       in (Inr (), if priority = Skip then clear_unwanted_requests tc else reseed_queue tc))"

definition select_file :: "nat list \<Rightarrow> nat \<Rightarrow> FileDetails \<Rightarrow> FileDetails" where
  "select_file selected idx file =
    (if idx \<in> set selected
     then (if fd_priority file = Skip then file\<lparr>fd_priority := Normal\<rparr> else file)
     else file\<lparr>fd_priority := Skip\<rparr>)"

definition apply_bep53_file_selection :: "nat list \<Rightarrow> TorrentContext \<Rightarrow> TorrentContext" where
  "apply_bep53_file_selection selected tc =
    reseed_queue (clear_unwanted_requests
      (tc\<lparr>ctx_files_to_download :=
        map (\<lambda>(idx, file). select_file selected idx file)
          (zip [0..<length (ctx_files_to_download tc)] (ctx_files_to_download tc))\<rparr>))"

definition set_selected_files :: "nat list \<Rightarrow> TorrentContext \<Rightarrow> TorrentContext" where
  "set_selected_files indices tc =
    (let sorted_indices = remdups_adj (sort indices);
         tc = tc\<lparr>ctx_selected_file_indices := Some sorted_indices\<rparr>
     in if ctx_files_to_download tc \<noteq> [] then apply_bep53_file_selection sorted_indices tc else tc)"

definition tc_is_download_complete :: "TorrentContext \<Rightarrow> bool" where
  "tc_is_download_complete tc \<longleftrightarrow>
    \<not> (ctx_number_of_pieces tc = 0 \<or> ctx_total_bytes_to_download tc = 0)
    \<and> list_all (\<lambda>p. is_piece_wanted tc p \<longrightarrow> tc_is_piece_local tc p) (piece_range tc)
    \<and> list_ex (is_piece_wanted tc) (piece_range tc)"

definition is_endgame :: "TorrentContext \<Rightarrow> bool" where
  "is_endgame tc \<longleftrightarrow>
    length (take (ENDGAME_THRESHOLD + 1)
      (filter (\<lambda>p. is_piece_wanted tc p \<and> \<not> tc_is_piece_local tc p) (piece_range tc))) \<le> ENDGAME_THRESHOLD"

section \<open>Lifecycle\<close>

definition set_status :: "TorrentStatus \<Rightarrow> TorrentContext \<Rightarrow> TorrentContext" where
  "set_status status tc = tc\<lparr>ctx_status := status, ctx_atomic_status := status_code status\<rparr>"

definition start_downloading :: "TorrentContext \<Rightarrow> unit result \<times> TorrentContext" where
  "start_downloading tc =
    (if ctx_status tc = Downloading then (Inl (Parse ''Torrent is already downloading.''), tc)
     else if ctx_status tc = Ended then (Inl (Parse ''Cannot restart a finished torrent.''), tc)
     else if tc_is_download_complete tc
     then (Inr (), (set_status Seeding tc)\<lparr>ctx_download_finished := True\<rparr>)
     else (Inr (), set_status Downloading tc))"

definition tc_pause :: "TorrentContext \<Rightarrow> unit result \<times> TorrentContext" where
  "tc_pause tc =
    (if ctx_status tc \<noteq> Downloading \<and> ctx_status tc \<noteq> Seeding
     then (Inl (Parse ''Torrent can only be paused while downloading or seeding.''), tc)
     else (Inr (), (set_status Paused tc)\<lparr>ctx_paused := True\<rparr>))"

definition tc_resume :: "TorrentContext \<Rightarrow> unit result \<times> TorrentContext" where
  "tc_resume tc =
    (if ctx_status tc \<noteq> Paused then (Inl (Parse ''Torrent can only be resumed when paused.''), tc)
     else (Inr (), (set_status (if tc_is_download_complete tc then Seeding else Downloading) tc)
                     \<lparr>ctx_paused := False\<rparr>))"

definition tc_stop :: "TorrentContext \<Rightarrow> unit result \<times> TorrentContext" where
  "tc_stop tc =
    (if ctx_status tc = Ended then (Inl (Parse ''Torrent has already been stopped.''), tc)
     else (Inr (), (set_status Ended tc)\<lparr>ctx_download_finished := True\<rparr>))"

definition try_complete_download :: "TorrentContext \<Rightarrow> TorrentContext" where
  "try_complete_download tc =
    (if ctx_status tc = Downloading \<and> tc_is_download_complete tc
     then emit DownloadFinished (emit (StateChanged Seeding)
            ((set_status Seeding tc)\<lparr>ctx_download_finished := True\<rparr>))
     else tc)"

section \<open>Peers\<close>

definition is_peer_blacklisted :: "TorrentContext \<Rightarrow> string \<Rightarrow> bool" where
  "is_peer_blacklisted tc ip = (case ctx_bad_peer_scores tc ip of Some score \<Rightarrow> 3 \<le> score | None \<Rightarrow> False)"

definition is_space_in_swarm :: "TorrentContext \<Rightarrow> string \<Rightarrow> bool" where
  "is_space_in_swarm tc ip \<longleftrightarrow> ip \<noteq> []
    \<and> map_of (ctx_peer_swarm tc) ip = None \<and> length (ctx_peer_swarm tc) < ctx_maximum_swarm_size tc"

definition add_peer :: "Peer \<Rightarrow> TorrentContext \<Rightarrow> bool \<times> TorrentContext" where
  "add_peer peer tc =
    (if is_peer_blacklisted tc (peer_ip peer) then (False, tc)
     else if is_space_in_swarm tc (peer_ip peer)
     then (True, tc\<lparr>ctx_peer_swarm := AList.update (peer_ip peer) peer (ctx_peer_swarm tc)\<rparr>)
     else (False, tc))"

text \<open>\<open>fetch_sub\<close> on the counter wraps.\<close>

definition remove_peer :: "string \<Rightarrow> TorrentContext \<Rightarrow> TorrentContext" where
  "remove_peer ip tc = (case map_of (ctx_peer_swarm tc) ip of
      None \<Rightarrow> tc
    | Some peer \<Rightarrow>
        let tc = tc\<lparr>ctx_peer_swarm := AList.delete ip (ctx_peer_swarm tc)\<rparr>;
            tc = (if peer_unchoked peer
                  then tc\<lparr>ctx_unchoked_peers_count := ctx_unchoked_peers_count tc - 1\<rparr> else tc)
        in unmerge_piece_bitfield tc peer)"

definition report_bad_peer :: "string \<Rightarrow> TorrentContext \<Rightarrow> TorrentContext" where
  "report_bad_peer ip tc =
    (let score = (case ctx_bad_peer_scores tc ip of Some k \<Rightarrow> k | None \<Rightarrow> 0) + 1;
         tc = tc\<lparr>ctx_bad_peer_scores := (ctx_bad_peer_scores tc)(ip \<mapsto> score)\<rparr>
     in if 3 \<le> score
        then (case map_of (ctx_peer_swarm tc) ip of
                None \<Rightarrow> tc
              | Some peer \<Rightarrow>
                  let tc = tc\<lparr>ctx_peer_swarm := AList.delete ip (ctx_peer_swarm tc)\<rparr>
                  in if peer_unchoked peer
                     then tc\<lparr>ctx_unchoked_peers_count := ctx_unchoked_peers_count tc - 1\<rparr> else tc)
        else tc)"

definition disconnect_all_peers :: "TorrentContext \<Rightarrow> TorrentContext" where
  "disconnect_all_peers tc = tc\<lparr>ctx_peer_swarm := []\<rparr>"

definition increment_peer_count :: "u32 \<Rightarrow> TorrentContext \<Rightarrow> TorrentContext" where
  "increment_peer_count piece_number tc =
    (if unat piece_number < length (ctx_piece_data tc) then bump_peer_count True piece_number tc else tc)"

definition broadcast_have :: "u32 \<Rightarrow> TorrentContext \<Rightarrow> TorrentContext" where
  "broadcast_have piece_number tc =
    tc\<lparr>ctx_haves_sent := ctx_haves_sent tc @ map (\<lambda>e. (fst e, piece_number)) (ctx_peer_swarm tc)\<rparr>"

definition mark_piece_verifying :: "u32 \<Rightarrow> bool \<Rightarrow> TorrentContext \<Rightarrow> TorrentContext" where
  "mark_piece_verifying piece_number verifying tc =
    tc\<lparr>ctx_pieces_verifying := (if verifying then insert piece_number (ctx_pieces_verifying tc)
         else ctx_pieces_verifying tc - {piece_number}),
       ctx_piece_store := ps_set_piece_verifying (ctx_piece_store tc) piece_number verifying\<rparr>"

end
