(* ===== verification/Bitfield_Scanner.thy ===== *)
theory Bitfield_Scanner
  imports Bitfield
begin

text \<open>
  \<open>BitfieldScanner\<close> (\<open>library/src/storage/bitfield_scanner.rs\<close>): the pieces found on disk at start-up.
  SHA-1 and the storage's \<open>read_block\<close> are parameters. A file is the list of what its reads
  return, cut where the operating system likes; a file that does not exist is \<open>None\<close>.
  \<open>piece_length\<close> is positive and piece numbers stay below \<open>2 ^ 32\<close>, as in the code's own types.
\<close>

section \<open>Definitions\<close>

record PieceScanStatus =
  piece_index :: u32
  is_valid :: bool
  scan_length :: nat

record ScanResult =
  sr_bitfield :: bytes
  piece_statuses :: "PieceScanStatus list"
  downloaded_bytes :: nat

definition verify_hash :: "(bytes \<Rightarrow> bytes) \<Rightarrow> u32 \<Rightarrow> bytes \<Rightarrow> bytes \<Rightarrow> bool" where
  "verify_hash sha1 piece_number buffer expected_hashes =
     (let offset = unat piece_number * HASH_LENGTH in
      if offset + HASH_LENGTH > length expected_hashes then False
      else sha1 buffer = bslice expected_hashes offset (offset + HASH_LENGTH))"

text \<open>The part the two scans share: record the status of one piece.\<close>

definition record_piece :: "u32 \<Rightarrow> bool \<Rightarrow> nat \<Rightarrow> ScanResult \<Rightarrow> ScanResult" where
  "record_piece piece valid len r =
     \<lparr>sr_bitfield = (if valid then bf_put (sr_bitfield r) piece True else sr_bitfield r),
      piece_statuses = piece_statuses r @ [\<lparr>piece_index = piece, is_valid = valid, scan_length = len\<rparr>],
      downloaded_bytes = (if valid then downloaded_bytes r + len else downloaded_bytes r)\<rparr>"

definition empty_scan :: "nat \<Rightarrow> ScanResult" where
  "empty_scan num_pieces =
     \<lparr>sr_bitfield = replicate ((num_pieces + 7) div 8) 0, piece_statuses = [], downloaded_bytes = 0\<rparr>"

subsection \<open>\<open>scan_storage\<close>\<close>

definition storage_piece_length :: "nat \<Rightarrow> nat \<Rightarrow> nat \<Rightarrow> nat \<Rightarrow> nat" where
  "storage_piece_length number_of_pieces piece_length total_bytes piece =
     (if piece = number_of_pieces - 1 then
        (let rem = total_bytes mod piece_length in if rem = 0 then piece_length else rem)
      else piece_length)"

definition storage_piece_valid ::
  "(bytes \<Rightarrow> bytes) \<Rightarrow> (nat \<Rightarrow> nat \<Rightarrow> bytes result) \<Rightarrow> nat \<Rightarrow> nat \<Rightarrow> nat \<Rightarrow> bytes \<Rightarrow> nat \<Rightarrow> bool" where
  "storage_piece_valid sha1 read_block number_of_pieces piece_length total_bytes expected_hashes piece =
     (let len = storage_piece_length number_of_pieces piece_length total_bytes piece in
      case read_block (piece * piece_length) len of
        Inr data \<Rightarrow> length data = len \<and> verify_hash sha1 (of_nat piece) data expected_hashes
      | Inl _ \<Rightarrow> False)"

definition scan_storage ::
  "(bytes \<Rightarrow> bytes) \<Rightarrow> (nat \<Rightarrow> nat \<Rightarrow> bytes result) \<Rightarrow> nat \<Rightarrow> nat \<Rightarrow> nat \<Rightarrow> bytes \<Rightarrow> ScanResult" where
  "scan_storage sha1 read_block number_of_pieces piece_length total_bytes expected_hashes =
     foldl (\<lambda>r piece. record_piece (of_nat piece)
         (storage_piece_valid sha1 read_block number_of_pieces piece_length total_bytes expected_hashes piece)
         (storage_piece_length number_of_pieces piece_length total_bytes piece) r)
       (empty_scan number_of_pieces) [0..<number_of_pieces]"

subsection \<open>\<open>scan_local_files\<close>\<close>

record LocalScan = ScanResult +
  ls_piece_buffer :: bytes
  ls_piece_number :: u32

definition finish_piece :: "(bytes \<Rightarrow> bytes) \<Rightarrow> bytes \<Rightarrow> LocalScan \<Rightarrow> LocalScan" where
  "finish_piece sha1 expected_hashes st =
     ScanResult.extend
       (record_piece (ls_piece_number st)
         (verify_hash sha1 (ls_piece_number st) (ls_piece_buffer st) expected_hashes)
         (length (ls_piece_buffer st)) (ScanResult.truncate st))
       (LocalScan.fields [] (ls_piece_number st + 1))"

function scan_file :: "(bytes \<Rightarrow> bytes) \<Rightarrow> nat \<Rightarrow> bytes \<Rightarrow> bytes list \<Rightarrow> LocalScan \<Rightarrow> LocalScan" where
  "scan_file sha1 piece_length expected_hashes [] st = st"
| "scan_file sha1 piece_length expected_hashes (chunk # chunks) st =
     (let space = piece_length - length (ls_piece_buffer st) in
      if chunk = [] \<or> space = 0 then st
      else
        let st1 = st\<lparr>ls_piece_buffer := ls_piece_buffer st @ take space chunk\<rparr>;
            st2 = (if length (ls_piece_buffer st1) = piece_length
                   then finish_piece sha1 expected_hashes st1 else st1)
        in if length chunk \<le> space then scan_file sha1 piece_length expected_hashes chunks st2
           else scan_file sha1 piece_length expected_hashes (drop space chunk # chunks) st2)"
  by pat_completeness auto
termination
  by (relation "measure (\<lambda>(_, _, _, chunks, _). length chunks + length (concat chunks))") auto

declare scan_file.simps(2) [simp del]

definition scan_local_files ::
  "(bytes \<Rightarrow> bytes) \<Rightarrow> bytes list option list \<Rightarrow> nat \<Rightarrow> bytes \<Rightarrow> ScanResult" where
  "scan_local_files sha1 files piece_length expected_hashes =
     (if piece_length = 0 \<or> expected_hashes = [] then
        \<lparr>sr_bitfield = [], piece_statuses = [], downloaded_bytes = 0\<rparr>
      else
        let init = ScanResult.extend (empty_scan (length expected_hashes div HASH_LENGTH))
              (LocalScan.fields [] 0);
            st = foldl (\<lambda>st file. case file of None \<Rightarrow> st
                   | Some chunks \<Rightarrow> scan_file sha1 piece_length expected_hashes chunks st) init files
        in ScanResult.truncate
             (if ls_piece_buffer st \<noteq> [] then finish_piece sha1 expected_hashes st else st))"

section \<open>What the scans compute\<close>

lemma record_piece_bits:
  "bf_get (sr_bitfield (record_piece p v len r)) q \<longleftrightarrow>
     (if v \<and> q = p \<and> bf_range (sr_bitfield r) p then True else bf_get (sr_bitfield r) q)"
  by (auto simp: record_piece_def bf_get_put)

lemma record_piece_range: "bf_range (sr_bitfield (record_piece p v len r)) q = bf_range (sr_bitfield r) q"
  by (simp add: record_piece_def bf_range_def)

lemma scan_fold:
  assumes "\<forall>i \<in> set ps. i < 2 ^ 32"
  shows "bf_range (sr_bitfield (foldl (\<lambda>r i. record_piece (of_nat i) (v i) (l i) r) r ps)) q =
      bf_range (sr_bitfield r) q \<and>
    (bf_get (sr_bitfield (foldl (\<lambda>r i. record_piece (of_nat i) (v i) (l i) r) r ps)) q \<longleftrightarrow>
      bf_get (sr_bitfield r) q \<or> unat q \<in> set ps \<and> v (unat q) \<and> bf_range (sr_bitfield r) q) \<and>
    downloaded_bytes (foldl (\<lambda>r i. record_piece (of_nat i) (v i) (l i) r) r ps) =
      downloaded_bytes r + sum_list (map l (filter v ps))"
  using assms
proof (induction ps arbitrary: r)
  case (Cons i ps)
  let ?r = "record_piece (of_nat i) (v i) (l i) r"
  have q: "q = of_nat i \<longleftrightarrow> unat q = i"
    using Cons.prems by (auto simp: unat_of_nat)
  have d: "downloaded_bytes ?r = downloaded_bytes r + (if v i then l i else 0)"
    by (simp add: record_piece_def)
  note IH = Cons.IH [of ?r, unfolded record_piece_bits record_piece_range d q]
  from Cons.prems have "\<forall>i \<in> set ps. i < 2 ^ 32" by simp
  note IH = IH [OF this]
  show ?case
    unfolding foldl_Cons using IH by auto
qed simp

lemma scan_storage_bits:
  assumes "n < 2 ^ 32"
  shows "bf_get (sr_bitfield (scan_storage sha1 rd n plen tot hashes)) q \<longleftrightarrow>
      unat q < n \<and> storage_piece_valid sha1 rd n plen tot hashes (unat q)"
    and "downloaded_bytes (scan_storage sha1 rd n plen tot hashes) =
      sum_list (map (storage_piece_length n plen tot)
        (filter (storage_piece_valid sha1 rd n plen tot hashes) [0..<n]))"
proof -
  have r: "bf_range (sr_bitfield (empty_scan n)) q" if "unat q < n"
    using that by (simp add: empty_scan_def bf_range_def less_eq_Suc_le div_less_iff_less_mult)
  have e: "\<not> bf_get (sr_bitfield (empty_scan n)) q" by (simp add: empty_scan_def)
  have "\<forall>i \<in> set [0..<n]. i < 2 ^ 32" using assms by simp
  note fold = scan_fold [OF this, where v = "storage_piece_valid sha1 rd n plen tot hashes"
      and l = "storage_piece_length n plen tot" and r = "empty_scan n" and q = q]
  from fold r e show "bf_get (sr_bitfield (scan_storage sha1 rd n plen tot hashes)) q \<longleftrightarrow>
      unat q < n \<and> storage_piece_valid sha1 rd n plen tot hashes (unat q)"
    by (auto simp: scan_storage_def)
  from fold show "downloaded_bytes (scan_storage sha1 rd n plen tot hashes) =
      sum_list (map (storage_piece_length n plen tot)
        (filter (storage_piece_valid sha1 rd n plen tot hashes) [0..<n]))"
    by (simp add: scan_storage_def empty_scan_def)
qed

text \<open>
  The file scan, byte by byte: what it computes depends only on the concatenation of the
  files that exist.
\<close>

definition absorb_byte :: "(bytes \<Rightarrow> bytes) \<Rightarrow> nat \<Rightarrow> bytes \<Rightarrow> LocalScan \<Rightarrow> u8 \<Rightarrow> LocalScan" where
  "absorb_byte sha1 piece_length expected_hashes st b =
     (let st1 = st\<lparr>ls_piece_buffer := ls_piece_buffer st @ [b]\<rparr> in
      if length (ls_piece_buffer st1) = piece_length then finish_piece sha1 expected_hashes st1 else st1)"

lemma finish_piece_fields [simp]:
  "ls_piece_buffer (finish_piece sha1 h st) = []"
  "ls_piece_number (finish_piece sha1 h st) = ls_piece_number st + 1"
  by (simp_all add: finish_piece_def LocalScan.defs ScanResult.defs record_piece_def)

lemma absorb_run:
  assumes "length (ls_piece_buffer st) + length bs \<le> plen" and "bs \<noteq> []"
  shows "foldl (absorb_byte sha1 plen h) st bs =
    (let st1 = st\<lparr>ls_piece_buffer := ls_piece_buffer st @ bs\<rparr> in
     if length (ls_piece_buffer st1) = plen then finish_piece sha1 h st1 else st1)"
  using assms
proof (induction bs arbitrary: st)
  case (Cons b bs)
  show ?case
  proof (cases "bs = []")
    case False
    with Cons.prems have "absorb_byte sha1 plen h st b = st\<lparr>ls_piece_buffer := ls_piece_buffer st @ [b]\<rparr>"
      by (cases bs) (simp_all add: absorb_byte_def)
    with Cons.IH [of "st\<lparr>ls_piece_buffer := ls_piece_buffer st @ [b]\<rparr>"] Cons.prems False
    show ?thesis by simp
  qed (simp add: absorb_byte_def)
qed simp

lemma scan_file_absorb:
  assumes "length (ls_piece_buffer st) < plen" and "[] \<notin> set chunks"
  shows "scan_file sha1 plen h chunks st = foldl (absorb_byte sha1 plen h) st (concat chunks) \<and>
    length (ls_piece_buffer (scan_file sha1 plen h chunks st)) < plen"
  using assms
proof (induction sha1 plen h chunks st rule: scan_file.induct)
  case (2 sha1 plen h chunk chunks st)
  let ?space = "plen - length (ls_piece_buffer st)"
  let ?st1 = "st\<lparr>ls_piece_buffer := ls_piece_buffer st @ take ?space chunk\<rparr>"
  let ?st2 = "if length (ls_piece_buffer ?st1) = plen then finish_piece sha1 h ?st1 else ?st1"
  have go: "\<not> (chunk = [] \<or> ?space = 0)" using "2.prems" by auto
  have run: "foldl (absorb_byte sha1 plen h) st (take ?space chunk) = ?st2"
    using absorb_run [of st "take ?space chunk" plen sha1 h] go "2.prems"
    by (auto simp: Let_def min_def)
  have less: "length (ls_piece_buffer ?st2) < plen" using "2.prems" go by (auto simp: min_def)
  have IH: "scan_file sha1 plen h cs ?st2 = foldl (absorb_byte sha1 plen h) ?st2 (concat cs) \<and>
      length (ls_piece_buffer (scan_file sha1 plen h cs ?st2)) < plen"
    if "cs = (if length chunk \<le> ?space then chunks else drop ?space chunk # chunks)" for cs
  proof (cases "length chunk \<le> ?space")
    case True
    have "[] \<notin> set chunks" using "2.prems" by simp
    then show ?thesis
      unfolding that if_P [OF True] by (rule "2.IH"(1) [OF refl go refl refl True less])
  next
    case False
    have "[] \<notin> set (drop ?space chunk # chunks)" using False "2.prems" by simp
    then show ?thesis
      unfolding that if_not_P [OF False] by (rule "2.IH"(2) [OF refl go refl refl False less])
  qed
  have step: "scan_file sha1 plen h (chunk # chunks) st =
      scan_file sha1 plen h (if length chunk \<le> ?space then chunks else drop ?space chunk # chunks) ?st2"
    using go by (simp add: scan_file.simps(2) Let_def)
  have "concat (chunk # chunks) =
      take ?space chunk @ concat (if length chunk \<le> ?space then chunks else drop ?space chunk # chunks)"
    by simp
  then have run_on: "foldl (absorb_byte sha1 plen h) st (concat (chunk # chunks)) =
      foldl (absorb_byte sha1 plen h) ?st2
        (concat (if length chunk \<le> ?space then chunks else drop ?space chunk # chunks))"
    by (simp only: foldl_append run)
  show ?case unfolding step run_on by (rule IH [OF refl])
qed simp_all

definition scan_invariant ::
  "(bytes \<Rightarrow> bytes) \<Rightarrow> nat \<Rightarrow> bytes \<Rightarrow> bytes \<Rightarrow> LocalScan \<Rightarrow> bool" where
  "scan_invariant sha1 plen h data st \<longleftrightarrow>
     ls_piece_buffer st = drop (length data div plen * plen) data \<and>
     ls_piece_number st = of_nat (length data div plen) \<and>
     length (sr_bitfield st) = (length h div HASH_LENGTH + 7) div 8 \<and>
     (\<forall>q. bf_get (sr_bitfield st) q \<longleftrightarrow> unat q < length data div plen \<and>
        verify_hash sha1 q (bslice data (unat q * plen) (unat q * plen + plen)) h)"

lemma verify_hash_range:
  "verify_hash sha1 q d h \<Longrightarrow> length bf = (length h div HASH_LENGTH + 7) div 8 \<Longrightarrow> bf_range bf q"
proof -
  assume "verify_hash sha1 q d h" and len: "length bf = (length h div HASH_LENGTH + 7) div 8"
  then have "(unat q + 1) * HASH_LENGTH \<le> length h"
    by (simp add: verify_hash_def Let_def split: if_splits)
  then have "unat q < length h div HASH_LENGTH"
    by (simp add: HASH_LENGTH_def less_eq_div_iff_mult_less_eq Suc_le_eq [symmetric])
  then have "unat q div 8 < (length h div HASH_LENGTH + 7) div 8"
    by (simp add: less_eq_Suc_le div_less_iff_less_mult)
  with len show "bf_range bf q" by (simp add: bf_range_def)
qed

lemma finish_piece_bits:
  assumes "length (sr_bitfield st) = (length h div HASH_LENGTH + 7) div 8"
  shows "bf_get (sr_bitfield (finish_piece sha1 h st)) q \<longleftrightarrow>
      bf_get (sr_bitfield st) q \<or> q = ls_piece_number st \<and> verify_hash sha1 q (ls_piece_buffer st) h"
    and "length (sr_bitfield (finish_piece sha1 h st)) = length (sr_bitfield st)"
  using verify_hash_range [OF _ assms]
  by (auto simp: finish_piece_def LocalScan.defs ScanResult.defs record_piece_def bf_get_put)

lemma eq_of_nat_unat: "k < 2 ^ 32 \<Longrightarrow> q = of_nat k \<longleftrightarrow> unat q = k" for q :: u32
proof
  assume "k < 2 ^ 32" and "q = of_nat k"
  then show "unat q = k" by (simp add: unat_of_nat)
next
  assume "unat q = k"
  then have "of_nat (unat q) = (of_nat k :: u32)" by simp
  then show "q = of_nat k" by simp
qed

lemma bslice_snoc: "b \<le> length d \<Longrightarrow> bslice (d @ [x]) a b = bslice d a b"
  by (cases "a \<le> b") (simp_all add: bslice_def)

lemma scan_invariant_snoc:
  assumes inv: "scan_invariant sha1 plen h d st" and plen: "0 < plen"
    and small: "length (d @ [b]) div plen < 2 ^ 32"
  shows "scan_invariant sha1 plen h (d @ [b]) (absorb_byte sha1 plen h st b)"
proof -
  let ?k = "length d div plen"
  note I = inv [unfolded scan_invariant_def]
  have len: "?k * plen + length d mod plen = length d" by simp
  have buf: "ls_piece_buffer st @ [b] = drop (?k * plen) (d @ [b])" using I by simp
  have keep: "bslice (d @ [b]) (unat q * plen) (unat q * plen + plen) =
      bslice d (unat q * plen) (unat q * plen + plen)" if "unat q < ?k" for q :: u32
  proof (rule bslice_snoc)
    have "unat q * plen + plen \<le> ?k * plen"
      using mult_le_mono1 [of "unat q + 1" ?k plen] that by simp
    then show "unat q * plen + plen \<le> length d" by (rule order_trans) simp
  qed
  have nth: "length (ls_piece_buffer st @ [b]) = Suc (length d mod plen)"
    using I by (simp add: minus_mod_eq_div_mult [symmetric])
  show ?thesis
  proof (cases "Suc (length d mod plen) = plen")
    case True
    have eq: "Suc (length d) = ?k * plen + plen" using len True by linarith
    then have k: "length (d @ [b]) div plen = Suc ?k" using plen by simp
    let ?st1 = "st\<lparr>ls_piece_buffer := ls_piece_buffer st @ [b]\<rparr>"
    have st: "absorb_byte sha1 plen h st b = finish_piece sha1 h ?st1"
      using True nth by (simp add: absorb_byte_def)
    have q: "q = ls_piece_number ?st1 \<longleftrightarrow> unat q = ?k" for q
      using I eq_of_nat_unat [of ?k q] small k by simp
    have "ls_piece_buffer ?st1 = bslice (d @ [b]) (?k * plen) (?k * plen + plen)"
      using eq buf by (simp add: bslice_def)
    moreover have "length (sr_bitfield ?st1) = (length h div HASH_LENGTH + 7) div 8"
      using I by simp
    note bits = finish_piece_bits [OF this]
    ultimately show ?thesis
      unfolding scan_invariant_def st k
      using I keep q eq by (auto simp: bits less_Suc_eq)
  next
    case False
    then have k: "length (d @ [b]) div plen = ?k" using plen by (simp add: div_Suc mod_Suc)
    have st: "absorb_byte sha1 plen h st b = st\<lparr>ls_piece_buffer := ls_piece_buffer st @ [b]\<rparr>"
      using False nth by (simp add: absorb_byte_def)
    show ?thesis
      unfolding scan_invariant_def st k using I keep buf by auto
  qed
qed

lemma scan_invariant_absorb:
  assumes "scan_invariant sha1 plen h [] st" and "0 < plen" and "length data div plen < 2 ^ 32"
  shows "scan_invariant sha1 plen h data (foldl (absorb_byte sha1 plen h) st data)"
  using assms(3)
proof (induction data rule: rev_induct)
  case Nil
  from assms(1) show ?case by simp
next
  case (snoc b d)
  have "length d div plen \<le> length (d @ [b]) div plen" by (simp add: div_le_mono)
  with snoc.prems have "length d div plen < 2 ^ 32" by linarith
  from scan_invariant_snoc [OF snoc.IH [OF this] assms(2) snoc.prems] show ?case by simp
qed

definition present_data :: "bytes list option list \<Rightarrow> bytes" where
  "present_data files = concat (concat (map (\<lambda>f. case f of None \<Rightarrow> [] | Some cs \<Rightarrow> cs) files))"

lemma scan_files_absorb:
  assumes "length (ls_piece_buffer st) < plen" and "\<forall>cs. Some cs \<in> set files \<longrightarrow> [] \<notin> set cs"
  shows "foldl (\<lambda>st file. case file of None \<Rightarrow> st | Some chunks \<Rightarrow> scan_file sha1 plen h chunks st) st files =
    foldl (absorb_byte sha1 plen h) st (present_data files)"
  using assms
proof (induction files arbitrary: st)
  case (Cons f files)
  show ?case
  proof (cases f)
    case None
    with Cons show ?thesis by (simp add: present_data_def)
  next
    case (Some cs)
    with Cons.prems have "[] \<notin> set cs" by simp
    note sf = scan_file_absorb [OF Cons.prems(1) this, of sha1 h]
    have "foldl (\<lambda>st file. case file of None \<Rightarrow> st | Some chunks \<Rightarrow> scan_file sha1 plen h chunks st)
        (scan_file sha1 plen h cs st) files =
      foldl (absorb_byte sha1 plen h) (scan_file sha1 plen h cs st) (present_data files)"
      by (rule Cons.IH) (use conjunct2 [OF sf] Cons.prems(2) in \<open>simp_all only: list.set insert_iff, blast\<close>)
    with conjunct1 [OF sf] Some show ?thesis
      by (simp add: present_data_def)
  qed
qed (simp add: present_data_def)

lemma scan_local_files_bits:
  assumes plen: "0 < plen" and h: "h \<noteq> []" and chunks: "\<forall>cs. Some cs \<in> set files \<longrightarrow> [] \<notin> set cs"
    and small: "length (present_data files) div plen < 2 ^ 32"
  shows "bf_get (sr_bitfield (scan_local_files sha1 files plen h)) q \<longleftrightarrow>
    unat q * plen < length (present_data files) \<and>
    verify_hash sha1 q (bslice (present_data files) (unat q * plen) (unat q * plen + plen)) h"
proof -
  let ?data = "present_data files"
  let ?k = "length ?data div plen"
  let ?init = "ScanResult.extend (empty_scan (length h div HASH_LENGTH)) (LocalScan.fields [] 0)"
  define st where "st = foldl (absorb_byte sha1 plen h) ?init ?data"
  have "scan_invariant sha1 plen h [] ?init" using plen
    by (simp add: scan_invariant_def LocalScan.defs ScanResult.defs empty_scan_def)
  from scan_invariant_absorb [OF this plen small] have inv: "scan_invariant sha1 plen h ?data st"
    by (simp add: st_def)
  note I = inv [unfolded scan_invariant_def]
  have "length (ls_piece_buffer ?init) < plen"
    using plen by (simp add: LocalScan.defs ScanResult.defs)
  from scan_files_absorb [OF this chunks, of sha1 h] plen h
  have scan: "scan_local_files sha1 files plen h =
      ScanResult.truncate (if ls_piece_buffer st \<noteq> [] then finish_piece sha1 h st else st)"
    unfolding scan_local_files_def Let_def st_def by simp
  have below: "unat q * plen < length ?data" if "unat q < ?k"
  proof -
    have "unat q * plen < ?k * plen" using that plen by simp
    then show ?thesis by (rule less_le_trans) simp
  qed
  have above: "unat q \<le> ?k" if "unat q * plen < length ?data"
    using that plen by (simp add: less_eq_div_iff_mult_less_eq)
  have q: "q = ls_piece_number st \<longleftrightarrow> unat q = ?k"
    using eq_of_nat_unat [OF small, of q] I by argo
  have bits: "bf_get (sr_bitfield st) q \<longleftrightarrow> unat q < ?k \<and>
      verify_hash sha1 q (bslice ?data (unat q * plen) (unat q * plen + plen)) h"
    using I by blast
  show ?thesis
  proof (cases "ls_piece_buffer st = []")
    case True
    then have "length ?data \<le> ?k * plen" using I by simp
    then have "unat q < ?k" if "unat q * plen < length ?data"
      using that plen by (metis less_le_trans mult_less_cancel2)
    with below bits True show ?thesis by (auto simp: scan ScanResult.truncate_def)
  next
    case False
    then have last: "?k * plen < length ?data" using I by simp
    have tail: "ls_piece_buffer st = bslice ?data (?k * plen) (?k * plen + plen)"
    proof -
      have "length ?data \<le> ?k * plen + plen"
        using mod_less_divisor [OF plen, of "length ?data"] div_mult_mod_eq [of "length ?data" plen]
        by linarith
      then show ?thesis using I by (simp add: bslice_def)
    qed
    have get: "bf_get (sr_bitfield (scan_local_files sha1 files plen h)) q \<longleftrightarrow>
        bf_get (sr_bitfield st) q \<or> unat q = ?k \<and> verify_hash sha1 q (ls_piece_buffer st) h"
      using False finish_piece_bits(1) [of st h sha1 q] I q
      by (simp add: scan ScanResult.truncate_def)
    show ?thesis
      unfolding get bits using below above last tail by (auto simp: le_less)
  qed
qed

section \<open>Properties\<close>



text \<open>
  \<open>BitfieldScanner::scan_local_files\<close>: However the reads cut the files, a piece's bit is set
  exactly when the piece-length slice at its position in the concatenation of the files that
  exist has the expected SHA-1. A file that is missing contributes nothing to the
  concatenation, so the pieces of the files after it are looked up at shifted positions.
\<close>

theorem scan_local_files_exact:
  assumes "0 < plen" and "hashes \<noteq> []" and "\<forall>cs. Some cs \<in> set files \<longrightarrow> [] \<notin> set cs"
    and "length (present_data files) div plen < 2 ^ 32"
  shows "bf_get (sr_bitfield (scan_local_files sha1 files plen hashes)) q \<longleftrightarrow>
    unat q * plen < length (present_data files) \<and>
    verify_hash sha1 q (bslice (present_data files) (unat q * plen) (unat q * plen + plen)) hashes"
  using assms by (rule scan_local_files_bits)

theorem scan_local_files_exact_witness:
  "let sha1 = \<lambda>d. replicate 20 (hd d); hashes = replicate 20 1 @ replicate 20 2
   in bf_get (sr_bitfield (scan_local_files sha1 [Some [[1], [1]], Some [[2, 2]]] 2 hashes)) 1 \<and>
      \<not> bf_get (sr_bitfield (scan_local_files sha1 [None, Some [[2, 2]]] 2 hashes)) 1"
proof -
  let ?h = "\<lambda>d :: bytes. replicate 20 (hd d)" and ?e = "replicate 20 1 @ replicate 20 (2 :: u8)"
  have "bf_get (sr_bitfield (scan_local_files ?h [Some [[1], [1]], Some [[2, 2]]] 2 ?e)) 1"
    by (subst scan_local_files_exact)
      (auto simp: present_data_def bslice_def verify_hash_def HASH_LENGTH_def)
  moreover have "\<not> bf_get (sr_bitfield (scan_local_files ?h [None, Some [[2, 2]]] 2 ?e)) 1"
    by (subst scan_local_files_exact) (auto simp: present_data_def)
  ultimately show ?thesis by (simp add: Let_def)
qed

end
