(* ===== verification/Torrent_Accounting.thy ===== *)
theory Torrent_Accounting
  imports Torrent_Context Bitfield_Scanner
begin

text \<open>
  What the torrent context promises about its piece accounting, file selection and lifecycle: the
  bitfields of the context, its piece store and its piece manager never diverge and the counter
  of missing pieces is exact; a file selection determines which pieces are wanted, queued and
  reserved; the lifecycle operations implement a small state machine, which the status byte that
  other threads read always mirrors.
\<close>

section \<open>Bitfields of the context\<close>

lemma bf_put_same: "bf_get bf p = b \<Longrightarrow> bf_put bf p b = bf"
proof (cases "bf_range bf p")
  case True
  assume b: "bf_get bf p = b"
  show ?thesis
  proof (rule nth_equalityI)
    fix i assume "i < length (bf_put bf p b)"
    show "bf_put bf p b ! i = bf ! i"
    proof (cases "i = unat p div 8")
      case i: True
      show ?thesis
      proof (rule bit_word_eqI)
        fix k assume "k < LENGTH(8)"
        then show "bit (bf_put bf p b ! i) k = bit (bf ! i) k"
          using bf_put_bit [OF True, of k b] b True by (auto simp: i bf_get_bit)
      qed
    next
      case False
      then show ?thesis using bf_put_other [of p i] by simp
    qed
  qed simp
qed (simp add: bf_put_out)

lemma tc_mark_piece_missing_simp:
  "tc_mark_piece_missing tc p b = tc\<lparr>
    ctx_pieces_missing := bf_put (ctx_pieces_missing tc) p b,
    ctx_missing_pieces_count := (if bf_range (ctx_pieces_missing tc) p \<and> bf_get (ctx_pieces_missing tc) p \<noteq> b
      then if b then ctx_missing_pieces_count tc + 1 else ctx_missing_pieces_count tc - 1
      else ctx_missing_pieces_count tc),
    ctx_piece_store := ps_mark_piece_missing (ctx_piece_store tc) p b,
    ctx_piece_manager := pm_mark_piece_missing (ctx_piece_manager tc) p b\<rparr>"
  by (cases b) (auto simp: tc_mark_piece_missing_def Let_def bf_put_same bf_put_out)

lemma pm_mark_piece_missing_bits: "pm_pieces_missing (pm_mark_piece_missing m p b) = bf_put (pm_pieces_missing m) p b"
  by (auto simp: pm_mark_piece_missing_simp bf_put_same bf_put_out)

text \<open>The copies that the piece store and the piece manager keep.\<close>

definition mirrored :: "TorrentContext \<Rightarrow> bool" where
  "mirrored tc \<longleftrightarrow> ps_bitfield (ctx_piece_store tc) = ctx_bitfield tc
    \<and> pm_bitfield (ctx_piece_manager tc) = ctx_bitfield tc
    \<and> ps_pieces_missing (ctx_piece_store tc) = ctx_pieces_missing tc
    \<and> pm_pieces_missing (ctx_piece_manager tc) = ctx_pieces_missing tc
    \<and> pm_number_of_pieces (ctx_piece_manager tc) = ctx_number_of_pieces tc"

abbreviation missing_set :: "TorrentContext \<Rightarrow> u32 set" where
  "missing_set tc \<equiv> {p. bf_get (ctx_pieces_missing tc) p}"

definition tc_wf :: "TorrentContext \<Rightarrow> bool" where
  "tc_wf tc \<longleftrightarrow> ctx_number_of_pieces tc < 2 ^ 32
    \<and> length (ctx_bitfield tc) = (ctx_number_of_pieces tc + 7) div 8
    \<and> length (ctx_pieces_missing tc) = (ctx_number_of_pieces tc + 7) div 8
    \<and> length (ctx_piece_data tc) = ctx_number_of_pieces tc
    \<and> (\<forall>info\<in>set (ctx_piece_data tc). pi_piece_length info \<le> ctx_piece_length tc)"

definition tc_inv :: "TorrentContext \<Rightarrow> bool" where
  "tc_inv tc \<longleftrightarrow> tc_wf tc \<and> mirrored tc \<and> ctx_missing_pieces_count tc = card (missing_set tc)
    \<and> ctx_atomic_status tc = status_code (ctx_status tc)"

lemma tc_is_piece_local_get:
  "mirrored tc \<Longrightarrow> tc_is_piece_local tc p = bf_get (ctx_bitfield tc) p"
  by (simp add: tc_is_piece_local_def mirrored_def ps_is_piece_local_def)

lemma tc_is_piece_missing_get:
  "mirrored tc \<Longrightarrow> tc_is_piece_missing tc p = bf_get (ctx_pieces_missing tc) p"
  by (simp add: tc_is_piece_missing_def mirrored_def ps_is_piece_missing_def)

lemma piece_range_set: "ctx_number_of_pieces tc < 2 ^ 32 \<Longrightarrow> set (piece_range tc) = {p. unat p < ctx_number_of_pieces tc}"
proof -
  assume n: "ctx_number_of_pieces tc < 2 ^ 32"
  have "p \<in> of_nat ` {0..<ctx_number_of_pieces tc}" if "unat p < ctx_number_of_pieces tc" for p :: u32
    using that by (intro image_eqI [of _ _ "unat p"]) simp_all
  then show ?thesis using n by (auto simp: piece_range_def unat_of_nat take_bit_nat_eq_self)
qed

lemma distinct_piece_range: "distinct (piece_range tc)"
proof -
  have "x = y" if "x < 2 ^ 32" "y < 2 ^ 32" "(of_nat x :: u32) = of_nat y" for x y :: nat
    using arg_cong [of _ _ unat, OF that(3)] that(1,2) by (simp add: unat_of_nat take_bit_nat_eq_self)
  moreover have "ctx_number_of_pieces tc mod 2 ^ 32 < 2 ^ 32" by simp
  ultimately have "inj_on (of_nat :: nat \<Rightarrow> u32) {0..<ctx_number_of_pieces tc mod 2 ^ 32}"
    by (intro inj_onI) (meson atLeastLessThan_iff order.strict_trans)
  then show ?thesis unfolding piece_range_def by (simp only: distinct_map distinct_upt set_upt simp_thms)
qed

text \<open>Each operation keeps the invariant.\<close>

lemma emit_simps [simp]:
  "ctx_number_of_pieces (emit e tc) = ctx_number_of_pieces tc" "ctx_bitfield (emit e tc) = ctx_bitfield tc"
  "ctx_pieces_missing (emit e tc) = ctx_pieces_missing tc" "ctx_piece_data (emit e tc) = ctx_piece_data tc"
  "ctx_missing_pieces_count (emit e tc) = ctx_missing_pieces_count tc" "ctx_status (emit e tc) = ctx_status tc"
  "ctx_atomic_status (emit e tc) = ctx_atomic_status tc" "ctx_piece_store (emit e tc) = ctx_piece_store tc"
  "ctx_piece_manager (emit e tc) = ctx_piece_manager tc" "ctx_piece_length (emit e tc) = ctx_piece_length tc"
  "ctx_paused (emit e tc) = ctx_paused tc" "ctx_download_finished (emit e tc) = ctx_download_finished tc"
  "ctx_total_bytes_downloaded (emit e tc) = ctx_total_bytes_downloaded tc"
  "ctx_files_to_download (emit e tc) = ctx_files_to_download tc"
  "ctx_total_bytes_to_download (emit e tc) = ctx_total_bytes_to_download tc"
  "ctx_assembler (emit e tc) = ctx_assembler tc" "ctx_pieces_info_hash (emit e tc) = ctx_pieces_info_hash tc"
  by (simp_all add: emit_def)

lemma tc_inv_mark_local:
  assumes "tc_inv tc"
  shows "tc_inv (tc_mark_piece_local tc p b)"
  using assms
  by (simp add: tc_mark_piece_local_def Let_def tc_inv_def tc_wf_def mirrored_def
      ps_mark_piece_local_def pm_mark_piece_local_def)

lemma card_missing_put:
  assumes "bf_range bf p" and "bf_get bf p \<noteq> b"
  shows "card {q. bf_get (bf_put bf p b) q} = (if b then card {q. bf_get bf q} + 1 else card {q. bf_get bf q} - 1)"
proof (cases b)
  case True
  then have "{q. bf_get (bf_put bf p b) q} = insert p {q. bf_get bf q}" using assms by (auto simp: bf_get_put)
  then show ?thesis using True assms(2) by simp
next
  case False
  then have "{q. bf_get (bf_put bf p b) q} = {q. bf_get bf q} - {p}" using assms by (auto simp: bf_get_put)
  then show ?thesis using False assms(2) by simp
qed

lemma tc_inv_mark_missing:
  assumes "tc_inv tc"
  shows "tc_inv (tc_mark_piece_missing tc p b)"
proof -
  have "ctx_missing_pieces_count (tc_mark_piece_missing tc p b) = card (missing_set (tc_mark_piece_missing tc p b))"
  proof (cases "bf_range (ctx_pieces_missing tc) p \<and> bf_get (ctx_pieces_missing tc) p \<noteq> b")
    case True
    then show ?thesis
      using assms card_missing_put [of "ctx_pieces_missing tc" p b] by (simp add: tc_mark_piece_missing_simp tc_inv_def)
  next
    case False
    then have "bf_put (ctx_pieces_missing tc) p b = ctx_pieces_missing tc" using bf_put_same bf_put_out by blast
    then show ?thesis using assms False by (auto simp: tc_mark_piece_missing_simp tc_inv_def)
  qed
  moreover have "pm_bitfield (pm_mark_piece_missing m p b) = pm_bitfield m"
    and "pm_number_of_pieces (pm_mark_piece_missing m p b) = pm_number_of_pieces m" for m
    by (simp_all add: pm_mark_piece_missing_simp)
  ultimately show ?thesis
    using assms by (simp add: tc_inv_def tc_wf_def mirrored_def tc_mark_piece_missing_simp
        ps_mark_piece_missing_def pm_mark_piece_missing_bits)
qed

lemma tc_inv_cong:
  assumes "tc_inv tc"
    and "ctx_number_of_pieces tc' = ctx_number_of_pieces tc" "ctx_bitfield tc' = ctx_bitfield tc"
      "ctx_pieces_missing tc' = ctx_pieces_missing tc" "ctx_missing_pieces_count tc' = ctx_missing_pieces_count tc"
      "ctx_piece_length tc' = ctx_piece_length tc"
      "length (ctx_piece_data tc') = length (ctx_piece_data tc)"
      "\<forall>info\<in>set (ctx_piece_data tc'). pi_piece_length info \<le> ctx_piece_length tc"
      "ps_bitfield (ctx_piece_store tc') = ps_bitfield (ctx_piece_store tc)"
      "ps_pieces_missing (ctx_piece_store tc') = ps_pieces_missing (ctx_piece_store tc)"
      "ctx_piece_manager tc' = ctx_piece_manager tc"
      "ctx_atomic_status tc' = status_code (ctx_status tc')"
  shows "tc_inv tc'"
  using assms by (simp add: tc_inv_def tc_wf_def mirrored_def)

lemma tc_invD:
  assumes "tc_inv tc"
  shows "tc_wf tc" "mirrored tc" "ctx_missing_pieces_count tc = card (missing_set tc)"
    "ctx_atomic_status tc = status_code (ctx_status tc)"
    "\<forall>info\<in>set (ctx_piece_data tc). pi_piece_length info \<le> ctx_piece_length tc"
  using assms by (simp_all add: tc_inv_def tc_wf_def)

lemma tc_inv_set_length:
  assumes "tc_inv tc"
  shows "tc_inv (tc_set_piece_length tc p len)"
proof (cases "len \<le> ctx_piece_length tc \<and> unat p < length (ctx_piece_data tc)")
  case True
  have "\<forall>info\<in>set ((ctx_piece_data tc)[unat p := (ctx_piece_data tc ! unat p)\<lparr>pi_piece_length := len\<rparr>]).
      pi_piece_length info \<le> ctx_piece_length tc"
    using tc_invD(5) [OF assms] True set_update_subset_insert [of "ctx_piece_data tc" "unat p"] by fastforce
  then show ?thesis
    using True tc_invD(4) [OF assms] by (intro tc_inv_cong [OF assms]) (simp_all add: tc_set_piece_length_def)
next
  case False
  then show ?thesis using assms by (auto simp: tc_set_piece_length_def)
qed

lemma tc_inv_update_status:
  assumes "tc_inv tc"
  shows "tc_inv (tc_update_bitfield_status tc p there len)"
proof -
  have "tc_inv (tc\<lparr>ctx_total_bytes_downloaded := d\<rparr>)" for d
    using tc_invD(4,5) [OF assms] by (intro tc_inv_cong [OF assms]) simp_all
  then show ?thesis
    using assms tc_inv_mark_missing tc_inv_mark_local tc_inv_set_length
    by (simp add: tc_update_bitfield_status_def Let_def)
qed

lemma bump_peer_count_simps:
  "length (ctx_piece_data (bump_peer_count inc p tc)) = length (ctx_piece_data tc)"
  "map pi_piece_length (ctx_piece_data (bump_peer_count inc p tc)) = map pi_piece_length (ctx_piece_data tc)"
proof -
  show "length (ctx_piece_data (bump_peer_count inc p tc)) = length (ctx_piece_data tc)"
    by (simp add: bump_peer_count_def Let_def)
  show "map pi_piece_length (ctx_piece_data (bump_peer_count inc p tc)) = map pi_piece_length (ctx_piece_data tc)"
    by (cases "unat p < length (ctx_piece_data tc)")
      (simp_all add: bump_peer_count_def Let_def map_update list_update_beyond list_update_same_conv)
qed

lemma lengths_le_iff:
  "(\<forall>info\<in>set xs. pi_piece_length info \<le> l) \<longleftrightarrow> (\<forall>k\<in>set (map pi_piece_length xs). k \<le> l)"
  by simp

lemma tc_inv_bump:
  assumes "tc_inv tc"
  shows "tc_inv (bump_peer_count inc p tc)"
proof -
  have "\<forall>info\<in>set (ctx_piece_data (bump_peer_count inc p tc)). pi_piece_length info \<le> ctx_piece_length tc"
    using tc_invD(5) [OF assms] unfolding lengths_le_iff bump_peer_count_simps(2) .
  then show ?thesis
    using tc_invD(4) [OF assms] bump_peer_count_simps(1) [of inc p tc]
    by (intro tc_inv_cong [OF assms]) (simp_all add: bump_peer_count_def Let_def)
qed

lemma tc_inv_update_counts:
  assumes "tc_inv tc"
  shows "tc_inv (update_piece_peer_counts tc peer inc)"
proof -
  have "tc_inv (fold (\<lambda>i tc. if P i then bump_peer_count inc (of_nat i) tc else tc) is tc)" for P "is"
    using assms by (induction "is" arbitrary: tc) (simp_all add: tc_inv_bump)
  then show ?thesis using assms by (simp add: update_piece_peer_counts_def)
qed

section \<open>Lifecycle\<close>

text \<open>
  The specification: for each command the status after it, given whether the download is
  complete, or nothing if the command is refused.
\<close>

datatype Command = Start | Pause | Resume | Stop

fun next_status :: "bool \<Rightarrow> Command \<Rightarrow> TorrentStatus \<Rightarrow> TorrentStatus option" where
  "next_status complete Start s = (if s \<in> {Downloading, Ended} then None
     else Some (if complete then Seeding else Downloading))"
| "next_status complete Pause s = (if s \<in> {Downloading, Seeding} then Some Paused else None)"
| "next_status complete Resume s = (if s = Paused then Some (if complete then Seeding else Downloading) else None)"
| "next_status complete Stop s = (if s = Ended then None else Some Ended)"

fun command :: "Command \<Rightarrow> TorrentContext \<Rightarrow> unit result \<times> TorrentContext" where
  "command Start tc = start_downloading tc"
| "command Pause tc = tc_pause tc"
| "command Resume tc = tc_resume tc"
| "command Stop tc = tc_stop tc"

lemmas command_defs = start_downloading_def tc_pause_def tc_resume_def tc_stop_def set_status_def

lemma command_refines:
  "case next_status (tc_is_download_complete tc) cmd (ctx_status tc) of
     None \<Rightarrow> (\<exists>msg. command cmd tc = (Inl (Parse msg), tc))
   | Some s \<Rightarrow> \<exists>tc'. command cmd tc = (Inr (), tc') \<and> ctx_status tc' = s \<and> ctx_atomic_status tc' = status_code s"
  by (cases cmd) (auto simp: command_defs)

lemma tc_inv_command: "tc_inv tc \<Longrightarrow> tc_inv (snd (command cmd tc))"
  by (cases cmd) (auto simp: command_defs tc_inv_def tc_wf_def mirrored_def)

lemma tc_inv_try_complete: "tc_inv tc \<Longrightarrow> tc_inv (try_complete_download tc)"
  by (auto simp: try_complete_download_def set_status_def tc_inv_def tc_wf_def mirrored_def)

lemma status_code_inverse [simp]: "status_of_code (status_code s) = s"
  by (cases s) (simp_all add: status_of_code_def)

section \<open>File selection\<close>

lemma Max_insert_max: "finite A \<Longrightarrow> Max (insert (max p q) A) = Max (insert p (insert q A))"
  by (cases "A = {}") (simp_all add: max.assoc)

lemma priority_fold:
  "fold (\<lambda>file mx. if P file then Some (case mx of None \<Rightarrow> fd_priority file | Some p \<Rightarrow> max p (fd_priority file)) else mx)
      files mx =
    (let ps = fd_priority ` {f \<in> set files. P f} \<union> set_option mx in if ps = {} then None else Some (Max ps))"
proof (induction files arbitrary: mx)
  case Nil
  then show ?case by (cases mx) simp_all
next
  case (Cons f files)
  show ?case
  proof (cases "P f")
    case True
    let ?A = "fd_priority ` {f \<in> set files. P f}"
    have fin: "finite ?A" by simp
    have set: "{g \<in> set (f # files). P g} = insert f {g \<in> set files. P g}" using True by auto
    show ?thesis
    proof (cases mx)
      case None
      then show ?thesis using Cons.IH [of "Some (fd_priority f)"] True unfolding set by (simp add: Let_def)
    next
      case (Some p)
      have "Max (insert (max p (fd_priority f)) ?A) = Max (insert p (insert (fd_priority f) ?A))"
        using fin by (rule Max_insert_max)
      then show ?thesis
        using Cons.IH [of "Some (max p (fd_priority f))"] True Some unfolding set by (simp add: Let_def insert_commute)
    qed
  next
    case False
    then have "{g \<in> set (f # files). P g} = {g \<in> set files. P g}" by auto
    then show ?thesis using Cons.IH [of mx] False by simp
  qed
qed

text \<open>A piece that starts before the end of the torrent.\<close>

definition piece_inside :: "TorrentContext \<Rightarrow> u32 \<Rightarrow> bool" where
  "piece_inside tc p \<longleftrightarrow> 0 < ctx_piece_length tc
    \<and> (ctx_total_bytes_to_download tc = 0
        \<or> unat p * unat (ctx_piece_length tc) < unat (ctx_total_bytes_to_download tc))"

lemma piece_inside_end:
  "piece_inside tc p \<Longrightarrow> unat p * unat (ctx_piece_length tc) < piece_end_offset tc p"
  by (auto simp: piece_inside_def piece_end_offset_def Let_def word_less_nat_alt)

lemma get_piece_priority_max:
  assumes "piece_inside tc p"
  shows "get_piece_priority tc p =
    (let ps = fd_priority ` {f \<in> set (ctx_files_to_download tc). file_overlaps tc p f}
     in if ps = {} then Normal else Max ps)"
  using assms piece_inside_end [OF assms] priority_fold [of "file_overlaps tc p" "ctx_files_to_download tc" None]
  by (auto simp: get_piece_priority_def Let_def piece_inside_def)

lemma priority_Skip_least: "Skip \<le> (p :: FilePriority)"
  by (simp add: less_eq_FilePriority_def)

lemma wanted_iff:
  assumes "piece_inside tc p"
  shows "is_piece_wanted tc p \<longleftrightarrow>
    (\<forall>f\<in>set (ctx_files_to_download tc). \<not> file_overlaps tc p f)
    \<or> (\<exists>f\<in>set (ctx_files_to_download tc). file_overlaps tc p f \<and> fd_priority f \<noteq> Skip)"
proof -
  let ?ps = "fd_priority ` {f \<in> set (ctx_files_to_download tc). file_overlaps tc p f}"
  have "Max ?ps = Skip \<longleftrightarrow> (\<forall>x\<in>?ps. x = Skip)" if "?ps \<noteq> {}"
  proof
    assume "Max ?ps = Skip"
    then have "x \<le> Skip" if "x \<in> ?ps" for x using Max_ge [of ?ps x] that by simp
    then show "\<forall>x\<in>?ps. x = Skip" using priority_Skip_least by (blast intro: antisym)
  next
    assume "\<forall>x\<in>?ps. x = Skip"
    moreover have "Max ?ps \<in> ?ps" using that by (intro Max_in) simp_all
    ultimately show "Max ?ps = Skip" by blast
  qed
  then show ?thesis
    unfolding is_piece_wanted_def get_piece_priority_max [OF assms] Let_def by auto
qed

text \<open>Clearing the reservations of pieces that are not wanted.\<close>

lemma clear_requests_frame [simp]:
  "is_piece_wanted (tc_clear_piece_requests p tc) = is_piece_wanted tc"
  "tc_is_piece_local (tc_clear_piece_requests p tc) = tc_is_piece_local tc"
  "piece_range (tc_clear_piece_requests p tc) = piece_range tc"
  by (auto simp: tc_clear_piece_requests_def is_piece_wanted_def get_piece_priority_def file_overlaps_def
      piece_end_offset_def piece_range_def tc_is_piece_local_def fun_eq_iff cong: if_cong)

lemma clear_unwanted_fold:
  "fold (\<lambda>piece tc. if \<not> is_piece_wanted tc piece then tc_clear_piece_requests piece tc else tc) ps tc =
    tc\<lparr>ctx_assembler := (ctx_assembler tc)\<lparr>requested_blocks :=
      {b \<in> requested_blocks (ctx_assembler tc). fst b \<in> set ps \<longrightarrow> is_piece_wanted tc (fst b)}\<rparr>\<rparr>"
proof (induction ps arbitrary: tc)
  case (Cons p ps)
  let ?keep = "\<lambda>ps. {b \<in> requested_blocks (ctx_assembler tc). fst b \<in> set ps \<longrightarrow> is_piece_wanted tc (fst b)}"
  show ?case
  proof (cases "is_piece_wanted tc p")
    case True
    then have "?keep (p # ps) = ?keep ps" by auto
    then show ?thesis using Cons.IH [of tc] True by (simp only: fold_Cons o_apply if_False not_True_eq_False)
  next
    case False
    define tc1 where "tc1 = tc_clear_piece_requests p tc"
    have w: "is_piece_wanted tc1 = is_piece_wanted tc" by (simp add: tc1_def)
    have r: "requested_blocks (ctx_assembler tc1) = {b \<in> requested_blocks (ctx_assembler tc). fst b \<noteq> p}"
      by (simp add: tc1_def tc_clear_piece_requests_def as_clear_piece_requests_def)
    have "?keep (p # ps) = {b \<in> requested_blocks (ctx_assembler tc1). fst b \<in> set ps \<longrightarrow> is_piece_wanted tc1 (fst b)}"
      unfolding w r using False by auto
    moreover have "tc1\<lparr>ctx_assembler := (ctx_assembler tc1)\<lparr>requested_blocks := R\<rparr>\<rparr> =
        tc\<lparr>ctx_assembler := (ctx_assembler tc)\<lparr>requested_blocks := R\<rparr>\<rparr>" for R
      by (simp add: tc1_def tc_clear_piece_requests_def as_clear_piece_requests_def)
    ultimately show ?thesis
      using Cons.IH [of tc1] False by (simp only: fold_Cons o_apply if_True not_False_eq_True tc1_def [symmetric])
  qed
qed simp

lemma clear_unwanted_exact:
  "clear_unwanted_requests tc = tc\<lparr>ctx_assembler := (ctx_assembler tc)\<lparr>requested_blocks :=
      {b \<in> requested_blocks (ctx_assembler tc). fst b \<in> set (piece_range tc) \<longrightarrow> is_piece_wanted tc (fst b)}\<rparr>\<rparr>"
  unfolding clear_unwanted_requests_def by (rule clear_unwanted_fold)

lemma selection_frame [simp]:
  "is_piece_wanted (tc\<lparr>ctx_assembler := a\<rparr>) = is_piece_wanted tc"
  "is_piece_wanted (tc\<lparr>ctx_piece_priority_queue := q\<rparr>) = is_piece_wanted tc"
  "is_piece_wanted (tc\<lparr>ctx_selected_file_indices := i\<rparr>) = is_piece_wanted tc"
  "tc_is_piece_local (tc\<lparr>ctx_assembler := a\<rparr>) = tc_is_piece_local tc"
  "tc_is_piece_local (tc\<lparr>ctx_files_to_download := fs\<rparr>) = tc_is_piece_local tc"
  "tc_is_piece_local (tc\<lparr>ctx_selected_file_indices := i\<rparr>) = tc_is_piece_local tc"
  "tc_get_piece_peer_count (tc\<lparr>ctx_assembler := a\<rparr>) = tc_get_piece_peer_count tc"
  "tc_get_piece_peer_count (tc\<lparr>ctx_files_to_download := fs\<rparr>) = tc_get_piece_peer_count tc"
  "tc_get_piece_peer_count (tc\<lparr>ctx_selected_file_indices := i\<rparr>) = tc_get_piece_peer_count tc"
  "piece_range (tc\<lparr>ctx_assembler := a\<rparr>) = piece_range tc"
  "piece_range (tc\<lparr>ctx_files_to_download := fs\<rparr>) = piece_range tc"
  "piece_range (tc\<lparr>ctx_selected_file_indices := i\<rparr>) = piece_range tc"
  "file_overlaps (tc\<lparr>ctx_files_to_download := fs\<rparr>) = file_overlaps tc"
  "file_overlaps (tc\<lparr>ctx_selected_file_indices := i\<rparr>) = file_overlaps tc"
  "piece_inside (tc\<lparr>ctx_files_to_download := fs\<rparr>) = piece_inside tc"
  "piece_inside (tc\<lparr>ctx_selected_file_indices := i\<rparr>) = piece_inside tc"
  by (auto simp: is_piece_wanted_def get_piece_priority_def file_overlaps_def piece_inside_def
      piece_end_offset_def piece_range_def tc_is_piece_local_def tc_get_piece_peer_count_def fun_eq_iff cong: if_cong)

lemma select_file_simps [simp]:
  "fd_length (select_file sel i f) = fd_length f" "fd_offset (select_file sel i f) = fd_offset f"
  "fd_priority (select_file sel i f) \<noteq> Skip \<longleftrightarrow> i \<in> set sel"
  by (simp_all add: select_file_def)

lemma overlaps_select [simp]: "file_overlaps tc p (select_file sel i f) = file_overlaps tc p f"
  by (simp add: file_overlaps_def)

lemma selected_files:
  "set (map (\<lambda>(i, f). select_file sel i f) (zip [0..<length fs] fs)) = (\<lambda>i. select_file sel i (fs ! i)) ` {..<length fs}"
proof -
  have "map (\<lambda>(i, f). select_file sel i f) (zip [0..<length fs] fs) = map (\<lambda>i. select_file sel i (fs ! i)) [0..<length fs]"
    by (rule nth_equalityI) simp_all
  then show ?thesis by (simp only: set_map set_upt atLeast0LessThan)
qed

lemma wanted_selected:
  assumes "piece_inside tc p"
  shows "is_piece_wanted (tc\<lparr>ctx_files_to_download :=
      map (\<lambda>(i, f). select_file sel i f) (zip [0..<length (ctx_files_to_download tc)] (ctx_files_to_download tc))\<rparr>) p \<longleftrightarrow>
    (\<forall>f\<in>set (ctx_files_to_download tc). \<not> file_overlaps tc p f)
    \<or> (\<exists>i<length (ctx_files_to_download tc). i \<in> set sel \<and> file_overlaps tc p (ctx_files_to_download tc ! i))"
proof -
  let ?tc = "tc\<lparr>ctx_files_to_download :=
    map (\<lambda>(i, f). select_file sel i f) (zip [0..<length (ctx_files_to_download tc)] (ctx_files_to_download tc))\<rparr>"
  have "piece_inside ?tc p" using assms by simp
  from wanted_iff [OF this] show ?thesis
    by (simp del: set_map add: selected_files all_set_conv_all_nth) blast
qed

text \<open>
  C5 (\<open>set_selected_files\<close>, \<open>apply_bep53_file_selection\<close>). After a selection of files, a piece of the
  torrent is wanted exactly when it overlaps a selected file or no file at all; only wanted
  pieces keep their block reservations; and the priority queue holds one entry with the current
  peer count for exactly the wanted pieces that are not local yet.
\<close>

theorem file_selection_exact:
  assumes "tc_wf tc" and "ctx_files_to_download tc \<noteq> []" and "\<And>p. unat p < ctx_number_of_pieces tc \<Longrightarrow> piece_inside tc p"
    and tc': "tc' = set_selected_files indices tc"
    and want: "\<And>p. want p \<longleftrightarrow> (\<forall>f\<in>set (ctx_files_to_download tc). \<not> file_overlaps tc p f)
      \<or> (\<exists>i<length (ctx_files_to_download tc). i \<in> set indices \<and> file_overlaps tc p (ctx_files_to_download tc ! i))"
  shows "(\<forall>p. unat p < ctx_number_of_pieces tc \<longrightarrow> (is_piece_wanted tc' p \<longleftrightarrow> want p))
    \<and> requested_blocks (ctx_assembler tc') =
        {b \<in> requested_blocks (ctx_assembler tc). unat (fst b) < ctx_number_of_pieces tc \<longrightarrow> want (fst b)}
    \<and> distinct (ctx_piece_priority_queue tc')
    \<and> set (ctx_piece_priority_queue tc') = {PieceRarity (tc_get_piece_peer_count tc p) p | p.
        unat p < ctx_number_of_pieces tc \<and> want p \<and> \<not> tc_is_piece_local tc p}"
proof -
  let ?sel = "remdups_adj (sort indices)"
  let ?t1 = "tc\<lparr>ctx_selected_file_indices := Some ?sel, ctx_files_to_download :=
    map (\<lambda>(i, f). select_file ?sel i f) (zip [0..<length (ctx_files_to_download tc)] (ctx_files_to_download tc))\<rparr>"
  have n: "ctx_number_of_pieces tc < 2 ^ 32" using assms(1) by (simp add: tc_wf_def)
  have range: "set (piece_range tc) = {p. unat p < ctx_number_of_pieces tc}" by (rule piece_range_set [OF n])
  have w: "is_piece_wanted ?t1 p \<longleftrightarrow> want p" if "unat p < ctx_number_of_pieces tc" for p
  proof -
    have "piece_inside (tc\<lparr>ctx_selected_file_indices := Some ?sel\<rparr>) p" using assms(3) [OF that] by simp
    from wanted_selected [OF this, of ?sel] show ?thesis unfolding want by simp
  qed
  have t': "tc' = reseed_queue (clear_unwanted_requests ?t1)"
    using assms(2) by (simp add: tc' set_selected_files_def apply_bep53_file_selection_def Let_def)
  let ?keep = "filter (\<lambda>p. is_piece_wanted ?t1 p \<and> \<not> tc_is_piece_local tc p) (piece_range tc)"
  have q: "ctx_piece_priority_queue tc' = map (\<lambda>p. PieceRarity (tc_get_piece_peer_count tc p) p) ?keep"
    unfolding t' reseed_queue_def clear_unwanted_exact by simp
  have "set ?keep = {p. unat p < ctx_number_of_pieces tc \<and> want p \<and> \<not> tc_is_piece_local tc p}"
    using w by (auto simp: range)
  then have "set (ctx_piece_priority_queue tc') = {PieceRarity (tc_get_piece_peer_count tc p) p | p.
      unat p < ctx_number_of_pieces tc \<and> want p \<and> \<not> tc_is_piece_local tc p}"
    unfolding q set_map by blast
  moreover have "distinct (ctx_piece_priority_queue tc')"
    unfolding q using distinct_piece_range [of tc] by (simp add: distinct_map inj_on_def)
  moreover have "requested_blocks (ctx_assembler tc') =
      {b \<in> requested_blocks (ctx_assembler tc). unat (fst b) < ctx_number_of_pieces tc \<longrightarrow> want (fst b)}"
    unfolding t' reseed_queue_def clear_unwanted_exact using w by (auto simp: range)
  moreover have "is_piece_wanted tc' p \<longleftrightarrow> want p" if "unat p < ctx_number_of_pieces tc" for p
    unfolding t' reseed_queue_def clear_unwanted_exact using w [OF that] by simp
  ultimately show ?thesis by blast
qed


text \<open>A torrent of three 4-byte pieces with two files, the second of which starts in the last piece.\<close>

definition sample_config :: SessionConfig where
  "sample_config = \<lparr>cfg_block_size = 16384, cfg_enable_adaptive_endgame = False,
     cfg_enable_async_verification = False, cfg_endgame_max_clones_per_block = 2, cfg_super_seeding = False\<rparr>"

definition sample_file :: "string \<Rightarrow> nat \<Rightarrow> nat \<Rightarrow> FileDetails" where
  "sample_file name len off = \<lparr>fd_name = name, fd_torrent_path = name, fd_length = len, fd_md5sum = None,
     fd_offset = off, fd_pieces_root = None, fd_priority = Normal\<rparr>"

definition sample_torrent :: TorrentContext where
  "sample_torrent = tc_new (replicate 60 0) 4 (12, [sample_file ''a'' 8 0, sample_file ''b'' 4 8]) False sample_config"

lemmas sample_defs = sample_torrent_def sample_file_def sample_config_def tc_new_def tc_new_base_def Let_def HASH_LENGTH_def

theorem file_selection_exact_witness:
  "is_piece_wanted (set_selected_files [1] sample_torrent) 2 \<and> \<not> is_piece_wanted (set_selected_files [1] sample_torrent) 0"
proof -
  have inside: "piece_inside sample_torrent p" if "unat p < ctx_number_of_pieces sample_torrent" for p
    using that by (simp add: piece_inside_def sample_defs)
  have n: "ctx_number_of_pieces sample_torrent = 3" by (simp add: sample_defs)
  note ex = file_selection_exact [of sample_torrent "set_selected_files [1] sample_torrent" "[1]", OF _ _ inside refl refl]
  have "tc_wf sample_torrent" "ctx_files_to_download sample_torrent \<noteq> []"
    by (simp_all add: tc_wf_def sample_defs)
  note wanted = ex [OF this, THEN conjunct1, THEN spec]
  have two: "i < 2 \<longleftrightarrow> i = 0 \<or> i = 1" for i :: nat by auto
  show ?thesis
    using wanted [of 2] wanted [of 0] unfolding n
    by (simp add: sample_defs file_overlaps_def piece_end_offset_def two)
qed

section \<open>Runs of the context\<close>

text \<open>\<open>BitfieldScanner::apply_to_context\<close>\<close>

definition apply_to_context :: "ScanResult \<Rightarrow> TorrentContext \<Rightarrow> TorrentContext" where
  "apply_to_context scan_result tc =
    foldl (\<lambda>tc status. tc_update_bitfield_status tc (piece_index status) (is_valid status) (of_nat (scan_length status)))
      tc (piece_statuses scan_result)"

definition tc_is_paused :: "TorrentContext \<Rightarrow> bool" where
  "tc_is_paused tc = ctx_paused tc"

text \<open>The calls that change the modelled state; the construction is \<open>tc_new\<close>.\<close>

datatype TorrentCall =
    MarkLocal u32 bool
  | MarkMissing u32 bool
  | SetLength u32 u32
  | UpdateStatus u32 bool u32
  | FromBuffer u32 bytes u32
  | ApplyScan ScanResult
  | Merge Peer
  | Unmerge Peer
  | PeerHas u32
  | Lifecycle Command
  | TryComplete
  | SetPriority nat FilePriority
  | SelectFiles "nat list"
  | AddPeer Peer
  | RemovePeer string
  | ReportBad string
  | DisconnectAll
  | Have_all u32
  | Verifying u32 bool

fun tc_call :: "(bytes \<Rightarrow> bytes) \<Rightarrow> TorrentCall \<Rightarrow> TorrentContext \<Rightarrow> TorrentContext" where
  "tc_call sha1 (MarkLocal p b) tc = tc_mark_piece_local tc p b"
| "tc_call sha1 (MarkMissing p b) tc = tc_mark_piece_missing tc p b"
| "tc_call sha1 (SetLength p len) tc = tc_set_piece_length tc p len"
| "tc_call sha1 (UpdateStatus p b len) tc = tc_update_bitfield_status tc p b len"
| "tc_call sha1 (FromBuffer p data len) tc =
    (case update_bitfield_from_buffer sha1 tc p data len of Some tc' \<Rightarrow> tc' | None \<Rightarrow> tc)"
| "tc_call sha1 (ApplyScan r) tc = apply_to_context r tc"
| "tc_call sha1 (Merge peer) tc = merge_piece_bitfield tc peer"
| "tc_call sha1 (Unmerge peer) tc = unmerge_piece_bitfield tc peer"
| "tc_call sha1 (PeerHas p) tc = increment_peer_count p tc"
| "tc_call sha1 (Lifecycle cmd) tc = snd (command cmd tc)"
| "tc_call sha1 TryComplete tc = try_complete_download tc"
| "tc_call sha1 (SetPriority i prio) tc = snd (set_file_priority i prio tc)"
| "tc_call sha1 (SelectFiles is) tc = set_selected_files is tc"
| "tc_call sha1 (AddPeer peer) tc = snd (add_peer peer tc)"
| "tc_call sha1 (RemovePeer ip) tc = remove_peer ip tc"
| "tc_call sha1 (ReportBad ip) tc = report_bad_peer ip tc"
| "tc_call sha1 DisconnectAll tc = disconnect_all_peers tc"
| "tc_call sha1 (Have_all p) tc = broadcast_have p tc"
| "tc_call sha1 (Verifying p b) tc = mark_piece_verifying p b tc"

lemma tc_inv_scan: "tc_inv tc \<Longrightarrow> tc_inv (apply_to_context r tc)"
proof -
  have "tc_inv tc \<Longrightarrow> tc_inv (foldl (\<lambda>tc status. tc_update_bitfield_status tc (piece_index status) (is_valid status)
      (of_nat (scan_length status))) tc ss)" for ss
    by (induction ss arbitrary: tc) (simp_all add: tc_inv_update_status)
  then show "tc_inv tc \<Longrightarrow> tc_inv (apply_to_context r tc)" by (simp add: apply_to_context_def)
qed

lemma tc_inv_frame:
  assumes "tc_inv tc"
  shows "tc_inv (tc\<lparr>ctx_assembler := a\<rparr>)" "tc_inv (tc\<lparr>ctx_piece_priority_queue := q\<rparr>)"
    "tc_inv (tc\<lparr>ctx_files_to_download := fs\<rparr>)" "tc_inv (tc\<lparr>ctx_selected_file_indices := i\<rparr>)"
    "tc_inv (tc\<lparr>ctx_peer_swarm := ps\<rparr>)" "tc_inv (tc\<lparr>ctx_unchoked_peers_count := c\<rparr>)"
    "tc_inv (tc\<lparr>ctx_bad_peer_scores := sc\<rparr>)" "tc_inv (tc\<lparr>ctx_haves_sent := hs\<rparr>)"
  using assms by (simp_all add: tc_inv_def tc_wf_def mirrored_def)

lemma tc_inv_selection:
  assumes "tc_inv tc"
  shows "tc_inv (snd (set_file_priority i prio tc))" "tc_inv (set_selected_files is tc)"
  using assms
  by (simp_all add: set_file_priority_def set_selected_files_def apply_bep53_file_selection_def Let_def
      clear_unwanted_exact reseed_queue_def tc_inv_frame)

lemma tc_inv_peers:
  assumes "tc_inv tc"
  shows "tc_inv (snd (add_peer peer tc))" "tc_inv (remove_peer ip tc)" "tc_inv (report_bad_peer ip tc)"
    "tc_inv (disconnect_all_peers tc)" "tc_inv (broadcast_have p tc)" "tc_inv (increment_peer_count p tc)"
  using assms
  by (simp_all add: add_peer_def remove_peer_def report_bad_peer_def disconnect_all_peers_def broadcast_have_def
      increment_peer_count_def unmerge_piece_bitfield_def Let_def tc_inv_frame tc_inv_update_counts tc_inv_bump
      split: option.split)

lemma tc_inv_verifying: "tc_inv tc \<Longrightarrow> tc_inv (mark_piece_verifying p b tc)"
  by (simp add: mark_piece_verifying_def ps_set_piece_verifying_def tc_inv_def tc_wf_def mirrored_def)

lemmas tc_inv_intros = tc_inv_mark_local tc_inv_mark_missing tc_inv_set_length tc_inv_update_status tc_inv_scan
  tc_inv_update_counts tc_inv_command tc_inv_try_complete tc_inv_selection tc_inv_peers tc_inv_verifying

lemma tc_inv_call: "tc_inv tc \<Longrightarrow> tc_inv (tc_call sha1 call tc)"
  by (cases call)
    (auto simp: tc_inv_intros update_bitfield_from_buffer_def merge_piece_bitfield_def unmerge_piece_bitfield_def
      split: option.split)

lemma tc_inv_new:
  "length hashes div HASH_LENGTH < 2 ^ 32 \<Longrightarrow> tc_inv (tc_new hashes piece_length files seeding config)"
  by (simp add: tc_inv_def tc_wf_def mirrored_def tc_new_def tc_new_base_def ps_new_def pm_new_def Let_def)

lemma tc_inv_run:
  "tc_inv tc \<Longrightarrow> tc_inv (fold (tc_call sha1) steps tc)"
  by (induction steps arbitrary: tc) (simp_all add: tc_inv_call)



subsection \<open>Sequences of lifecycle commands\<close>

fun run_machine :: "bool \<Rightarrow> Command list \<Rightarrow> TorrentStatus \<Rightarrow> bool list \<times> TorrentStatus" where
  "run_machine complete [] s = ([], s)"
| "run_machine complete (cmd # cmds) s =
    (let next = next_status complete cmd s;
         (accepted, s') = run_machine complete cmds (case next of None \<Rightarrow> s | Some s' \<Rightarrow> s')
     in ((next \<noteq> None) # accepted, s'))"

fun run_commands :: "Command list \<Rightarrow> TorrentContext \<Rightarrow> bool list \<times> TorrentContext" where
  "run_commands [] tc = ([], tc)"
| "run_commands (cmd # cmds) tc =
    (let (r, tc') = command cmd tc; (accepted, tc'') = run_commands cmds tc'
     in ((\<not> isl r) # accepted, tc''))"

lemma status_frame [simp]:
  "is_piece_wanted (tc\<lparr>ctx_status := s\<rparr>) = is_piece_wanted tc"
  "is_piece_wanted (tc\<lparr>ctx_atomic_status := v\<rparr>) = is_piece_wanted tc"
  "is_piece_wanted (tc\<lparr>ctx_paused := b\<rparr>) = is_piece_wanted tc"
  "is_piece_wanted (tc\<lparr>ctx_download_finished := b\<rparr>) = is_piece_wanted tc"
  "tc_is_piece_local (tc\<lparr>ctx_status := s\<rparr>) = tc_is_piece_local tc"
  "tc_is_piece_local (tc\<lparr>ctx_atomic_status := v\<rparr>) = tc_is_piece_local tc"
  "tc_is_piece_local (tc\<lparr>ctx_paused := b\<rparr>) = tc_is_piece_local tc"
  "tc_is_piece_local (tc\<lparr>ctx_download_finished := b\<rparr>) = tc_is_piece_local tc"
  "piece_range (tc\<lparr>ctx_status := s\<rparr>) = piece_range tc"
  "piece_range (tc\<lparr>ctx_atomic_status := v\<rparr>) = piece_range tc"
  "piece_range (tc\<lparr>ctx_paused := b\<rparr>) = piece_range tc"
  "piece_range (tc\<lparr>ctx_download_finished := b\<rparr>) = piece_range tc"
  by (simp_all add: is_piece_wanted_def get_piece_priority_def file_overlaps_def
      piece_end_offset_def piece_range_def tc_is_piece_local_def fun_eq_iff cong: if_cong)

lemma command_complete [simp]: "tc_is_download_complete (snd (command cmd tc)) = tc_is_download_complete tc"
proof -
  have "tc_is_download_complete (tc\<lparr>ctx_status := s, ctx_atomic_status := v, ctx_paused := b, ctx_download_finished := c\<rparr>) =
      tc_is_download_complete tc" for s v b c
    by (simp add: tc_is_download_complete_def)
  from this [where b = "ctx_paused tc" and c = "ctx_download_finished tc"]
    this [where b = "ctx_paused tc" and c = True] this [where c = "ctx_download_finished tc"]
  show ?thesis by (cases cmd) (simp_all add: command_defs)
qed

lemma command_machine:
  "\<not> isl (fst (command cmd tc)) \<longleftrightarrow> next_status (tc_is_download_complete tc) cmd (ctx_status tc) \<noteq> None"
  "ctx_status (snd (command cmd tc)) =
    (case next_status (tc_is_download_complete tc) cmd (ctx_status tc) of None \<Rightarrow> ctx_status tc | Some s \<Rightarrow> s)"
  using command_refines [of cmd tc] by (auto split: option.splits)

text \<open>
  C4 (\<open>start_downloading\<close>, \<open>pause\<close>, \<open>resume\<close>, \<open>stop\<close>). Any sequence of lifecycle commands is accepted
  and refused as the state machine prescribes, command by command, and ends in the status that the
  machine ends in; a stopped torrent accepts nothing more.
\<close>

theorem lifecycle_refines_machine:
  "fst (run_commands cmds tc) = fst (run_machine (tc_is_download_complete tc) cmds (ctx_status tc))
   \<and> ctx_status (snd (run_commands cmds tc)) = snd (run_machine (tc_is_download_complete tc) cmds (ctx_status tc))
   \<and> run_commands cmds (snd (tc_stop tc)) = (replicate (length cmds) False, snd (tc_stop tc))"
proof (intro conjI)
  show "fst (run_commands cmds tc) = fst (run_machine (tc_is_download_complete tc) cmds (ctx_status tc))"
  proof (induction cmds arbitrary: tc)
    case (Cons cmd cmds)
    then show ?case by (simp add: case_prod_beta Let_def command_machine)
  qed simp
  show "ctx_status (snd (run_commands cmds tc)) = snd (run_machine (tc_is_download_complete tc) cmds (ctx_status tc))"
  proof (induction cmds arbitrary: tc)
    case (Cons cmd cmds)
    then show ?case by (simp add: case_prod_beta Let_def command_machine)
  qed simp
  have "ctx_status t = Ended \<Longrightarrow> run_commands cmds t = (replicate (length cmds) False, t)" for t
  proof (induction cmds arbitrary: t)
    case (Cons cmd cmds)
    obtain msg where "command cmd t = (Inl (Parse msg), t)" using command_refines [of cmd t] Cons.prems by (cases cmd) auto
    then show ?case using Cons by simp
  qed simp
  moreover have "ctx_status (snd (tc_stop tc)) = Ended" by (simp add: command_defs)
  ultimately show "run_commands cmds (snd (tc_stop tc)) = (replicate (length cmds) False, snd (tc_stop tc))" by blast
qed

text \<open>
  Starting a paused torrent is accepted and sets the status to downloading, but leaves the pause
  event set: the torrent still counts as paused, and resuming it is refused.
\<close>

lemma start_after_pause:
  assumes "ctx_status tc = Paused" and "ctx_paused tc" and "\<not> tc_is_download_complete tc"
  shows "fst (start_downloading tc) = Inr () \<and> ctx_status (snd (start_downloading tc)) = Downloading
    \<and> tc_is_paused (snd (start_downloading tc)) \<and> isl (fst (tc_resume (snd (start_downloading tc))))"
  using assms by (simp add: command_defs tc_is_paused_def)

subsection \<open>Byte counters\<close>

text \<open>
  Verification results as the pipeline reports them: each piece with its own length \<open>L\<close>, and a
  negative result only for a piece that is not local.
\<close>

fun results_ok :: "(u32 \<Rightarrow> u32) \<Rightarrow> (u32 \<times> bool) list \<Rightarrow> TorrentContext \<Rightarrow> bool" where
  "results_ok L [] tc = True"
| "results_ok L ((p, there) # rs) tc \<longleftrightarrow> unat p < ctx_number_of_pieces tc \<and> (there \<or> \<not> tc_is_piece_local tc p)
    \<and> results_ok L rs (tc_update_bitfield_status tc p there (L p))"

fun record_results :: "(u32 \<Rightarrow> u32) \<Rightarrow> (u32 \<times> bool) list \<Rightarrow> TorrentContext \<Rightarrow> TorrentContext" where
  "record_results L [] tc = tc"
| "record_results L ((p, there) # rs) tc = record_results L rs (tc_update_bitfield_status tc p there (L p))"

definition local_bytes :: "(u32 \<Rightarrow> u32) \<Rightarrow> TorrentContext \<Rightarrow> u64" where
  "local_bytes L tc = (\<Sum>p | tc_is_piece_local tc p. ucast (L p))"

lemma update_status_fields:
  "ctx_number_of_pieces (tc_update_bitfield_status tc p b len) = ctx_number_of_pieces tc"
  "ctx_total_bytes_to_download (tc_update_bitfield_status tc p b len) = ctx_total_bytes_to_download tc"
  "ctx_bitfield (tc_update_bitfield_status tc p b len) = bf_put (ctx_bitfield tc) p b"
  "ctx_total_bytes_downloaded (tc_update_bitfield_status tc p b len) =
    ctx_total_bytes_downloaded tc + (if b \<and> \<not> tc_is_piece_local tc p then ucast len else 0)"
  by (simp_all add: tc_update_bitfield_status_def tc_mark_piece_missing_simp tc_mark_piece_local_def
      tc_set_piece_length_def Let_def)

lemma wf_range: "tc_wf tc \<Longrightarrow> unat p < ctx_number_of_pieces tc \<Longrightarrow> bf_range (ctx_bitfield tc) p"
  by (simp add: tc_wf_def bf_range_def)

lemma local_after_update:
  assumes "tc_inv tc" and "unat p < ctx_number_of_pieces tc"
  shows "tc_is_piece_local (tc_update_bitfield_status tc p b len) q \<longleftrightarrow> (if q = p then b else tc_is_piece_local tc q)"
proof -
  note D = tc_invD [OF assms(1)] tc_invD [OF tc_inv_update_status [OF assms(1)]]
  show ?thesis
    using wf_range [OF D(1) assms(2)]
    by (simp add: tc_is_piece_local_get [OF D(2)] tc_is_piece_local_get [OF D(7)] update_status_fields bf_get_put)
qed

lemma local_bytes_update:
  assumes "tc_inv tc" and "unat p < ctx_number_of_pieces tc" and "b \<or> \<not> tc_is_piece_local tc p"
    and "ctx_total_bytes_downloaded tc = local_bytes L tc"
  shows "ctx_total_bytes_downloaded (tc_update_bitfield_status tc p b (L p)) =
    local_bytes L (tc_update_bitfield_status tc p b (L p))"
proof (cases "b \<and> \<not> tc_is_piece_local tc p")
  case True
  then have "{q. tc_is_piece_local (tc_update_bitfield_status tc p b (L p)) q} = insert p {q. tc_is_piece_local tc q}"
    using local_after_update [OF assms(1,2)] by auto
  then show ?thesis using True assms(4) by (simp add: update_status_fields local_bytes_def)
next
  case False
  then have "{q. tc_is_piece_local (tc_update_bitfield_status tc p b (L p)) q} = {q. tc_is_piece_local tc q}"
    using local_after_update [OF assms(1,2)] assms(3) by auto
  then show ?thesis using False assms(4) by (auto simp: update_status_fields local_bytes_def)
qed

lemma local_bytes_run:
  assumes "tc_inv tc" and "results_ok L rs tc" and "ctx_total_bytes_downloaded tc = local_bytes L tc"
  shows "ctx_total_bytes_downloaded (record_results L rs tc) = local_bytes L (record_results L rs tc)
    \<and> ctx_total_bytes_to_download (record_results L rs tc) = ctx_total_bytes_to_download tc
    \<and> ctx_number_of_pieces (record_results L rs tc) = ctx_number_of_pieces tc \<and> tc_inv (record_results L rs tc)"
  using assms
proof (induction L rs tc rule: record_results.induct)
  case (2 L p there rs tc)
  then show ?case
    using local_bytes_update [of tc p there L] by (simp add: tc_inv_update_status update_status_fields)
qed simp

lemma local_in_range_run:
  assumes "tc_inv tc" and "results_ok L rs tc" and "\<And>q. tc_is_piece_local tc q \<Longrightarrow> unat q < ctx_number_of_pieces tc"
    and "tc_is_piece_local (record_results L rs tc) q"
  shows "unat q < ctx_number_of_pieces tc"
  using assms
proof (induction L rs tc rule: record_results.induct)
  case (2 L p there rs tc)
  from 2(3) have p: "unat p < ctx_number_of_pieces tc" and rest: "results_ok L rs (tc_update_bitfield_status tc p there (L p))"
    by simp_all
  have "unat q < ctx_number_of_pieces (tc_update_bitfield_status tc p there (L p))"
    using 2(1) [OF tc_inv_update_status [OF 2(2)] rest] 2(4,5) p local_after_update [OF 2(2) p, of there "L p"]
    by (simp add: update_status_fields split: if_splits)
  then show ?case by (simp add: update_status_fields)
qed simp

lemma sum_split_local:
  fixes L :: "u32 \<Rightarrow> u32"
  assumes "\<And>q. loc q \<Longrightarrow> unat q < n"
  shows "(\<Sum>p | unat p < n. unat (L p)) = (\<Sum>p | loc p. unat (L p)) + (\<Sum>p | unat p < n \<and> \<not> loc p. unat (L p))"
proof -
  have "{p. unat p < n} = {p. loc p} \<union> {p. unat p < n \<and> \<not> loc p}" using assms by auto
  moreover have "{p. loc p} \<inter> {p. unat p < n \<and> \<not> loc p} = {}" by auto
  ultimately show ?thesis by (simp add: sum.union_disjoint)
qed

lemma unat_local_bytes:
  assumes "(\<Sum>p | tc_is_piece_local tc p. unat (L p)) < 2 ^ 64"
  shows "unat (local_bytes L tc) = (\<Sum>p | tc_is_piece_local tc p. unat (L p))"
proof -
  have "ucast (L p) = (of_nat (unat (L p)) :: u64)" for p by simp
  then have "local_bytes L tc = of_nat (\<Sum>p | tc_is_piece_local tc p. unat (L p))"
    by (simp add: local_bytes_def)
  then show ?thesis using assms by (simp only: unat_of_nat) (simp add: take_bit_nat_eq_self)
qed

text \<open>
  C13 (\<open>update_bitfield_status\<close>, \<open>bytes_left_to_download\<close>). As long as no local piece is reported bad, the
  bytes left to download are exactly the lengths of the pieces that are not local, through every
  sequence of verification results, repeated ones included; in particular the count never turns
  negative and is zero once every piece is local.
\<close>

theorem bytes_left_exact:
  assumes "length hashes div HASH_LENGTH < 2 ^ 32" and "0 < total_bytes"
    and "(\<Sum>p | unat p < length hashes div HASH_LENGTH. unat (L p)) = unat total_bytes"
    and start: "tc\<^sub>0 = tc_new hashes piece_length (total_bytes, files) seeding config"
    and "results_ok L rs tc\<^sub>0" and tc: "tc = record_results L rs tc\<^sub>0"
  shows "\<exists>left. bytes_left_to_download metrics_total tc = Inr left
    \<and> unat left = (\<Sum>p | unat p < ctx_number_of_pieces tc \<and> \<not> tc_is_piece_local tc p. unat (L p))"
proof -
  have inv: "tc_inv tc\<^sub>0" unfolding start by (rule tc_inv_new [OF assms(1)])
  have n: "ctx_number_of_pieces tc\<^sub>0 = length hashes div HASH_LENGTH" "ctx_total_bytes_to_download tc\<^sub>0 = total_bytes"
    "ctx_total_bytes_downloaded tc\<^sub>0 = 0" "ctx_bitfield tc\<^sub>0 = replicate ((length hashes div HASH_LENGTH + 7) div 8) 0"
    by (simp_all add: start tc_new_def tc_new_base_def Let_def)
  have none: "\<not> tc_is_piece_local tc\<^sub>0 q" for q using tc_is_piece_local_get [OF tc_invD(2) [OF inv]] by (simp add: n)
  have "ctx_total_bytes_downloaded tc\<^sub>0 = local_bytes L tc\<^sub>0" by (simp add: n none local_bytes_def)
  note run = local_bytes_run [OF inv assms(5) this, folded tc]
  let ?loc = "\<Sum>p | tc_is_piece_local tc p. unat (L p)"
  let ?left = "\<Sum>p | unat p < ctx_number_of_pieces tc \<and> \<not> tc_is_piece_local tc p. unat (L p)"
  have "unat q < ctx_number_of_pieces tc" if "tc_is_piece_local tc q" for q
    using local_in_range_run [OF inv assms(5)] that none run unfolding tc by auto
  from sum_split_local [of "tc_is_piece_local tc", OF this, where L = L] have split: "unat total_bytes = ?loc + ?left"
    using run assms(3) by (simp add: n)
  moreover have "unat total_bytes < 2 ^ LENGTH(64)" by (rule unsigned_less)
  ultimately have "?loc < 2 ^ 64" by simp
  then have loc: "unat (ctx_total_bytes_downloaded tc) = ?loc" using unat_local_bytes run by simp
  then have le: "ctx_total_bytes_downloaded tc \<le> total_bytes" using split by (simp add: word_le_nat_alt)
  then have "unat (total_bytes - ctx_total_bytes_downloaded tc) = ?left"
    using loc split by (simp add: unat_sub)
  moreover have "\<not> total_bytes < ctx_total_bytes_downloaded tc" using le by (simp only: not_less)
  ultimately show ?thesis using run assms(2) by (simp add: bytes_left_to_download_def Let_def n)
qed

theorem bytes_left_exact_witness:
  "\<exists>left. bytes_left_to_download 0 (record_results (\<lambda>_. 4) [(2, False), (0, True), (0, True)]
      (tc_new (replicate 60 0) 4 (12, []) False sample_config)) = Inr left"
proof -
  let ?tc = "tc_new (replicate 60 0) 4 (12, []) False sample_config"
  have n: "ctx_number_of_pieces ?tc = 3" by (simp add: sample_defs)
  have inv: "tc_inv ?tc" by (rule tc_inv_new) (simp add: HASH_LENGTH_def)
  have "\<not> tc_is_piece_local ?tc 2"
    unfolding tc_is_piece_local_get [OF tc_invD(2) [OF inv]] by (simp add: tc_new_def tc_new_base_def Let_def del: replicate.simps)
  then have ok: "results_ok (\<lambda>_. 4) [(2, False), (0, True), (0, True)] ?tc" by (simp add: n update_status_fields)
  have "{p :: u32. unat p < 3} = {0, 1, 2}" by (auto simp: unat_arith_simps)
  then have "(\<Sum>p | unat (p :: u32) < length (replicate 60 (0 :: u8)) div HASH_LENGTH. unat (4 :: u32)) = unat (12 :: u64)"
    by (simp add: HASH_LENGTH_def)
  from bytes_left_exact [OF _ _ this refl ok refl, of 0] show ?thesis by (auto simp: HASH_LENGTH_def)
qed

text \<open>
  A local piece that a later check reports bad keeps its bytes in the counter, so downloading it
  again counts them twice.
\<close>

lemma recheck_counts_twice:
  assumes "tc_inv tc" and "unat p < ctx_number_of_pieces tc"
  shows "ctx_total_bytes_downloaded (tc_update_bitfield_status (tc_update_bitfield_status tc p False len) p True len) =
    ctx_total_bytes_downloaded tc + ucast len"
  using local_after_update [OF assms, of False len p] by (simp add: update_status_fields)

subsection \<open>Peer counts\<close>

lemma blacklisting_keeps_counts:
  assumes "ctx_bad_peer_scores tc ip = Some 2" and "map_of (ctx_peer_swarm tc) ip = Some peer"
  shows "map_of (ctx_peer_swarm (report_bad_peer ip tc)) ip = None
    \<and> ctx_piece_data (report_bad_peer ip tc) = ctx_piece_data tc"
  using assms by (simp add: report_bad_peer_def Let_def delete_conv')

end
