(* ===== verification/Verification_Pool.thy ===== *)
theory Verification_Pool
  imports Merkle Block_Storage Bitfield "HOL-Library.Multiset"
begin

text \<open>
  The background hash verification of pieces (\<open>library/src/storage/verification_pool.rs\<close>): what one
  job does, and the pool of worker threads between its two channels. The two hash functions are
  parameters. A job reads its piece in one step; between the steps of the pool the storage may
  change in any way. Piece lengths are positive. Elapsed times and the throughput metrics derived from them are left out, and
  a job refers to the storage of the pool's owner or to none.
\<close>

section \<open>One job\<close>

record PieceVerificationJob =
  job_piece_number :: u32
  job_piece_length :: u32
  job_piece_offset :: nat
  job_expected_v1_hash :: "bytes option"
  job_expected_v2_root :: "bytes option"
  job_storage :: bool
  job_direct_buffer :: "bytes option"
  job_block_sources :: "string option list"

record PieceVerificationResult =
  res_piece_number :: u32
  res_piece_length :: u32
  res_piece_offset :: nat
  res_is_valid :: bool
  res_actual_v1_hash :: "bytes option"
  res_expected_v1_hash :: "bytes option"
  res_actual_v2_root :: "bytes option"
  res_expected_v2_root :: "bytes option"
  res_block_sources :: "string option list"
  res_error :: "string option"

text \<open>The loop that halves the layer until one hash is left.\<close>

function root_loop :: "(bytes \<Rightarrow> bytes) \<Rightarrow> bytes list \<Rightarrow> bytes" where
  "root_loop H cur = (if 1 < length cur then root_loop H (pair_up H cur) else cur ! 0)"
  by pat_completeness auto
termination root_loop
  by (relation "measure (\<lambda>(H, cur). length cur)") auto

declare root_loop.simps [simp del]

definition compute_merkle_root_from_leaves :: "(bytes \<Rightarrow> bytes) \<Rightarrow> bytes list \<Rightarrow> bytes" where
  "compute_merkle_root_from_leaves H leaves =
    (if leaves = [] then zero_hash
     else if length leaves = 1 then leaves ! 0
     else root_loop H (leaves @ replicate (next_power_of_two (length leaves) - length leaves) zero_hash))"

definition compute_v2_piece_merkle_root :: "(bytes \<Rightarrow> bytes) \<Rightarrow> bytes \<Rightarrow> bytes" where
  "compute_v2_piece_merkle_root H data =
    (if data = [] then zero_hash
     else compute_merkle_root_from_leaves H (map H (chunks BLOCK_SIZE data)))"

text \<open>The read loop: the blocks of the piece, or the message of the first failed read.\<close>

function read_blocks ::
  "'s BlockStorage \<Rightarrow> nat \<Rightarrow> nat \<Rightarrow> bytes list \<Rightarrow> 's \<Rightarrow> (string + bytes list) \<times> 's" where
  "read_blocks st read_offset remaining acc s =
    (if remaining = 0 then (Inr acc, s)
     else let to_read = min remaining BLOCK_SIZE in
       case st_read st s read_offset to_read of
         (Inr bs, s') \<Rightarrow>
           if length bs = to_read
           then read_blocks st (read_offset + to_read) (remaining - to_read) (acc @ [bs]) s'
           else (Inl (''Short read from storage: expected '' @ string_of_nat to_read @ '' bytes, got ''
                   @ string_of_nat (length bs)), s')
       | (Inl e, s') \<Rightarrow> (Inl (''Storage read error: '' @ error_display e), s'))"
  by pat_completeness auto
termination read_blocks
  by (relation "measure (\<lambda>(_, _, remaining, _, _). remaining)") (auto simp: BLOCK_SIZE_def)

declare read_blocks.simps [simp del]

definition job_result ::
  "PieceVerificationJob \<Rightarrow> bool \<Rightarrow> bytes option \<Rightarrow> bytes option \<Rightarrow> string option \<Rightarrow> PieceVerificationResult" where
  "job_result job is_valid actual_v1 actual_v2 err =
    \<lparr>res_piece_number = job_piece_number job, res_piece_length = job_piece_length job,
     res_piece_offset = job_piece_offset job, res_is_valid = is_valid,
     res_actual_v1_hash = actual_v1, res_expected_v1_hash = job_expected_v1_hash job,
     res_actual_v2_root = actual_v2, res_expected_v2_root = job_expected_v2_root job,
     res_block_sources = job_block_sources job, res_error = err\<rparr>"

text \<open>Each digest is computed only where the job expects one, and compared with it.\<close>

definition digests_agree :: "bytes option \<Rightarrow> bytes option \<Rightarrow> bool" where
  "digests_agree actual expected = (case (actual, expected) of (Some h, Some e) \<Rightarrow> h = e | _ \<Rightarrow> True)"

definition execute_verification_job ::
  "(bytes \<Rightarrow> bytes) \<Rightarrow> (bytes \<Rightarrow> bytes) \<Rightarrow> 's BlockStorage \<Rightarrow> PieceVerificationJob \<Rightarrow> 's \<Rightarrow> PieceVerificationResult \<times> 's" where
  "execute_verification_job sha1 H st job s =
    (case job_direct_buffer job of
       Some buf \<Rightarrow>
         let slice = take (min (unat (job_piece_length job)) (length buf)) buf;
             v1 = map_option (\<lambda>_. sha1 slice) (job_expected_v1_hash job);
             v2 = map_option (\<lambda>_. compute_v2_piece_merkle_root H slice) (job_expected_v2_root job)
         in (job_result job (digests_agree v1 (job_expected_v1_hash job) \<and> digests_agree v2 (job_expected_v2_root job))
               v1 v2 None, s)
     | None \<Rightarrow>
         if job_storage job
         then case read_blocks st (job_piece_offset job) (unat (job_piece_length job)) [] s of
                (Inl msg, s') \<Rightarrow> (job_result job False None None (Some msg), s')
              | (Inr blocks, s') \<Rightarrow>
                  let v1 = map_option (\<lambda>_. sha1 (concat blocks)) (job_expected_v1_hash job);
                      v2 = map_option (\<lambda>_. compute_merkle_root_from_leaves H (map H blocks)) (job_expected_v2_root job)
                  in (job_result job
                        (digests_agree v1 (job_expected_v1_hash job) \<and> digests_agree v2 (job_expected_v2_root job))
                        v1 v2 None, s')
         else (job_result job False None None (Some ''No data source provided for verification job''), s))"

section \<open>The pool\<close>

record RecheckProgress =
  rp_total_pieces :: nat
  rp_total_bytes :: nat
  rp_checked_pieces :: nat
  rp_valid_pieces :: nat
  rp_corrupt_pieces :: nat
  rp_checked_bytes :: nat
  rp_is_complete :: bool

definition rp_new :: "nat \<Rightarrow> nat \<Rightarrow> RecheckProgress" where
  "rp_new total_pieces total_bytes =
    \<lparr>rp_total_pieces = total_pieces, rp_total_bytes = total_bytes, rp_checked_pieces = 0,
     rp_valid_pieces = 0, rp_corrupt_pieces = 0, rp_checked_bytes = 0, rp_is_complete = (total_pieces = 0)\<rparr>"

text \<open>
  The jobs in the channel, each with the recheck it belongs to if any, those a worker holds, and
  the results that have not been received yet.
\<close>

record HashVerificationPool =
  vp_queue :: "(PieceVerificationJob \<times> nat option) list"
  vp_running :: "(PieceVerificationJob \<times> nat option) list"
  vp_results :: "PieceVerificationResult list"
  vp_rechecks :: "RecheckProgress list"
  vp_pending_jobs :: nat
  vp_jobs_submitted :: nat
  vp_jobs_completed :: nat
  vp_valid_pieces :: nat
  vp_corrupted_pieces :: nat
  vp_total_bytes_verified :: nat
  vp_worker_count :: nat
  vp_queue_capacity :: nat
  vp_open :: bool

definition vp_new :: "nat \<Rightarrow> nat \<Rightarrow> HashVerificationPool" where
  "vp_new workers queue_capacity =
    \<lparr>vp_queue = [], vp_running = [], vp_results = [], vp_rechecks = [], vp_pending_jobs = 0,
     vp_jobs_submitted = 0, vp_jobs_completed = 0, vp_valid_pieces = 0, vp_corrupted_pieces = 0,
     vp_total_bytes_verified = 0, vp_worker_count = max 1 (min 32 workers),
     vp_queue_capacity = max queue_capacity 16, vp_open = True\<rparr>"

definition vp_send :: "PieceVerificationJob \<Rightarrow> nat option \<Rightarrow> HashVerificationPool \<Rightarrow> HashVerificationPool" where
  "vp_send job progress P = P\<lparr>vp_pending_jobs := vp_pending_jobs P + 1,
     vp_jobs_submitted := vp_jobs_submitted P + 1, vp_queue := vp_queue P @ [(job, progress)]\<rparr>"

definition vp_submit :: "PieceVerificationJob \<Rightarrow> HashVerificationPool \<Rightarrow> unit result \<times> HashVerificationPool" where
  "vp_submit job P =
    (if vp_queue_capacity P \<le> vp_pending_jobs P
     then (Inl (Protocol ''Hash verification worker pool queue is full''), P)
     else if vp_open P then (Inr (), vp_send job None P)
     else (Inl (Protocol ''Worker pool is closed''), P))"

definition poll_results :: "HashVerificationPool \<Rightarrow> PieceVerificationResult list \<times> HashVerificationPool" where
  "poll_results P = (vp_results P, P\<lparr>vp_results := []\<rparr>)"

definition try_recv_result :: "HashVerificationPool \<Rightarrow> PieceVerificationResult option \<times> HashVerificationPool" where
  "try_recv_result P = (case vp_results P of [] \<Rightarrow> (None, P) | r # rs \<Rightarrow> (Some r, P\<lparr>vp_results := rs\<rparr>))"

text \<open>What a worker does: receive a job, and later account for its result and send it.\<close>

definition worker_take :: "HashVerificationPool \<Rightarrow> HashVerificationPool option" where
  "worker_take P = (case vp_queue P of
      [] \<Rightarrow> None
    | j # q \<Rightarrow> if length (vp_running P) < vp_worker_count P
        then Some (P\<lparr>vp_queue := q, vp_running := vp_running P @ [j]\<rparr>) else None)"

definition rp_record :: "PieceVerificationResult \<Rightarrow> RecheckProgress \<Rightarrow> RecheckProgress" where
  "rp_record r p = p\<lparr>rp_checked_pieces := rp_checked_pieces p + 1,
     rp_checked_bytes := rp_checked_bytes p + unat (res_piece_length r),
     rp_valid_pieces := rp_valid_pieces p + (if res_is_valid r then 1 else 0),
     rp_corrupt_pieces := rp_corrupt_pieces p + (if res_is_valid r then 0 else 1),
     rp_is_complete := (rp_total_pieces p \<le> rp_checked_pieces p + 1 \<or> rp_is_complete p)\<rparr>"

definition worker_finish :: "nat \<Rightarrow> PieceVerificationResult \<Rightarrow> HashVerificationPool \<Rightarrow> HashVerificationPool" where
  "worker_finish i r P =
    P\<lparr>vp_running := take i (vp_running P) @ drop (Suc i) (vp_running P),
      vp_pending_jobs := vp_pending_jobs P - 1, vp_jobs_completed := vp_jobs_completed P + 1,
      vp_total_bytes_verified := vp_total_bytes_verified P + unat (res_piece_length r),
      vp_valid_pieces := vp_valid_pieces P + (if res_is_valid r then 1 else 0),
      vp_corrupted_pieces := vp_corrupted_pieces P + (if res_is_valid r then 0 else 1),
      vp_rechecks := (case snd (vp_running P ! i) of None \<Rightarrow> vp_rechecks P
        | Some k \<Rightarrow> (vp_rechecks P)[k := rp_record r (vp_rechecks P ! k)]),
      vp_results := vp_results P @ [r]\<rparr>"

section \<open>Rechecking a torrent\<close>

definition recheck_piece_len :: "u32 \<Rightarrow> u32 \<Rightarrow> nat \<Rightarrow> u32 \<Rightarrow> u32" where
  "recheck_piece_len num_pieces piece_length total_bytes piece =
    (if piece = num_pieces - 1
     then (let rem = of_nat (total_bytes mod unat piece_length) in if rem = 0 then piece_length else rem)
     else piece_length)"

definition recheck_job :: "u32 \<Rightarrow> u32 \<Rightarrow> nat \<Rightarrow> bytes \<Rightarrow> u32 \<Rightarrow> PieceVerificationJob" where
  "recheck_job num_pieces piece_length total_bytes pieces_info_hash piece =
    \<lparr>job_piece_number = piece,
     job_piece_length = recheck_piece_len num_pieces piece_length total_bytes piece,
     job_piece_offset = unat piece * unat piece_length,
     job_expected_v1_hash = (let start = unat piece * 20 in
       if start + 20 \<le> length pieces_info_hash then Some (bslice pieces_info_hash start (start + 20)) else None),
     job_expected_v2_root = None, job_storage = True, job_direct_buffer = None, job_block_sources = []\<rparr>"

definition recheck_pieces_parallel ::
  "u32 \<Rightarrow> u32 \<Rightarrow> nat \<Rightarrow> bytes \<Rightarrow> HashVerificationPool \<Rightarrow> nat result \<times> HashVerificationPool" where
  "recheck_pieces_parallel num_pieces piece_length total_bytes pieces_info_hash P =
    (let id = length (vp_rechecks P);
         P1 = P\<lparr>vp_rechecks := vp_rechecks P @ [rp_new (unat num_pieces) total_bytes]\<rparr>
     in if num_pieces = 0 then (Inr id, P1)
        else if \<not> vp_open P then (Inl (Protocol ''Worker pool is closed''), P1)
        else (Inr id, fold (\<lambda>i. vp_send (recheck_job num_pieces piece_length total_bytes pieces_info_hash (of_nat i)) (Some id))
               [0..<unat num_pieces] P1))"

text \<open>
  The receiving loop of \<open>recheck_pieces_blocking\<close>, over what its receive calls return: a result, or
  nothing, in which case the loop looks whether the recheck has finished and then takes what is left
  in the channel. Without further events the loop is still waiting.
\<close>

datatype RecvEvent =
    Received PieceVerificationResult
  | TimedOut bool "PieceVerificationResult list"

definition set_valid :: "PieceVerificationResult \<Rightarrow> bytes \<Rightarrow> bytes" where
  "set_valid r bf = (if res_is_valid r then bf_put bf (res_piece_number r) True else bf)"

fun recheck_collect :: "nat \<Rightarrow> RecvEvent list \<Rightarrow> nat \<Rightarrow> bytes \<Rightarrow> bytes option" where
  "recheck_collect num_pieces events collected bf =
    (if num_pieces \<le> collected then Some bf
     else case events of
       [] \<Rightarrow> None
     | Received r # es \<Rightarrow> recheck_collect num_pieces es (collected + 1) (set_valid r bf)
     | TimedOut finished rest # es \<Rightarrow>
         if finished then Some (fold set_valid rest bf) else recheck_collect num_pieces es collected bf)"

declare recheck_collect.simps [simp del]

definition recheck_pieces_blocking :: "u32 \<Rightarrow> RecvEvent list \<Rightarrow> bytes option" where
  "recheck_pieces_blocking num_pieces events =
    recheck_collect (unat num_pieces) events 0 (replicate ((unat num_pieces + 7) div 8) 0)"

definition vp_shutdown :: "HashVerificationPool \<Rightarrow> HashVerificationPool" where
  "vp_shutdown P = P\<lparr>vp_open := False\<rparr>"

section \<open>What a job decides\<close>

lemma build_layers_ne [simp]: "build_layers H cur \<noteq> []"
  by (subst build_layers.simps) simp

lemma root_loop_layers: "cur \<noteq> [] \<Longrightarrow> root_loop H cur = last (build_layers H cur) ! 0"
proof (induction H cur rule: root_loop.induct)
  case (1 H cur)
  show ?case
  proof (cases "1 < length cur")
    case True
    then have "pair_up H cur \<noteq> []" by (cases "(H, cur)" rule: pair_up.cases) auto
    then show ?thesis
      using 1 True by (subst root_loop.simps, subst build_layers.simps) simp
  next
    case False
    then show ?thesis by (subst root_loop.simps, subst build_layers.simps) simp
  qed
qed

lemma last_build_layers_ne: "cur \<noteq> [] \<Longrightarrow> last (build_layers H cur) \<noteq> []"
proof (induction H cur rule: build_layers.induct)
  case (1 H cur)
  show ?case
  proof (cases "length cur \<le> 1")
    case True
    then show ?thesis using 1(2) by (subst build_layers.simps) simp
  next
    case False
    then have "pair_up H cur \<noteq> []" by (cases "(H, cur)" rule: pair_up.cases) auto
    then show ?thesis using 1 False by (subst build_layers.simps) simp
  qed
qed

lemma root_from_leaves: "compute_merkle_root_from_leaves H leaves = mt_root (from_leaf_hashes H leaves n)"
proof (cases "length leaves \<le> 1")
  case True
  then show ?thesis by (cases leaves) (auto simp: compute_merkle_root_from_leaves_def from_leaf_hashes_def)
next
  case False
  then have ne: "pad_layer leaves \<noteq> []" "leaves \<noteq> []" by (auto simp: pad_layer_def)
  show ?thesis
    using False ne last_build_layers_ne [OF ne(1)] root_loop_layers [OF ne(1)]
    by (simp add: compute_merkle_root_from_leaves_def from_leaf_hashes_def layers_root_def Let_def
        pad_layer_def [symmetric] hd_conv_nth)
qed

text \<open>
  C12 (\<open>compute_v2_piece_merkle_root\<close>). The root that the verification pool computes for a piece is the
  root of the Merkle tree over the piece's data.
\<close>

theorem piece_root_agrees: "compute_v2_piece_merkle_root H data = mt_root (from_bytes H data)"
  by (simp add: compute_v2_piece_merkle_root_def from_bytes_def root_from_leaves [where n = "length data"])

lemma concat_chunks [simp]: "0 < n \<Longrightarrow> concat (chunks n xs) = xs"
  by (induction n xs rule: chunks.induct) (subst chunks.simps, auto)

lemma chunks_slice:
  assumes "0 < r" and "off + r \<le> length c" and "0 < n"
  shows "chunks n (bslice c off (off + r)) =
    bslice c off (off + min r n) # chunks n (bslice c (off + min r n) (off + r))"
proof -
  have "bslice c off (off + r) \<noteq> []" using assms by (simp add: bslice_def)
  moreover have "drop n (bslice c off (off + r)) = bslice c (off + min r n) (off + r)"
    by (auto simp: bslice_def drop_take min_def ac_simps)
  moreover have "take n (bslice c off (off + r)) = bslice c off (off + min r n)"
    by (simp add: bslice_def min.commute)
  ultimately show ?thesis using assms(3) by (subst chunks.simps) simp
qed

context block_storage
begin

lemma read_blocks_ok:
  assumes "good s" and "off + n \<le> length (content s)"
  shows "\<exists>s'. read_blocks st off n acc s = (Inr (acc @ chunks BLOCK_SIZE (bslice (content s) off (off + n))), s')
    \<and> good s' \<and> content s' = content s"
  using assms
proof (induction n arbitrary: off acc s rule: less_induct)
  case (less n)
  show ?case
  proof (cases "n = 0")
    case True
    then show ?thesis
      using less.prems by (subst read_blocks.simps) (simp add: bslice_def chunks.simps)
  next
    case False
    let ?k = "min n BLOCK_SIZE"
    have k: "0 < ?k" "off + ?k \<le> length (content s)" using False less.prems(2) by (auto simp: BLOCK_SIZE_def)
    obtain s1 where r: "st_read st s off ?k = (Inr (bslice (content s) off (off + ?k)), s1)" "good s1"
        "content s1 = content s"
      using read_ok [OF less.prems(1) k(2)] by blast
    obtain s2 where "read_blocks st (off + ?k) (n - ?k) (acc @ [bslice (content s) off (off + ?k)]) s1 =
        (Inr ((acc @ [bslice (content s) off (off + ?k)]) @ chunks BLOCK_SIZE (bslice (content s) (off + ?k) (off + n))), s2)"
      and s2: "good s2" "content s2 = content s"
      using less.IH [of "n - ?k" s1 "off + ?k" "acc @ [bslice (content s) off (off + ?k)]"] k(1) r(2,3) less.prems(2) False
      by auto
    moreover have "length (bslice (content s) off (off + ?k)) = ?k" using k(2) by simp
    moreover have "chunks BLOCK_SIZE (bslice (content s) off (off + n)) =
        bslice (content s) off (off + ?k) # chunks BLOCK_SIZE (bslice (content s) (off + ?k) (off + n))"
      by (rule chunks_slice) (use False less.prems(2) in \<open>simp_all add: BLOCK_SIZE_def\<close>)
    ultimately have "read_blocks st off n acc s =
        (Inr (acc @ chunks BLOCK_SIZE (bslice (content s) off (off + n))), s2)"
      using False r(1) by (subst read_blocks.simps) (simp add: Let_def del: length_bslice)
    then show ?thesis using s2 by blast
  qed
qed

lemma storage_job_exact:
  assumes "good s" and "job_piece_offset job + unat (job_piece_length job) \<le> length (content s)"
    and "job_direct_buffer job = None" and "job_storage job" and "job_expected_v1_hash job = Some h"
    and "job_expected_v2_root job = None"
  shows "\<exists>s'. execute_verification_job sha1 H st job s =
      (job_result job (sha1 (bslice (content s) (job_piece_offset job) (job_piece_offset job + unat (job_piece_length job))) = h)
        (Some (sha1 (bslice (content s) (job_piece_offset job) (job_piece_offset job + unat (job_piece_length job))))) None None, s')
    \<and> good s' \<and> content s' = content s"
proof -
  obtain s' where "read_blocks st (job_piece_offset job) (unat (job_piece_length job)) [] s =
      (Inr (chunks BLOCK_SIZE (bslice (content s) (job_piece_offset job) (job_piece_offset job + unat (job_piece_length job)))), s')"
    and "good s'" "content s' = content s"
    using read_blocks_ok [OF assms(1,2), of "[]"] by auto
  then show ?thesis
    using assms(3-6) by (auto simp: execute_verification_job_def digests_agree_def BLOCK_SIZE_def)
qed

end

section \<open>Every job gives one result\<close>

text \<open>
  The reachable states of a pool, with the jobs that were accepted so far and the results that
  were received. Clients submit, recheck, receive and shut down; workers take and finish jobs,
  several at a time and in any order; the storage changes at will.
\<close>

inductive pool_reach ::
  "(bytes \<Rightarrow> bytes) \<Rightarrow> (bytes \<Rightarrow> bytes) \<Rightarrow> 's BlockStorage \<Rightarrow> HashVerificationPool \<Rightarrow> 's \<Rightarrow>
    PieceVerificationJob list \<Rightarrow> PieceVerificationResult list \<Rightarrow> bool"
  for sha1 H st where
  start: "pool_reach sha1 H st (vp_new workers capacity) s [] []"
| submit: "pool_reach sha1 H st P s js out \<Longrightarrow> vp_submit job P = (Inr (), P') \<Longrightarrow>
    pool_reach sha1 H st P' s (js @ [job]) out"
| recheck: "pool_reach sha1 H st P s js out \<Longrightarrow>
    recheck_pieces_parallel num len bytes hashes P = (Inr rid, P') \<Longrightarrow>
    pool_reach sha1 H st P' s (js @ map (\<lambda>i. recheck_job num len bytes hashes (of_nat i)) [0..<unat num]) out"
| take_job: "pool_reach sha1 H st P s js out \<Longrightarrow> worker_take P = Some P' \<Longrightarrow> pool_reach sha1 H st P' s js out"
| finish: "pool_reach sha1 H st P s js out \<Longrightarrow> i < length (vp_running P) \<Longrightarrow>
    execute_verification_job sha1 H st (fst (vp_running P ! i)) s = (r, s') \<Longrightarrow>
    pool_reach sha1 H st (worker_finish i r P) s' js out"
| poll: "pool_reach sha1 H st P s js out \<Longrightarrow> poll_results P = (rs, P') \<Longrightarrow> pool_reach sha1 H st P' s js (out @ rs)"
| recv: "pool_reach sha1 H st P s js out \<Longrightarrow> try_recv_result P = (Some r, P') \<Longrightarrow>
    pool_reach sha1 H st P' s js (out @ [r])"
| shutdown: "pool_reach sha1 H st P s js out \<Longrightarrow> pool_reach sha1 H st (vp_shutdown P) s js out"
| storage: "pool_reach sha1 H st P s js out \<Longrightarrow> pool_reach sha1 H st P s' js out"

text \<open>What ties a result to its job.\<close>

definition job_key :: "PieceVerificationJob \<Rightarrow> u32 \<times> u32 \<times> nat \<times> string option list" where
  "job_key j = (job_piece_number j, job_piece_length j, job_piece_offset j, job_block_sources j)"

definition result_key :: "PieceVerificationResult \<Rightarrow> u32 \<times> u32 \<times> nat \<times> string option list" where
  "result_key r = (res_piece_number r, res_piece_length r, res_piece_offset r, res_block_sources r)"

lemma execute_key: "execute_verification_job sha1 H st job s = (r, s') \<Longrightarrow> result_key r = job_key job"
  by (auto simp: execute_verification_job_def result_key_def job_key_def job_result_def Let_def
      split: option.splits if_splits prod.splits sum.splits)

definition pool_keys :: "HashVerificationPool \<Rightarrow> (u32 \<times> u32 \<times> nat \<times> string option list) multiset" where
  "pool_keys P = image_mset (job_key \<circ> fst) (mset (vp_queue P)) + image_mset (job_key \<circ> fst) (mset (vp_running P))
    + image_mset result_key (mset (vp_results P))"

definition pool_counts :: "HashVerificationPool \<Rightarrow> bool" where
  "pool_counts P \<longleftrightarrow> vp_pending_jobs P = length (vp_queue P) + length (vp_running P)
    \<and> vp_jobs_submitted P = vp_jobs_completed P + vp_pending_jobs P
    \<and> vp_valid_pieces P + vp_corrupted_pieces P = vp_jobs_completed P
    \<and> length (vp_running P) \<le> vp_worker_count P \<and> 0 < vp_worker_count P"

lemma send_keys:
  "pool_keys (vp_send job k P) = add_mset (job_key job) (pool_keys P)"
  "pool_counts P \<Longrightarrow> pool_counts (vp_send job k P)"
  "vp_jobs_submitted (vp_send job k P) = vp_jobs_submitted P + 1"
  by (simp_all add: vp_send_def pool_keys_def pool_counts_def)

lemma send_all_keys:
  "pool_keys (fold (\<lambda>i. vp_send (f i) k) is P) = image_mset (job_key \<circ> f) (mset is) + pool_keys P"
  "pool_counts P \<Longrightarrow> pool_counts (fold (\<lambda>i. vp_send (f i) k) is P)"
  "vp_jobs_submitted (fold (\<lambda>i. vp_send (f i) k) is P) = vp_jobs_submitted P + length is"
  by (induction "is" arbitrary: P) (simp_all add: send_keys)

lemma mset_remove_nth: "i < length xs \<Longrightarrow> mset xs = add_mset (xs ! i) (mset (take i xs @ drop (Suc i) xs))"
  by (subst id_take_nth_drop [of i xs]) simp_all

lemma finish_keys:
  assumes "i < length (vp_running P)" and "result_key r = job_key (fst (vp_running P ! i))"
  shows "pool_keys (worker_finish i r P) = pool_keys P"
  using mset_remove_nth [OF assms(1)] assms(2) by (simp add: worker_finish_def pool_keys_def)

lemma finish_counts:
  assumes "i < length (vp_running P)" and "pool_counts P"
  shows "pool_counts (worker_finish i r P)"
  using assms by (auto simp: worker_finish_def pool_counts_def)

lemma pool_invariant:
  assumes "pool_reach sha1 H st P s js out"
  shows "image_mset job_key (mset js) = pool_keys P + image_mset result_key (mset out)
    \<and> pool_counts P \<and> vp_jobs_submitted P = length js"
  using assms
proof (induction rule: pool_reach.induct)
  case (start workers capacity s)
  then show ?case by (simp add: vp_new_def pool_keys_def pool_counts_def)
next
  case (submit P s js out job P')
  then have "P' = vp_send job None P" by (auto simp: vp_submit_def split: if_splits)
  then show ?case using submit.IH by (simp add: send_keys)
next
  case (recheck P s js out num len bytes hashes rid P')
  let ?P1 = "P\<lparr>vp_rechecks := vp_rechecks P @ [rp_new (unat num) bytes]\<rparr>"
  have P': "P' = (if num = 0 then ?P1 else fold (\<lambda>i. vp_send (recheck_job num len bytes hashes (of_nat i)) (Some rid)) [0..<unat num] ?P1)"
    using recheck.hyps(2) by (auto simp: recheck_pieces_parallel_def Let_def split: if_splits)
  have "pool_keys ?P1 = pool_keys P" "pool_counts ?P1 = pool_counts P" "vp_jobs_submitted ?P1 = vp_jobs_submitted P"
    by (simp_all add: pool_keys_def pool_counts_def)
  then show ?case using recheck.IH by (cases "num = 0") (simp_all add: P' send_all_keys multiset.map_comp o_def)
next
  case (take_job P s js out P')
  then show ?case by (auto simp: worker_take_def pool_keys_def pool_counts_def split: list.splits if_splits)
next
  case (finish P s js out i r s')
  then show ?case
    using finish_keys [OF finish.hyps(2) execute_key [OF finish.hyps(3)]] finish_counts [OF finish.hyps(2)]
    by (simp add: worker_finish_def)
next
  case (poll P s js out rs P')
  then show ?case by (auto simp: poll_results_def pool_keys_def pool_counts_def)
next
  case (recv P s js out r P')
  then show ?case by (auto simp: try_recv_result_def pool_keys_def pool_counts_def split: list.splits)
next
  case (shutdown P s js out)
  then show ?case by (simp add: vp_shutdown_def pool_keys_def pool_counts_def)
qed simp


definition sample_job :: PieceVerificationJob where
  "sample_job = \<lparr>job_piece_number = 1, job_piece_length = 2, job_piece_offset = 2,
     job_expected_v1_hash = Some [7], job_expected_v2_root = None, job_storage = False,
     job_direct_buffer = Some [3, 4, 5], job_block_sources = [Some ''p'']\<rparr>"


subsection \<open>The workers empty the queue\<close>

inductive worker_step ::
  "(bytes \<Rightarrow> bytes) \<Rightarrow> (bytes \<Rightarrow> bytes) \<Rightarrow> 's BlockStorage \<Rightarrow> HashVerificationPool \<times> 's \<Rightarrow> HashVerificationPool \<times> 's \<Rightarrow> bool"
  for sha1 H st where
  "worker_take P = Some P' \<Longrightarrow> worker_step sha1 H st (P, s) (P', s)"
| "i < length (vp_running P) \<Longrightarrow> execute_verification_job sha1 H st (fst (vp_running P ! i)) s = (r, s') \<Longrightarrow>
    worker_step sha1 H st (P, s) (worker_finish i r P, s')"

inductive_cases worker_stepE: "worker_step sha1 H st (P, s) (P', s')"

definition work_left :: "HashVerificationPool \<Rightarrow> nat" where
  "work_left P = 2 * length (vp_queue P) + length (vp_running P)"

lemma worker_step_less: "worker_step sha1 H st (P, s) (P', s') \<Longrightarrow> work_left P = Suc (work_left P')"
  by (erule worker_stepE) (auto simp: work_left_def worker_take_def worker_finish_def split: list.splits if_splits)

lemma worker_step_possible:
  assumes "0 < vp_worker_count P" and "0 < work_left P"
  shows "\<exists>Q. worker_step sha1 H st (P, s) Q"
proof (cases "vp_running P")
  case Nil
  then obtain P' where "worker_take P = Some P'"
    using assms by (cases "vp_queue P") (auto simp: work_left_def worker_take_def)
  then show ?thesis by (blast intro: worker_step.intros)
next
  case (Cons j js)
  then have "0 < length (vp_running P)" by simp
  then show ?thesis by (metis surj_pair worker_step.intros(2))
qed

lemma worker_step_count: "worker_step sha1 H st (P, s) (P', s') \<Longrightarrow> vp_worker_count P' = vp_worker_count P"
  by (erule worker_stepE) (auto simp: worker_take_def worker_finish_def split: list.splits if_splits)

lemma work_left_zero: "work_left P = 0 \<longleftrightarrow> vp_queue P = [] \<and> vp_running P = []"
  by (simp add: work_left_def)

lemma worker_steps:
  assumes "(worker_step sha1 H st ^^ k) (P, s) (P', s')"
  shows "work_left P = k + work_left P'" "vp_worker_count P' = vp_worker_count P"
proof -
  have "work_left P = k + work_left P' \<and> vp_worker_count P' = vp_worker_count P"
    using assms
  proof (induction k arbitrary: P' s')
    case (Suc k)
    then obtain P1 s1 where "(worker_step sha1 H st ^^ k) (P, s) (P1, s1)" "worker_step sha1 H st (P1, s1) (P', s')" by auto
    then show ?case
      using Suc.IH [of P1 s1] worker_step_less [of sha1 H st P1 s1 P' s'] worker_step_count [of sha1 H st P1 s1 P' s'] by simp
  qed simp
  then show "work_left P = k + work_left P'" "vp_worker_count P' = vp_worker_count P" by simp_all
qed

lemma worker_steps_exist:
  assumes "0 < vp_worker_count P" and "k \<le> work_left P"
  shows "\<exists>P' s'. (worker_step sha1 H st ^^ k) (P, s) (P', s')"
  using assms(2)
proof (induction k)
  case (Suc k)
  then obtain P1 s1 where r: "(worker_step sha1 H st ^^ k) (P, s) (P1, s1)" by auto
  with Suc.prems worker_steps [OF r] have "0 < work_left P1" "0 < vp_worker_count P1" using assms(1) by simp_all
  then obtain P2 s2 where "worker_step sha1 H st (P1, s1) (P2, s2)" using worker_step_possible by (metis surj_pair)
  then show ?case using r by auto
qed auto



section \<open>A recheck finds the pieces that are there\<close>

fun received :: "RecvEvent list \<Rightarrow> PieceVerificationResult list" where
  "received [] = []"
| "received (Received r # es) = r # received es"
| "received (TimedOut finished rest # es) = received es"

lemma collect_received:
  assumes "length (received es) = n - c" and "c \<le> n" and "\<And>b rest. TimedOut b rest \<in> set es \<Longrightarrow> \<not> b"
  shows "recheck_collect n es c bf = Some (fold set_valid (received es) bf)"
  using assms
proof (induction n es c bf rule: recheck_collect.induct)
  case (1 n es c bf)
  show ?case
  proof (cases "n \<le> c")
    case True
    then show ?thesis using "1.prems" by (subst recheck_collect.simps) simp
  next
    case False
    then obtain e es' where es: "es = e # es'" using "1.prems"(1) by (cases es) auto
    show ?thesis
    proof (cases e)
      case (Received r)
      have "length (received es') = n - (c + 1)" "c + 1 \<le> n" using "1.prems"(1) False by (simp_all add: es Received)
      moreover have "\<not> b" if "TimedOut b rest \<in> set es'" for b rest using "1.prems"(3) that by (auto simp: es)
      ultimately have "recheck_collect n es' (c + 1) (set_valid r bf) = Some (fold set_valid (received es') (set_valid r bf))"
        using "1.IH"(1) [OF False es Received] by blast
      then show ?thesis using False by (subst recheck_collect.simps) (simp add: es Received)
    next
      case (TimedOut b rest)
      have b: "\<not> b" using "1.prems"(3) [of b rest] by (simp add: es TimedOut)
      have "length (received es') = n - c" using "1.prems"(1) by (simp add: es TimedOut)
      moreover have "\<not> b" if "TimedOut b rest \<in> set es'" for b rest using "1.prems"(3) that by (auto simp: es)
      ultimately have "recheck_collect n es' c bf = Some (fold set_valid (received es') bf)"
        using "1.IH"(2) [OF False es TimedOut b] "1.prems"(2) by blast
      then show ?thesis using False b by (subst recheck_collect.simps) (simp add: es TimedOut)
    qed
  qed
qed

lemma fold_set_valid:
  "length (fold set_valid rs bf) = length bf"
  "bf_get (fold set_valid rs bf) p \<longleftrightarrow>
    bf_get bf p \<or> bf_range bf p \<and> (\<exists>r\<in>set rs. res_is_valid r \<and> res_piece_number r = p)"
proof -
  have len: "length (set_valid r bf) = length bf" for r bf by (simp add: set_valid_def)
  then show "length (fold set_valid rs bf) = length bf" by (induction rs arbitrary: bf) simp_all
  have get: "bf_get (set_valid r bf) p \<longleftrightarrow> bf_get bf p \<or> bf_range bf p \<and> res_is_valid r \<and> res_piece_number r = p" for r bf
    by (auto simp: set_valid_def bf_get_put)
  have range: "bf_range (set_valid r bf) p = bf_range bf p" for r bf by (simp add: bf_range_def len)
  show "bf_get (fold set_valid rs bf) p \<longleftrightarrow>
      bf_get bf p \<or> bf_range bf p \<and> (\<exists>r\<in>set rs. res_is_valid r \<and> res_piece_number r = p)"
    by (induction rs arbitrary: bf) (auto simp: get range)
qed

lemma bf_get_replicate_zero [simp]: "\<not> bf_get (replicate n 0) p"
  by (cases "bf_range (replicate n (0 :: u8)) p") (simp_all add: bf_get_bit bf_range_def bf_get_def)

text \<open>The bytes of one piece of a torrent of \<open>total_bytes\<close> bytes.\<close>

definition piece_bytes :: "bytes \<Rightarrow> nat \<Rightarrow> nat \<Rightarrow> nat \<Rightarrow> bytes" where
  "piece_bytes data piece_length total_bytes i = bslice data (i * piece_length) (min ((i + 1) * piece_length) total_bytes)"

lemma recheck_piece_len_exact:
  assumes "0 < n" and "0 < piece_length" and "unat p < unat n"
    and "(unat n - 1) * unat piece_length < total_bytes" and "total_bytes \<le> unat n * unat piece_length"
  shows "unat p * unat piece_length + unat (recheck_piece_len n piece_length total_bytes p) =
    min ((unat p + 1) * unat piece_length) total_bytes"
proof (cases "p = n - 1")
  case True
  let ?l = "unat piece_length"
  have l: "0 < ?l" using assms(2) by (simp add: word_less_nat_alt)
  have p: "unat p = unat n - 1" using True assms(1) by (simp add: unat_minus_one word_gt_0)
  obtain m where m: "unat n = Suc m" using assms(1) by (metis gr0_implies_Suc unat_gt_0 word_gt_0)
  define r where "r = total_bytes - m * ?l"
  have r: "0 < r" "r \<le> ?l" "total_bytes = m * ?l + r" using assms(4,5) by (auto simp: m r_def)
  have "total_bytes mod ?l = (if r = ?l then 0 else r)" using r l by (simp add: r(3) mod_less)
  moreover have "unat (of_nat r :: u32) = r"
  proof -
    have "unat piece_length < 2 ^ LENGTH(32)" by (rule unsigned_less)
    then show ?thesis using r(2) by (simp add: unat_of_nat take_bit_nat_eq_self)
  qed
  ultimately have "unat (recheck_piece_len n piece_length total_bytes p) = r"
    using True r(1) by (auto simp: recheck_piece_len_def Let_def unat_eq_zero simp flip: unat_eq_zero)
  then show ?thesis using r by (simp add: p m)
next
  case False
  have "unat p \<noteq> unat n - 1" using False assms(1) by (metis unat_minus_one word_gt_0 word_unat_eq_iff)
  then have "unat p + 1 \<le> unat n - 1" using assms(3) by simp
  then have "(unat p + 1) * unat piece_length \<le> (unat n - 1) * unat piece_length" by (rule mult_right_mono) simp
  then show ?thesis using False assms(4) by (simp add: recheck_piece_len_def)
qed

text \<open>
  C11 (\<open>recheck_pieces_blocking\<close>). When the results that a recheck receives are those of its own jobs, in
  any order and with any number of timeouts in between, it ends and its bitfield has exactly the
  pieces whose bytes on storage, the short last piece included, have the expected hash.
\<close>

theorem recheck_exact:
  fixes s :: DiskBlockStorage
  assumes "dbs_good s" and "0 < n" and "0 < piece_length" and "unat n * 20 \<le> length hashes"
    and "(unat n - 1) * unat piece_length < total_bytes" and "total_bytes \<le> unat n * unat piece_length"
    and "total_bytes \<le> length (dbs_content s)"
    and es: "mset (received es) = mset (map (\<lambda>i. fst (execute_verification_job sha1 H disk_block_storage
      (recheck_job n piece_length total_bytes hashes (of_nat i)) s)) [0..<unat n])"
    and "\<And>b rest. TimedOut b rest \<in> set es \<Longrightarrow> \<not> b"
  shows "\<exists>bf. recheck_pieces_blocking n es = Some bf \<and> (\<forall>p. bf_get bf p \<longleftrightarrow> unat p < unat n
    \<and> sha1 (piece_bytes (dbs_content s) (unat piece_length) total_bytes (unat p)) = bslice hashes (unat p * 20) (unat p * 20 + 20))"
proof -
  let ?job = "recheck_job n piece_length total_bytes hashes"
  let ?res = "\<lambda>p. fst (execute_verification_job sha1 H disk_block_storage (?job p) s)"
  have res: "res_piece_number (?res p) = p"
    "res_is_valid (?res p) \<longleftrightarrow> sha1 (piece_bytes (dbs_content s) (unat piece_length) total_bytes (unat p)) =
      bslice hashes (unat p * 20) (unat p * 20 + 20)" if "unat p < unat n" for p
  proof -
    note len = recheck_piece_len_exact [OF assms(2,3) that assms(5,6)]
    have "unat p * 20 + 20 \<le> length hashes" using assms(4) that by simp
    then have job: "job_expected_v1_hash (?job p) = Some (bslice hashes (unat p * 20) (unat p * 20 + 20))"
      "job_expected_v2_root (?job p) = None" "job_direct_buffer (?job p) = None" "job_storage (?job p)"
      "job_piece_number (?job p) = p" "job_piece_offset (?job p) = unat p * unat piece_length"
      "job_piece_length (?job p) = recheck_piece_len n piece_length total_bytes p"
      by (simp_all add: recheck_job_def Let_def)
    have "job_piece_offset (?job p) + unat (job_piece_length (?job p)) \<le> length (dbs_content s)"
      using assms(7) unfolding job len by simp
    from disk.storage_job_exact [OF assms(1) this job(3,4,1,2), of sha1 H]
    obtain s' where "execute_verification_job sha1 H disk_block_storage (?job p) s = (job_result (?job p)
        (sha1 (piece_bytes (dbs_content s) (unat piece_length) total_bytes (unat p)) = bslice hashes (unat p * 20) (unat p * 20 + 20))
        (Some (sha1 (piece_bytes (dbs_content s) (unat piece_length) total_bytes (unat p)))) None None, s')"
      unfolding job len piece_bytes_def by auto
    then show "res_piece_number (?res p) = p" "res_is_valid (?res p) \<longleftrightarrow>
        sha1 (piece_bytes (dbs_content s) (unat piece_length) total_bytes (unat p)) = bslice hashes (unat p * 20) (unat p * 20 + 20)"
      by (simp_all add: job_result_def job)
  qed
  have small: "unat (of_nat i :: u32) = i" if "i < unat n" for i
  proof -
    have "unat n < 2 ^ LENGTH(32)" by (rule unsigned_less)
    then show ?thesis using that by (simp add: unat_of_nat take_bit_nat_eq_self)
  qed
  have set: "set (received es) = ?res ` {p. unat p < unat n}"
  proof -
    have "set (received es) = (\<lambda>i. ?res (of_nat i)) ` {0..<unat n}" using mset_eq_setD [OF es] by simp
    also have "\<dots> = ?res ` (of_nat ` {0..<unat n})" by (simp add: image_image)
    also have "of_nat ` {0..<unat n} = {p :: u32. unat p < unat n}"
    proof -
      have "p \<in> of_nat ` {0..<unat n}" if "unat p < unat n" for p :: u32
        using that by (intro image_eqI [of _ _ "unat p"]) simp_all
      then show ?thesis using small by auto
    qed
    finally show ?thesis .
  qed
  have "length (received es) = unat n" using mset_eq_length [OF es] by simp
  then have "recheck_pieces_blocking n es = Some (fold set_valid (received es) (replicate ((unat n + 7) div 8) 0))"
    unfolding recheck_pieces_blocking_def using assms(9) by (intro collect_received) auto
  moreover have "bf_range (replicate ((unat n + 7) div 8) (0 :: u8)) p" if "unat p < unat n" for p
    using that by (simp add: bf_range_def)
  ultimately show ?thesis using res by (auto simp: fold_set_valid set)
qed

theorem recheck_exact_witness:
  "\<exists>bf. recheck_pieces_blocking 2
      [Received (fst (execute_verification_job (\<lambda>_. replicate 20 0) id disk_block_storage (recheck_job 2 3 5 (replicate 40 0) 1) sample_storage)),
       TimedOut False [],
       Received (fst (execute_verification_job (\<lambda>_. replicate 20 0) id disk_block_storage (recheck_job 2 3 5 (replicate 40 0) 0) sample_storage))]
    = Some bf \<and> bf_get bf 0 \<and> bf_get bf 1 \<and> \<not> bf_get bf 2"
proof -
  let ?res = "\<lambda>p. fst (execute_verification_job (\<lambda>_. replicate 20 0) id disk_block_storage (recheck_job 2 3 5 (replicate 40 0) p) sample_storage)"
  let ?es = "[Received (?res 1), TimedOut False [], Received (?res 0)]"
  have upt: "[0..<unat (2 :: u32)] = [0, 1]" by (simp add: upt_rec)
  have "\<exists>bf. recheck_pieces_blocking 2 ?es = Some bf \<and> (\<forall>p. bf_get bf p \<longleftrightarrow> unat p < unat (2 :: u32)
      \<and> replicate 20 0 = bslice (replicate 40 (0 :: u8)) (unat p * 20) (unat p * 20 + 20))"
    using recheck_exact [of sample_storage 2 3 "replicate 40 0" 5 ?es "\<lambda>_. replicate 20 0" id, unfolded upt]
    by (simp add: sample_storage_good add_mset_commute)
  then obtain bf where "recheck_pieces_blocking 2 ?es = Some bf"
    and bf: "\<And>p. bf_get bf p \<longleftrightarrow> unat p < 2 \<and> replicate 20 0 = bslice (replicate 40 (0 :: u8)) (unat p * 20) (unat p * 20 + 20)"
    by auto
  moreover have "bslice (replicate 40 (0 :: u8)) (i * 20) (i * 20 + 20) = replicate 20 0" if "i < 2" for i
    using that by (simp add: bslice_def)
  then have "bf_get bf p \<longleftrightarrow> unat p < 2" for p unfolding bf by auto
  ultimately show ?thesis by (intro exI [of _ bf]) simp
qed

text \<open>
  Results of other jobs on the same pool are counted too: a recheck of one valid piece that first
  receives a foreign result ends with an empty bitfield.
\<close>

lemma recheck_counts_foreign_results:
  assumes "\<not> res_is_valid foreign"
  shows "recheck_pieces_blocking 1 [Received foreign, Received own] = Some [0]"
  using assms by (simp add: recheck_pieces_blocking_def recheck_collect.simps set_valid_def)

end
