(* ===== verification/Piece_Processing.thy ===== *)
theory Piece_Processing
  imports Torrent_Accounting Verification_Pool
begin

text \<open>
  The block pipeline of \<open>TorrentContext\<close> (\<open>library/src/core/torrent_context.rs\<close>): a block that a peer
  sent is checked, staged, written to storage and recorded; a complete piece is verified, at once
  or by the worker pool, and then accepted or rejected. The storage is a parameter with the
  contract of \<^theory_text>\<open>Block_Storage\<close>. A panic is \<open>None\<close>. Sending \<open>Have\<close> skips peers whose lock is taken; the
  model sends it to all.
\<close>

section \<open>Block hashes of BitTorrent v2\<close>

definition debug_bytes :: "bytes \<Rightarrow> string" where
  "debug_bytes bs = ''['' @ concat (map (\<lambda>i. (if i = 0 then [] else '', '') @ string_of_nat (unat (bs ! i))) [0..<length bs]) @ '']''"

text \<open>The cached leaf hash of a block: the first entry of the file's base layer that covers it.\<close>

definition verified_leaf ::
  "((bytes \<times> u32 \<times> u32) \<times> bytes list) list \<Rightarrow> bytes \<Rightarrow> nat \<Rightarrow> bytes option" where
  "verified_leaf cache expected_root file_block_idx =
    map_option (\<lambda>((_, _, chunk_index), hashes). hashes ! (file_block_idx - unat chunk_index))
      (find (\<lambda>((root, base_layer, chunk_index), hashes). root = expected_root \<and> base_layer = 0
         \<and> unat chunk_index \<le> file_block_idx \<and> file_block_idx < unat chunk_index + length hashes) cache)"

definition verify_v2_block ::
  "(bytes \<Rightarrow> bytes) \<Rightarrow> TorrentContext \<Rightarrow> u32 \<Rightarrow> u32 \<Rightarrow> bytes \<Rightarrow> unit result" where
  "verify_v2_block H tc piece_number bi block_data =
    (let global_offset = unat piece_number * unat (ctx_piece_length tc) + unat bi * BLOCK_SIZE in
     case find (\<lambda>(_, f). fd_offset f \<le> global_offset \<and> global_offset < fd_offset f + fd_length f)
            (zip [0..<length (ctx_files_to_download tc)] (ctx_files_to_download tc)) of
       None \<Rightarrow> Inr ()
     | Some (file_idx, file_details) \<Rightarrow>
         let file_block_idx = (global_offset - fd_offset file_details) div BLOCK_SIZE in
         case ctx_file_merkle_trees tc file_idx of
           Some tree \<Rightarrow>
             if verify_block H tree file_block_idx block_data then Inr ()
             else Inl (Parse (''BEP 52 Merkle block hash mismatch for file '' @ string_of_nat file_idx
                    @ '' at block '' @ string_of_nat file_block_idx))
         | None \<Rightarrow>
             case (ctx_file_merkle_proofs tc (file_idx, file_block_idx), fd_pieces_root file_details) of
               (Some prf, Some expected_root) \<Rightarrow>
                 if proof_verify H prf block_data expected_root then Inr ()
                 else Inl (Parse (''BEP 52 Merkle audit path proof mismatch for file '' @ string_of_nat file_idx
                        @ '' at block '' @ string_of_nat file_block_idx))
             | (_, None) \<Rightarrow> Inr ()
             | (None, Some expected_root) \<Rightarrow>
                 if fd_length file_details \<le> BLOCK_SIZE
                 then if H block_data = expected_root then Inr ()
                      else Inl (Parse (''BEP 52 block hash mismatch for file '' @ fd_name file_details @ '': expected ''
                             @ debug_bytes expected_root @ '', got '' @ debug_bytes (H block_data)))
                 else case verified_leaf (ctx_verified_v2_hashes tc) expected_root file_block_idx of
                        None \<Rightarrow> Inr ()
                      | Some expected_leaf \<Rightarrow>
                          if H block_data = expected_leaf then Inr ()
                          else Inl (Parse (''BEP 52 Merkle verified leaf mismatch for file '' @ string_of_nat file_idx
                                 @ '' at block '' @ string_of_nat file_block_idx)))"

definition register_file_merkle_tree :: "nat \<Rightarrow> MerkleTree \<Rightarrow> TorrentContext \<Rightarrow> TorrentContext" where
  "register_file_merkle_tree file_index tree tc =
    tc\<lparr>ctx_file_merkle_trees := (ctx_file_merkle_trees tc)(file_index \<mapsto> tree)\<rparr>"

definition register_merkle_proof :: "nat \<Rightarrow> MerkleProof \<Rightarrow> TorrentContext \<Rightarrow> TorrentContext" where
  "register_merkle_proof file_index prf tc =
    tc\<lparr>ctx_file_merkle_proofs := (ctx_file_merkle_proofs tc)((file_index, block_index prf) \<mapsto> prf)\<rparr>"

section \<open>Receiving a block\<close>

text \<open>The guards that a block passes before anything else happens.\<close>

definition block_checks :: "TorrentContext \<Rightarrow> u32 \<Rightarrow> u32 \<Rightarrow> bytes \<Rightarrow> unit result" where
  "block_checks tc piece_number begin_off block_data =
    (let block_len = unat (of_nat (length block_data) :: u32) in
     if of_nat (ctx_number_of_pieces tc) \<le> piece_number then Inl (Protocol ''Invalid piece index'')
     else if begin_off mod of_nat BLOCK_SIZE \<noteq> 0 then Inl (Protocol ''Block offset not aligned'')
     else if 2 ^ 32 \<le> unat begin_off + block_len
          \<or> unat (tc_get_piece_length tc piece_number) < unat begin_off + block_len
     then Inl (Protocol ''Block out of piece bounds'')
     else Inr ())"

definition stage_arrival :: "u32 \<Rightarrow> u32 \<Rightarrow> string \<Rightarrow> TorrentContext \<Rightarrow> bool \<times> TorrentContext" where
  "stage_arrival piece_number bi ip tc =
    (if cfg_enable_adaptive_endgame (ctx_config tc)
     then case on_block_arrived piece_number bi ip (ctx_endgame_staging tc) of
            (AbsorbDuplicate _, es) \<Rightarrow> (True, tc\<lparr>ctx_endgame_staging := es\<rparr>)
          | (CommitAndCancelOthers _, es) \<Rightarrow> (False, tc\<lparr>ctx_endgame_staging := es\<rparr>)
     else (False, tc))"

definition put_buffer :: "u32 \<Rightarrow> PieceBuffer option \<Rightarrow> TorrentContext \<Rightarrow> TorrentContext" where
  "put_buffer piece_number pb tc = tc\<lparr>ctx_assembler := (ctx_assembler tc)\<lparr>piece_buffers :=
     (piece_buffers (ctx_assembler tc))(piece_number := pb)\<rparr>\<rparr>"

definition piece_buffer_of :: "u32 \<Rightarrow> TorrentContext \<Rightarrow> PieceBuffer" where
  "piece_buffer_of piece_number tc = (case piece_buffers (ctx_assembler tc) piece_number of
     Some pb \<Rightarrow> pb | None \<Rightarrow> pb_new piece_number (tc_get_piece_length tc piece_number))"

text \<open>
  Recording a block in the piece's buffer, which is created on the first block: a new block is
  checked and written first. The buffer stays in the map when the check or the write fails.
\<close>

definition store_block ::
  "(TorrentContext \<Rightarrow> unit result) \<Rightarrow> 's BlockStorage \<Rightarrow> u32 \<Rightarrow> u32 \<Rightarrow> bytes \<Rightarrow> string \<Rightarrow> TorrentContext \<Rightarrow> 's \<Rightarrow>
    (PieceBuffer result \<times> TorrentContext \<times> 's) option" where
  "store_block check st piece_number bi block_data ip tc s =
    (let pb = piece_buffer_of piece_number tc;
         tc = put_buffer piece_number (Some pb) tc
     in if pb_is_block_present pb bi then Some (Inr pb, tc, s)
        else case check tc of
          Inl e \<Rightarrow> Some (Inl e, tc, s)
        | Inr _ \<Rightarrow>
            (case st_write st s (unat piece_number * unat (ctx_piece_length tc) + unat bi * BLOCK_SIZE) block_data of
               (Inl e, s') \<Rightarrow> Some (Inl e, tc, s')
             | (Inr _, s') \<Rightarrow>
                 map_option (\<lambda>pb'. (Inr pb', put_buffer piece_number (Some pb') tc, s')) (pb_add_block pb bi ip)))"

section \<open>Accepting and rejecting a piece\<close>

definition accept_piece :: "'s BlockStorage \<Rightarrow> u32 \<Rightarrow> u32 \<Rightarrow> TorrentContext \<Rightarrow> 's \<Rightarrow> TorrentContext \<times> 's" where
  "accept_piece st piece_number piece_length tc s =
    (let s = snd (st_flush st s);
         tc = tc_update_bitfield_status tc piece_number True piece_length;
         tc = broadcast_have piece_number tc;
         tc = try_complete_download tc
     in (tc_clear_piece_requests piece_number tc, s))"

definition reject_piece ::
  "'s BlockStorage \<Rightarrow> u32 \<Rightarrow> u32 \<Rightarrow> string option list \<Rightarrow> TorrentContext \<Rightarrow> 's \<Rightarrow> TorrentContext \<times> 's" where
  "reject_piece st piece_number piece_length block_sources tc s =
    (let tc = tc_clear_piece_requests piece_number tc;
         s = st_discard st s (unat piece_number * unat (ctx_piece_length tc)) (unat piece_length);
         tc = fold (\<lambda>src tc. case src of Some source_ip \<Rightarrow> report_bad_peer source_ip tc | None \<Rightarrow> tc) block_sources tc
     in (tc_mark_piece_missing tc piece_number True, s))"

section \<open>The pipeline\<close>

record 's Pipeline =
  pl_tc :: TorrentContext
  pl_pool :: HashVerificationPool
  pl_storage :: 's

definition verification_job :: "TorrentContext \<Rightarrow> u32 \<Rightarrow> u32 \<Rightarrow> string option list \<Rightarrow> PieceVerificationJob" where
  "verification_job tc piece_number piece_length block_sources =
    \<lparr>job_piece_number = piece_number, job_piece_length = piece_length,
     job_piece_offset = unat piece_number * unat (ctx_piece_length tc),
     job_expected_v1_hash = (let start = unat piece_number * 20 in
       if start + 20 \<le> length (ctx_pieces_info_hash tc) then Some (bslice (ctx_pieces_info_hash tc) start (start + 20))
       else None),
     job_expected_v2_root = None, job_storage = True, job_direct_buffer = None, job_block_sources = block_sources\<rparr>"

definition verify_now ::
  "(bytes \<Rightarrow> bytes) \<Rightarrow> 's BlockStorage \<Rightarrow> u32 \<Rightarrow> u32 \<Rightarrow> string option list \<Rightarrow> 's Pipeline \<Rightarrow> (bool result \<times> 's Pipeline) option" where
  "verify_now sha1 st piece_number piece_length block_sources pl =
    (case check_piece_hash_streaming sha1 st (pl_tc pl) piece_number piece_length (pl_storage pl) of
       (None, _) \<Rightarrow> None
     | (Some True, s) \<Rightarrow>
         let (tc, s) = accept_piece st piece_number piece_length (pl_tc pl) s
         in Some (Inr True, pl\<lparr>pl_tc := tc, pl_storage := s\<rparr>)
     | (Some False, s) \<Rightarrow>
         let (tc, s) = reject_piece st piece_number piece_length block_sources (pl_tc pl) s
         in Some (Inl (Protocol ''Piece failed hash verification''), pl\<lparr>pl_tc := tc, pl_storage := s\<rparr>))"

definition piece_complete ::
  "(bytes \<Rightarrow> bytes) \<Rightarrow> 's BlockStorage \<Rightarrow> u32 \<Rightarrow> u32 \<Rightarrow> string option list \<Rightarrow> 's Pipeline \<Rightarrow> (bool result \<times> 's Pipeline) option" where
  "piece_complete sha1 st piece_number piece_length block_sources pl =
    (let tc = pl_tc pl;
         tc = (if cfg_enable_adaptive_endgame (ctx_config tc)
               then tc\<lparr>ctx_endgame_staging := es_clear_piece piece_number (ctx_endgame_staging tc)\<rparr> else tc)
     in if cfg_enable_async_verification (ctx_config tc)
        then let tc1 = mark_piece_verifying piece_number True tc in
          (case vp_submit (verification_job tc piece_number piece_length block_sources) (pl_pool pl) of
             (Inr _, pool) \<Rightarrow> Some (Inr True, pl\<lparr>pl_tc := tc1, pl_pool := pool\<rparr>)
           | (Inl _, pool) \<Rightarrow> verify_now sha1 st piece_number piece_length block_sources
               (pl\<lparr>pl_tc := mark_piece_verifying piece_number False tc1, pl_pool := pool\<rparr>))
        else verify_now sha1 st piece_number piece_length block_sources (pl\<lparr>pl_tc := tc\<rparr>))"

definition process_piece_block ::
  "(bytes \<Rightarrow> bytes) \<Rightarrow> (bytes \<Rightarrow> bytes) \<Rightarrow> 's BlockStorage \<Rightarrow> u32 \<Rightarrow> u32 \<Rightarrow> bytes \<Rightarrow> string \<Rightarrow> 's Pipeline \<Rightarrow>
    (bool result \<times> 's Pipeline) option" where
  "process_piece_block sha1 H st piece_number begin_off block_data ip pl =
    (let tc = pl_tc pl in
     case block_checks tc piece_number begin_off block_data of
       Inl e \<Rightarrow> Some (Inl e, pl)
     | Inr _ \<Rightarrow>
         if tc_is_piece_local tc piece_number then Some (Inr False, pl)
         else
           let piece_length = tc_get_piece_length tc piece_number;
               bi = begin_off div of_nat BLOCK_SIZE;
               (absorbed, tc) = stage_arrival piece_number bi ip tc
           in if absorbed then Some (Inr False, pl\<lparr>pl_tc := tc\<rparr>)
              else case store_block (\<lambda>tc. verify_v2_block H tc piece_number bi block_data) st piece_number bi block_data
                     ip tc (pl_storage pl) of
                     None \<Rightarrow> None
                   | Some (Inl e, tc, s) \<Rightarrow> Some (Inl e, pl\<lparr>pl_tc := tc, pl_storage := s\<rparr>)
                   | Some (Inr pb, tc, s) \<Rightarrow>
                       if pb_all_blocks_there pb
                       then piece_complete sha1 st piece_number piece_length (pb_block_sources pb)
                              (pl\<lparr>pl_tc := put_buffer piece_number None tc, pl_storage := s\<rparr>)
                       else Some (Inr False, pl\<lparr>pl_tc := tc, pl_storage := s\<rparr>))"

text \<open>The variant for tests that takes the data on trust.\<close>

definition process_verified_block ::
  "'s BlockStorage \<Rightarrow> u32 \<Rightarrow> u32 \<Rightarrow> bytes \<Rightarrow> string \<Rightarrow> 's Pipeline \<Rightarrow> (bool result \<times> 's Pipeline) option" where
  "process_verified_block st piece_number begin_off block_data ip pl =
    (let tc = pl_tc pl in
     case block_checks tc piece_number begin_off block_data of
       Inl e \<Rightarrow> Some (Inl e, pl)
     | Inr _ \<Rightarrow>
         if tc_is_piece_local tc piece_number then Some (Inr False, pl)
         else
           let piece_length = tc_get_piece_length tc piece_number;
               bi = begin_off div of_nat BLOCK_SIZE
           in case store_block (\<lambda>_. Inr ()) st piece_number bi block_data ip tc (pl_storage pl) of
                None \<Rightarrow> None
              | Some (Inl e, tc, s) \<Rightarrow> Some (Inl e, pl\<lparr>pl_tc := tc, pl_storage := s\<rparr>)
              | Some (Inr pb, tc, s) \<Rightarrow>
                  if pb_all_blocks_there pb
                  then let (tc, s) = accept_piece st piece_number piece_length (put_buffer piece_number None tc) s
                       in Some (Inr True, pl\<lparr>pl_tc := tc, pl_storage := s\<rparr>)
                  else Some (Inr False, pl\<lparr>pl_tc := tc, pl_storage := s\<rparr>))"

definition apply_piece_verification_result ::
  "'s BlockStorage \<Rightarrow> PieceVerificationResult \<Rightarrow> TorrentContext \<Rightarrow> 's \<Rightarrow> bool \<times> TorrentContext \<times> 's" where
  "apply_piece_verification_result st r tc s =
    (let tc = mark_piece_verifying (res_piece_number r) False tc in
     if res_is_valid r then (True, accept_piece st (res_piece_number r) (res_piece_length r) tc s)
     else (False, reject_piece st (res_piece_number r) (res_piece_length r) (res_block_sources r) tc s))"

definition drain_verification_results :: "'s BlockStorage \<Rightarrow> 's Pipeline \<Rightarrow> nat \<times> 's Pipeline" where
  "drain_verification_results st pl =
    (let (results, pool) = poll_results (pl_pool pl);
         (tc, s) = fold (\<lambda>r (tc, s). snd (apply_piece_verification_result st r tc s)) results (pl_tc pl, pl_storage pl)
     in (length results, pl\<lparr>pl_tc := tc, pl_pool := pool, pl_storage := s\<rparr>))"

definition recheck_all_pieces :: "'s Pipeline \<Rightarrow> nat result \<times> 's Pipeline" where
  "recheck_all_pieces pl =
    (let tc = pl_tc pl;
         (r, pool) = recheck_pieces_parallel (of_nat (ctx_number_of_pieces tc)) (ctx_piece_length tc)
           (unat (ctx_total_bytes_to_download tc)) (ctx_pieces_info_hash tc) (pl_pool pl)
     in (r, pl\<lparr>pl_pool := pool\<rparr>))"

end
