(* ===== verification/Disk_Cache.thy ===== *)
theory Disk_Cache
  imports Block_Storage Ordered_Map
begin

text \<open>
  The write-back cache in front of a block storage, \<open>CachedBlockStorage\<close>
  (\<open>library/src/storage/disk_cache.rs\<close>). The inner storage is a parameter with the contract of
  \<^theory_text>\<open>Block_Storage\<close>; the ordered map of cached blocks is a list of entries with
  ascending offsets, and \<open>Instant::now()\<close> is an argument. The buffer pool only recycles
  allocations and is modelled on its own in \<^theory_text>\<open>Piece_Buffer\<close>.
\<close>

section \<open>State\<close>

record CacheBlock =
  cb_data :: bytes
  cb_dirty :: bool
  cb_last_accessed :: nat

record 's CachedBlockStorage =
  cs_inner :: 's
  max_cache_bytes :: nat
  cs_blocks :: "(nat \<times> CacheBlock) list"
  current_cached_bytes :: nat
  current_dirty_bytes :: nat
  cache_hits :: nat
  cache_misses :: nat
  flushes_performed :: nat
  bytes_written_to_cache :: nat
  bytes_flushed_to_storage :: nat
  coalesced_write_operations :: nat

definition cache_new :: "'s \<Rightarrow> nat \<Rightarrow> 's CachedBlockStorage" where
  "cache_new inner mx = \<lparr>cs_inner = inner, max_cache_bytes = mx, cs_blocks = [],
     current_cached_bytes = 0, current_dirty_bytes = 0, cache_hits = 0, cache_misses = 0,
     flushes_performed = 0, bytes_written_to_cache = 0, bytes_flushed_to_storage = 0,
     coalesced_write_operations = 0\<rparr>"

section \<open>Flushing\<close>

definition in_range_filter :: "(nat \<times> nat) option \<Rightarrow> nat \<Rightarrow> CacheBlock \<Rightarrow> bool" where
  "in_range_filter range_filter off b = (case range_filter of
       None \<Rightarrow> True
     | Some (range_start, range_end) \<Rightarrow>
         \<not> (saturating_add U64_MAX off (length (cb_data b)) \<le> range_start \<or> off \<ge> range_end))"

definition flushable :: "(nat \<times> nat) option \<Rightarrow> nat \<times> CacheBlock \<Rightarrow> bool" where
  "flushable range_filter e = (cb_dirty (snd e) \<and> in_range_filter range_filter (fst e) (snd e))"

text \<open>One step of the coalescing loop: extend the last chunk or open a new one.\<close>

definition coalesce_step :: "(nat \<times> bytes) list \<Rightarrow> nat \<times> bytes \<Rightarrow> (nat \<times> bytes) list" where
  "coalesce_step chunks e =
    (if chunks \<noteq> [] \<and> fst e = fst (last chunks) + length (snd (last chunks))
     then butlast chunks @ [(fst (last chunks), snd (last chunks) @ snd e)]
     else chunks @ [e])"

definition coalesce :: "(nat \<times> bytes) list \<Rightarrow> (nat \<times> bytes) list" where
  "coalesce es = foldl coalesce_step [] es"

text \<open>Writing the chunks; a failure stops the loop with the chunks before it written.\<close>

fun write_chunks :: "'s BlockStorage \<Rightarrow> (nat \<times> bytes) list \<Rightarrow> 's CachedBlockStorage \<Rightarrow>
    unit result \<times> 's CachedBlockStorage" where
  "write_chunks st [] c = (Inr (), c)"
| "write_chunks st ((off, d) # chunks) c =
    (case st_write st (cs_inner c) off d of
       (Inl e, inner) \<Rightarrow> (Inl e, c\<lparr>cs_inner := inner\<rparr>)
     | (Inr _, inner) \<Rightarrow> write_chunks st chunks
         (c\<lparr>cs_inner := inner,
            coalesced_write_operations := coalesced_write_operations c + 1,
            bytes_flushed_to_storage := bytes_flushed_to_storage c + length d\<rparr>))"

definition mark_clean :: "(nat \<times> nat) option \<Rightarrow> (nat \<times> CacheBlock) list \<Rightarrow> (nat \<times> CacheBlock) list" where
  "mark_clean range_filter bs =
    map (\<lambda>e. if flushable range_filter e then (fst e, (snd e)\<lparr>cb_dirty := False\<rparr>) else e) bs"

definition flush_internal :: "'s BlockStorage \<Rightarrow> (nat \<times> nat) option \<Rightarrow> 's CachedBlockStorage \<Rightarrow>
    unit result \<times> 's CachedBlockStorage" where
  "flush_internal st range_filter c =
    (let sel = filter (flushable range_filter) (cs_blocks c);
         chunks = coalesce (map (\<lambda>e. (fst e, cb_data (snd e))) sel)
     in if chunks = [] then (Inr (), c)
        else case write_chunks st chunks c of
          (Inl e, c') \<Rightarrow> (Inl e, c')
        | (Inr _, c') \<Rightarrow> (Inr (), c'\<lparr>
            cs_blocks := mark_clean range_filter (cs_blocks c'),
            current_dirty_bytes := current_dirty_bytes c'
              - sum_list (map (\<lambda>e. length (cb_data (snd e))) sel),
            flushes_performed := flushes_performed c' + 1\<rparr>))"

definition flush_all :: "'s BlockStorage \<Rightarrow> 's CachedBlockStorage \<Rightarrow> unit result \<times> 's CachedBlockStorage" where
  "flush_all st c = flush_internal st None c"

definition flush_range :: "'s BlockStorage \<Rightarrow> nat \<Rightarrow> nat \<Rightarrow> 's CachedBlockStorage \<Rightarrow>
    unit result \<times> 's CachedBlockStorage" where
  "flush_range st start len c = flush_internal st (Some (start, saturating_add U64_MAX start len)) c"

definition flush_piece :: "'s BlockStorage \<Rightarrow> u32 \<Rightarrow> u32 \<Rightarrow> 's CachedBlockStorage \<Rightarrow>
    unit result \<times> 's CachedBlockStorage" where
  "flush_piece st piece_number piece_length c =
    flush_range st (unat piece_number * unat piece_length) (unat piece_length) c"

section \<open>Discarding\<close>

definition discard_one :: "nat \<Rightarrow> 's CachedBlockStorage \<Rightarrow> 's CachedBlockStorage" where
  "discard_one off c = (case map_of (cs_blocks c) off of
       None \<Rightarrow> c
     | Some b \<Rightarrow> c\<lparr>cs_blocks := bt_remove off (cs_blocks c),
         current_cached_bytes := current_cached_bytes c - length (cb_data b),
         current_dirty_bytes := (if cb_dirty b then current_dirty_bytes c - length (cb_data b)
           else current_dirty_bytes c)\<rparr>)"

definition cache_discard_range :: "nat \<Rightarrow> nat \<Rightarrow> 's CachedBlockStorage \<Rightarrow> 's CachedBlockStorage" where
  "cache_discard_range start len c =
    (let en = saturating_add U64_MAX start len;
         offsets_to_remove = filter (\<lambda>off. start \<le> off \<and> off < en) (map fst (cs_blocks c))
     in foldl (\<lambda>c off. discard_one off c) c offsets_to_remove)"

definition cache_discard_piece :: "u32 \<Rightarrow> u32 \<Rightarrow> 's CachedBlockStorage \<Rightarrow> 's CachedBlockStorage" where
  "cache_discard_piece piece_number piece_length c =
    cache_discard_range (unat piece_number * unat piece_length) (unat piece_length) c"

definition cache_clear :: "'s CachedBlockStorage \<Rightarrow> 's CachedBlockStorage" where
  "cache_clear c = c\<lparr>cs_blocks := [], current_cached_bytes := 0, current_dirty_bytes := 0\<rparr>"

section \<open>Eviction\<close>

text \<open>
  The eviction loop over the least recently used blocks first. The flag tells whether it ended
  with the cache within its limit.
\<close>

fun evict_loop :: "(nat \<times> nat) list \<Rightarrow> 's CachedBlockStorage \<Rightarrow> bool \<times> 's CachedBlockStorage" where
  "evict_loop [] c = (False, c)"
| "evict_loop ((off, sz) # es) c =
    (let c' = c\<lparr>cs_blocks := bt_remove off (cs_blocks c),
                current_cached_bytes := current_cached_bytes c - sz\<rparr>
     in if current_cached_bytes c' \<le> max_cache_bytes c' then (True, c') else evict_loop es c')"

definition lru_order :: "(nat \<times> CacheBlock) list \<Rightarrow> (nat \<times> nat) list" where
  "lru_order bs = map (\<lambda>e. (fst e, length (cb_data (snd e)))) (sort_key (\<lambda>e. cb_last_accessed (snd e)) bs)"

definition evict_if_needed :: "'s BlockStorage \<Rightarrow> 's CachedBlockStorage \<Rightarrow> unit result \<times> 's CachedBlockStorage" where
  "evict_if_needed st c =
    (if current_cached_bytes c \<le> max_cache_bytes c then (Inr (), c)
     else case evict_loop (lru_order (filter (\<lambda>e. \<not> cb_dirty (snd e)) (cs_blocks c))) c of
       (True, c1) \<Rightarrow> (Inr (), c1)
     | (False, c1) \<Rightarrow>
       if current_cached_bytes c1 > max_cache_bytes c1
       then case flush_internal st None c1 of
              (Inl e, c2) \<Rightarrow> (Inl e, c2)
            | (Inr _, c2) \<Rightarrow> (Inr (), snd (evict_loop (lru_order (cs_blocks c2)) c2))
       else (Inr (), c1))"

section \<open>Writing and reading\<close>

definition cache_put :: "nat \<Rightarrow> nat \<Rightarrow> bytes \<Rightarrow> 's CachedBlockStorage \<Rightarrow> 's CachedBlockStorage" where
  "cache_put now off data c =
    (let blk = \<lparr>cb_data = data, cb_dirty = True, cb_last_accessed = now\<rparr>;
         c1 = (case map_of (cs_blocks c) off of
           Some existing \<Rightarrow> c\<lparr>cs_blocks := bt_insert off blk (cs_blocks c),
             current_cached_bytes := current_cached_bytes c - length (cb_data existing),
             current_dirty_bytes := (if cb_dirty existing
               then current_dirty_bytes c - length (cb_data existing) else current_dirty_bytes c)\<rparr>
         | None \<Rightarrow> c\<lparr>cs_blocks := bt_insert off blk (cs_blocks c)\<rparr>)
     in c1\<lparr>current_cached_bytes := current_cached_bytes c1 + length data,
           current_dirty_bytes := current_dirty_bytes c1 + length data,
           bytes_written_to_cache := bytes_written_to_cache c1 + length data\<rparr>)"

definition cache_write_block :: "'s BlockStorage \<Rightarrow> nat \<Rightarrow> 's CachedBlockStorage \<Rightarrow> nat \<Rightarrow> bytes \<Rightarrow>
    unit result \<times> 's CachedBlockStorage" where
  "cache_write_block st now c off data =
    (if data = [] then (Inr (), c)
     else case checked_add U64_MAX off (length data) of
       None \<Rightarrow> (Inl (Io OtherKind ''write offset + length overflowed u64''), c)
     | Some _ \<Rightarrow> evict_if_needed st (cache_put now off data c))"

text \<open>The overlap loop of a read over all cached blocks, in offset order.\<close>

definition overlaps :: "nat \<Rightarrow> nat \<Rightarrow> nat \<times> CacheBlock \<Rightarrow> bool" where
  "overlaps target_start target_end e \<longleftrightarrow>
    fst e < target_end \<and> fst e + length (cb_data (snd e)) > target_start"

definition overlay_step :: "nat \<Rightarrow> nat \<Rightarrow> bytes \<times> bool list \<Rightarrow> nat \<times> CacheBlock \<Rightarrow> bytes \<times> bool list" where
  "overlay_step target_start target_end acc e =
    (if overlaps target_start target_end e
     then let block_offset = fst e;
              block_end = block_offset + length (cb_data (snd e));
              overlap_start = max target_start block_offset;
              overlap_end = min target_end block_end;
              src = bslice (cb_data (snd e)) (overlap_start - block_offset) (overlap_end - block_offset);
              dst_start = overlap_start - target_start;
              dst_end = overlap_end - target_start
          in (overwrite (fst acc) dst_start src,
              overwrite (snd acc) dst_start (replicate (dst_end - dst_start) True))
     else acc)"

definition touch_overlapping :: "nat \<Rightarrow> nat \<Rightarrow> nat \<Rightarrow> (nat \<times> CacheBlock) list \<Rightarrow> (nat \<times> CacheBlock) list" where
  "touch_overlapping now target_start target_end bs =
    map (\<lambda>e. if overlaps target_start target_end e
             then (fst e, (snd e)\<lparr>cb_last_accessed := now\<rparr>) else e) bs"

text \<open>
  The gap loop: each maximal run of uncovered positions is read from the inner storage, whose
  result replaces the front of that part of the buffer.
\<close>

function fill_gaps :: "'s BlockStorage \<Rightarrow> nat \<Rightarrow> bool list \<Rightarrow> nat \<Rightarrow> bytes \<Rightarrow> 's \<Rightarrow> bytes result \<times> 's" where
  "fill_gaps st target_start covered i buffer inner =
    (if i < length covered
     then if \<not> covered ! i
          then let gap_len = length (takeWhile Not (drop i covered)) in
            case st_read st inner (target_start + i) gap_len of
              (Inl e, inner') \<Rightarrow> (Inl e, inner')
            | (Inr d, inner') \<Rightarrow> fill_gaps st target_start covered (i + gap_len) (overwrite buffer i d) inner'
          else fill_gaps st target_start covered (i + 1) buffer inner
     else (Inr buffer, inner))"
  by pat_completeness auto
termination fill_gaps
proof (relation "measure (\<lambda>(st, ts, covered, i, buffer, inner). length covered - i)", goal_cases)
  case (2 st ts covered i buffer inner gap_len)
  then have "drop i covered = covered ! i # drop (Suc i) covered"
    by (metis Cons_nth_drop_Suc)
  then show ?case using 2 by simp
qed auto

declare fill_gaps.simps [simp del]

definition cache_read_exact :: "nat \<Rightarrow> nat \<Rightarrow> 's CachedBlockStorage \<Rightarrow> nat \<Rightarrow>
    (bytes \<times> 's CachedBlockStorage) option" where
  "cache_read_exact now target_len c off = (case map_of (cs_blocks c) off of
       None \<Rightarrow> None
     | Some b \<Rightarrow> if length (cb_data b) \<ge> target_len
         then Some (take target_len (cb_data b),
           c\<lparr>cs_blocks := bt_insert off (b\<lparr>cb_last_accessed := now\<rparr>) (cs_blocks c),
             cache_hits := cache_hits c + 1\<rparr>)
         else None)"

definition cache_read_overlay :: "'s BlockStorage \<Rightarrow> nat \<Rightarrow> bytes \<Rightarrow> nat \<Rightarrow> 's CachedBlockStorage \<Rightarrow> nat \<Rightarrow>
    bytes result \<times> 's CachedBlockStorage" where
  "cache_read_overlay st now buffer target_end c off =
    (let acc = foldl (overlay_step off target_end) (buffer, replicate (length buffer) False) (cs_blocks c);
         any_cache_hit = list_ex (overlaps off target_end) (cs_blocks c);
         c1 = c\<lparr>cs_blocks := touch_overlapping now off target_end (cs_blocks c)\<rparr>
     in if list_all id (snd acc) then (Inr (fst acc), c1\<lparr>cache_hits := cache_hits c1 + 1\<rparr>)
        else case fill_gaps st off (snd acc) 0 (fst acc) (cs_inner c1) of
          (Inl e, inner) \<Rightarrow> (Inl e, c1\<lparr>cs_inner := inner\<rparr>)
        | (Inr d, inner) \<Rightarrow>
          (Inr d, if any_cache_hit then c1\<lparr>cs_inner := inner, cache_hits := cache_hits c1 + 1\<rparr>
                  else c1\<lparr>cs_inner := inner, cache_misses := cache_misses c1 + 1\<rparr>))"

definition cache_read_block :: "'s BlockStorage \<Rightarrow> nat \<Rightarrow> bytes \<Rightarrow> 's CachedBlockStorage \<Rightarrow> nat \<Rightarrow>
    bytes result \<times> 's CachedBlockStorage" where
  "cache_read_block st now buffer c off =
    (if length buffer = 0 then (Inr [], c)
     else case checked_add U64_MAX off (length buffer) of
       None \<Rightarrow> (Inl (Io OtherKind ''read offset + length overflowed u64''), c)
     | Some target_end \<Rightarrow> (case cache_read_exact now (length buffer) c off of
         Some (d, c') \<Rightarrow> (Inr d, c')
       | None \<Rightarrow> cache_read_overlay st now buffer target_end c off))"

text \<open>Dropping the cache flushes it and ignores the outcome.\<close>

definition cache_drop :: "'s BlockStorage \<Rightarrow> 's CachedBlockStorage \<Rightarrow> 's CachedBlockStorage" where
  "cache_drop st c = snd (flush_all st c)"

section \<open>The bytes a cache stands for\<close>

definition covers :: "nat \<times> CacheBlock \<Rightarrow> nat \<Rightarrow> bool" where
  "covers e i \<longleftrightarrow> fst e \<le> i \<and> i < fst e + length (cb_data (snd e))"

definition byte_at :: "(nat \<times> CacheBlock) list \<Rightarrow> bytes \<Rightarrow> nat \<Rightarrow> u8" where
  "byte_at bs base i = (case find (\<lambda>e. covers e i) bs of
     Some e \<Rightarrow> cb_data (snd e) ! (i - fst e) | None \<Rightarrow> base ! i)"

definition cached_view :: "(nat \<times> CacheBlock) list \<Rightarrow> bytes \<Rightarrow> bytes" where
  "cached_view bs base = map (byte_at bs base) [0..<length base]"

definition disjoint_blocks :: "(nat \<times> CacheBlock) list \<Rightarrow> bool" where
  "disjoint_blocks bs \<longleftrightarrow> sorted_wrt (\<lambda>e e'. fst e + length (cb_data (snd e)) \<le> fst e') bs"

definition blocks_fit :: "(nat \<times> CacheBlock) list \<Rightarrow> nat \<Rightarrow> bool" where
  "blocks_fit bs n \<longleftrightarrow> list_all (\<lambda>e. cb_data (snd e) \<noteq> [] \<and> fst e + length (cb_data (snd e)) \<le> n) bs"

definition clean_ok :: "(nat \<times> CacheBlock) list \<Rightarrow> bytes \<Rightarrow> bool" where
  "clean_ok bs base \<longleftrightarrow> list_all (\<lambda>e. cb_dirty (snd e) \<or>
     bslice base (fst e) (fst e + length (cb_data (snd e))) = cb_data (snd e)) bs"

abbreviation block_bytes :: "(nat \<times> CacheBlock) list \<Rightarrow> nat" where
  "block_bytes bs \<equiv> sum_list (map (\<lambda>e. length (cb_data (snd e))) bs)"

definition cache_good :: "('s \<Rightarrow> bool) \<Rightarrow> ('s \<Rightarrow> bytes) \<Rightarrow> 's CachedBlockStorage \<Rightarrow> bool" where
  "cache_good good content c \<longleftrightarrow> good (cs_inner c)
    \<and> disjoint_blocks (cs_blocks c) \<and> blocks_fit (cs_blocks c) (length (content (cs_inner c)))
    \<and> clean_ok (cs_blocks c) (content (cs_inner c)) \<and> length (content (cs_inner c)) \<le> U64_MAX
    \<and> current_cached_bytes c = block_bytes (cs_blocks c)
    \<and> current_dirty_bytes c = block_bytes (filter (\<lambda>e. cb_dirty (snd e)) (cs_blocks c))"

definition cache_content :: "('s \<Rightarrow> bytes) \<Rightarrow> 's CachedBlockStorage \<Rightarrow> bytes" where
  "cache_content content c = cached_view (cs_blocks c) (content (cs_inner c))"

text \<open>
  What the cache asks of its writers: a block written again is not shortened, and blocks at
  different offsets do not overlap.
\<close>

definition cache_can_write :: "'s CachedBlockStorage \<Rightarrow> nat \<Rightarrow> bytes \<Rightarrow> bool" where
  "cache_can_write c off d \<longleftrightarrow> list_all (\<lambda>e. let len = length (cb_data (snd e)) in
     if fst e = off then len \<le> length d else fst e + len \<le> off \<or> off + length d \<le> fst e) (cs_blocks c)"

lemma length_cached_view [simp]: "length (cached_view bs base) = length base"
  by (simp add: cached_view_def)

lemma nth_cached_view [simp]: "i < length base \<Longrightarrow> cached_view bs base ! i = byte_at bs base i"
  by (simp add: cached_view_def)

lemma disjoint_blocks_simps [simp]:
  "disjoint_blocks []"
  "disjoint_blocks (e # es) \<longleftrightarrow> (\<forall>e'\<in>set es. fst e + length (cb_data (snd e)) \<le> fst e') \<and> disjoint_blocks es"
  by (simp_all add: disjoint_blocks_def)

lemma blocks_fit_simps [simp]:
  "blocks_fit [] n"
  "blocks_fit (e # es) n \<longleftrightarrow> cb_data (snd e) \<noteq> [] \<and> fst e + length (cb_data (snd e)) \<le> n \<and> blocks_fit es n"
  by (auto simp: blocks_fit_def)

lemma blocks_fitD: "blocks_fit bs n \<Longrightarrow> e \<in> set bs \<Longrightarrow> cb_data (snd e) \<noteq> [] \<and> fst e + length (cb_data (snd e)) \<le> n"
  by (auto simp: blocks_fit_def list_all_iff)

lemma disjoint_filter: "disjoint_blocks bs \<Longrightarrow> disjoint_blocks (filter P bs)"
  by (simp add: disjoint_blocks_def sorted_wrt_filter)

lemma fit_filter: "blocks_fit bs n \<Longrightarrow> blocks_fit (filter P bs) n"
  by (simp add: blocks_fit_def list_all_iff)

lemma clean_filter: "clean_ok bs base \<Longrightarrow> clean_ok (filter P bs) base"
  by (simp add: clean_ok_def list_all_iff)

lemma blocks_wf: "disjoint_blocks bs \<Longrightarrow> blocks_fit bs n \<Longrightarrow> bt_wf bs"
proof (induction bs)
  case (Cons e es)
  have "fst e < fst e'" if "e' \<in> set es" for e'
    using Cons.prems that by (cases "cb_data (snd e)") fastforce+
  then show ?case using Cons by simp
qed simp

lemma covers_unique:
  "disjoint_blocks bs \<Longrightarrow> e \<in> set bs \<Longrightarrow> e' \<in> set bs \<Longrightarrow> covers e i \<Longrightarrow> covers e' i \<Longrightarrow> e = e'"
  by (induction bs) (fastforce simp: covers_def)+

lemma byte_at_covered:
  assumes "disjoint_blocks bs" and "e \<in> set bs" and "covers e i"
  shows "byte_at bs base i = cb_data (snd e) ! (i - fst e)"
proof -
  obtain e' where e': "find (\<lambda>e. covers e i) bs = Some e'"
    using assms by (metis find_None_iff option.exhaust)
  then have "e' \<in> set bs" and "covers e' i"
    by (auto simp: find_Some_iff)
  then have "e' = e" using covers_unique assms by blast
  then show ?thesis using e' by (simp add: byte_at_def)
qed

lemma byte_at_uncovered: "\<forall>e\<in>set bs. \<not> covers e i \<Longrightarrow> byte_at bs base i = base ! i"
  by (metis (mono_tags, lifting) byte_at_def find_None_iff option.case(1))

lemma clean_byte:
  assumes "clean_ok bs base" and "e \<in> set bs" and "\<not> cb_dirty (snd e)" and "covers e i" and "i < length base"
  shows "cb_data (snd e) ! (i - fst e) = base ! i"
proof -
  have "bslice base (fst e) (fst e + length (cb_data (snd e))) = cb_data (snd e)"
    using assms by (auto simp: clean_ok_def list_all_iff)
  then have "cb_data (snd e) ! (i - fst e) =
      bslice base (fst e) (fst e + length (cb_data (snd e))) ! (i - fst e)" by simp
  also have "\<dots> = base ! i"
    using assms(4,5) by (auto simp: bslice_def covers_def nth_append)
  finally show ?thesis .
qed

text \<open>Forgetting clean blocks does not change the view.\<close>

lemma view_forget_clean:
  assumes "disjoint_blocks bs" and "clean_ok bs base"
    and "\<And>e. e \<in> set bs \<Longrightarrow> \<not> P e \<Longrightarrow> \<not> cb_dirty (snd e)"
  shows "cached_view (filter P bs) base = cached_view bs base"
proof (rule nth_equalityI; simp)
  fix i assume i: "i < length base"
  show "byte_at (filter P bs) base i = byte_at bs base i"
  proof (cases "\<exists>e\<in>set bs. covers e i")
    case True
    then obtain e where e: "e \<in> set bs" "covers e i" by blast
    show ?thesis
    proof (cases "P e")
      case True
      then show ?thesis
        using e byte_at_covered [OF assms(1) e] byte_at_covered [OF disjoint_filter [OF assms(1)], of e P i]
        by simp
    next
      case False
      then have "\<not> covers e' i" if "e' \<in> set (filter P bs)" for e'
        using that e covers_unique [OF assms(1), of e' e i] by auto
      then have "byte_at (filter P bs) base i = base ! i" by (simp add: byte_at_uncovered)
      then show ?thesis
        using byte_at_covered [OF assms(1) e] clean_byte [OF assms(2) e(1) assms(3) [OF e(1) False] e(2) i] by simp
    qed
  next
    case False
    then show ?thesis by (simp add: byte_at_uncovered)
  qed
qed

section \<open>Writing into the cache\<close>

lemma bt_insert_disjoint:
  assumes "disjoint_blocks bs" and "cb_data b \<noteq> []"
    and "\<forall>e\<in>set bs. fst e = off \<or> fst e + length (cb_data (snd e)) \<le> off \<or> off + length (cb_data b) \<le> fst e"
    and "blocks_fit bs n"
  shows "disjoint_blocks (bt_insert off b bs)"
  using assms
proof (induction bs)
  case (Cons e es)
  obtain o' b' where e: "e = (o', b')" by (cases e)
  have wf: "bt_wf (e # es)" using blocks_wf [OF Cons.prems(1,4)] .
  have IH: "disjoint_blocks (bt_insert off b es)" using Cons by simp
  have nz: "cb_data b' \<noteq> []" using Cons.prems(4) e by simp
  consider "off < o'" | "off = o'" | "o' < off" by linarith
  then show ?case
  proof cases
    case 1
    then have "off + length (cb_data b) \<le> o'" using Cons.prems(3) e by auto
    then show ?thesis using Cons.prems(1) 1 e by fastforce
  next
    case 2
    have "off + length (cb_data b) \<le> fst e'" if "e' \<in> set es" for e'
    proof -
      have "o' < fst e'" and "o' + length (cb_data b') \<le> fst e'" using wf e that Cons.prems(1) by auto
      moreover have "cb_data (snd e') \<noteq> []" using blocks_fitD [OF Cons.prems(4)] that by simp
      ultimately show ?thesis using Cons.prems(3) that 2 by (cases "cb_data (snd e')") fastforce+
    qed
    then show ?thesis using Cons.prems(1) 2 e by simp
  next
    case 3
    then have "o' + length (cb_data b') \<le> off"
      using Cons.prems(2,3) e by (cases "cb_data b") fastforce+
    moreover have "bt_wf es" using wf by simp
    ultimately show ?thesis using 3 IH Cons.prems(1) e by (auto simp: set_bt_insert)
  qed
qed simp

lemma fit_bt_insert:
  "bt_wf bs \<Longrightarrow> blocks_fit bs n \<Longrightarrow> cb_data b \<noteq> [] \<Longrightarrow> off + length (cb_data b) \<le> n \<Longrightarrow>
    blocks_fit (bt_insert off b bs) n"
  by (auto simp: blocks_fit_def list_all_iff set_bt_insert)

lemma clean_bt_insert:
  "bt_wf bs \<Longrightarrow> clean_ok bs base \<Longrightarrow> cb_dirty b \<Longrightarrow> clean_ok (bt_insert off b bs) base"
  by (auto simp: clean_ok_def list_all_iff set_bt_insert)

text \<open>The bytes of the cached blocks after an insertion, the replaced block left out.\<close>

lemma block_bytes_bt_insert:
  assumes "bt_wf bs"
  shows "block_bytes (filter P (bt_insert off b bs)) +
      (case map_of bs off of Some b' \<Rightarrow> if P (off, b') then length (cb_data b') else 0 | None \<Rightarrow> 0) =
    block_bytes (filter P bs) + (if P (off, b) then length (cb_data b) else 0)"
  using assms
proof (induction off b bs rule: bt_insert.induct)
  case (2 k v k' v' m)
  consider "k < k'" | "k = k'" | "k' < k" by linarith
  then show ?case
  proof cases
    case 1
    then have "map_of ((k', v') # m) k = None"
      using "2.prems" by (auto simp: map_of_eq_None_iff)
    then show ?thesis using 1 by simp
  next
    case 2
    then show ?thesis by simp
  next
    case 3
    then show ?thesis using 2 by auto
  qed
qed simp

lemma block_bytes_bt_remove:
  assumes "bt_wf bs" and "(off, b) \<in> set bs"
  shows "block_bytes (filter P bs) =
    block_bytes (filter P (bt_remove off bs)) + (if P (off, b) then length (cb_data b) else 0)"
  using assms
proof (induction bs)
  case (Cons e es)
  show ?case
  proof (cases "e = (off, b)")
    case True
    then have "bt_remove off (e # es) = es"
      using Cons.prems(1) by (force simp: bt_remove_def filter_id_conv)
    then show ?thesis using True by simp
  next
    case False
    then have mem: "(off, b) \<in> set es" using Cons.prems(2) by simp
    then have "fst e \<noteq> off" using Cons.prems(1) by force
    then show ?thesis using Cons.IH [OF _ mem] Cons.prems(1) by (simp add: bt_remove_def)
  qed
qed simp

lemma put_view:
  assumes wf: "disjoint_blocks bs" "blocks_fit bs (length base)"
    and d: "cb_data b \<noteq> []" "off + length (cb_data b) \<le> length base"
    and can: "\<forall>e\<in>set bs. if fst e = off then length (cb_data (snd e)) \<le> length (cb_data b)
      else fst e + length (cb_data (snd e)) \<le> off \<or> off + length (cb_data b) \<le> fst e"
  shows "cached_view (bt_insert off b bs) base = overwrite (cached_view bs base) off (cb_data b)"
proof (rule nth_equalityI)
  have bt: "bt_wf bs" using blocks_wf wf by blast
  have dis: "disjoint_blocks (bt_insert off b bs)"
    by (rule bt_insert_disjoint) (use wf d can in \<open>auto split: if_splits\<close>)
  have mem: "set (bt_insert off b bs) = insert (off, b) {e \<in> set bs. fst e \<noteq> off}"
    by (rule set_bt_insert [OF bt])
  show "length (cached_view (bt_insert off b bs) base) = length (overwrite (cached_view bs base) off (cb_data b))"
    using d by simp
  fix i assume "i < length (cached_view (bt_insert off b bs) base)"
  then have i: "i < length base" by simp
  have ow: "overwrite (cached_view bs base) off (cb_data b) ! i =
      (if covers (off, b) i then cb_data b ! (i - off) else byte_at bs base i)"
    using d i by (simp add: nth_overwrite covers_def)
  show "cached_view (bt_insert off b bs) base ! i = overwrite (cached_view bs base) off (cb_data b) ! i"
  proof (cases "covers (off, b) i")
    case True
    then show ?thesis using byte_at_covered [OF dis, of "(off, b)" i] mem ow i by simp
  next
    case False
    have same: "e \<in> set (bt_insert off b bs) \<longleftrightarrow> e \<in> set bs" if "covers e i" for e
      using that can False by (fastforce simp: mem covers_def)
    show ?thesis
    proof (cases "\<exists>e\<in>set bs. covers e i")
      case True
      then obtain e where e: "e \<in> set bs" "covers e i" by blast
      then show ?thesis
        using byte_at_covered [OF wf(1) e] byte_at_covered [OF dis, of e i] same ow i False by simp
    next
      case uncovered: False
      then have "\<forall>e\<in>set (bt_insert off b bs). \<not> covers e i" using same by blast
      then show ?thesis using uncovered ow i False by (simp add: byte_at_uncovered)
    qed
  qed
qed

lemma cache_put_good:
  assumes good: "cache_good good content c" and "d \<noteq> []"
    and fit: "off + length d \<le> length (content (cs_inner c))" and can: "cache_can_write c off d"
  shows "cache_good good content (cache_put now off d c)"
    and "cache_content content (cache_put now off d c) = overwrite (cache_content content c) off d"
proof -
  let ?b = "\<lparr>cb_data = d, cb_dirty = True, cb_last_accessed = now\<rparr>" and ?base = "content (cs_inner c)"
  have wf: "disjoint_blocks (cs_blocks c)" "blocks_fit (cs_blocks c) (length ?base)" and bt: "bt_wf (cs_blocks c)"
    using good blocks_wf by (auto simp: cache_good_def)
  have can': "\<forall>e\<in>set (cs_blocks c). if fst e = off then length (cb_data (snd e)) \<le> length (cb_data ?b)
      else fst e + length (cb_data (snd e)) \<le> off \<or> off + length (cb_data ?b) \<le> fst e"
    using can by (auto simp: cache_can_write_def list_all_iff Let_def)
  have blocks: "cs_blocks (cache_put now off d c) = bt_insert off ?b (cs_blocks c)"
    and inner: "cs_inner (cache_put now off d c) = cs_inner c"
    by (simp_all add: cache_put_def Let_def split: option.split)
  have "disjoint_blocks (bt_insert off ?b (cs_blocks c))"
    by (rule bt_insert_disjoint) (use wf can' assms(2) in \<open>auto split: if_splits\<close>)
  moreover have old: "length (cb_data b') \<le> block_bytes (cs_blocks c)"
      "cb_dirty b' \<Longrightarrow> length (cb_data b') \<le> block_bytes (filter (\<lambda>e. cb_dirty (snd e)) (cs_blocks c))"
    if "map_of (cs_blocks c) off = Some b'" for b'
    using block_bytes_bt_remove [OF bt, of off b' "\<lambda>_. True"] that
      block_bytes_bt_remove [OF bt, of off b' "\<lambda>e. cb_dirty (snd e)"] by (simp_all add: map_of_bt [OF bt])
  moreover have "current_cached_bytes (cache_put now off d c) = block_bytes (bt_insert off ?b (cs_blocks c))"
    using block_bytes_bt_insert [OF bt, of "\<lambda>_. True" off ?b] good old
    by (fastforce simp: cache_put_def Let_def cache_good_def split: option.splits)
  moreover have "current_dirty_bytes (cache_put now off d c) =
      block_bytes (filter (\<lambda>e. cb_dirty (snd e)) (bt_insert off ?b (cs_blocks c)))"
    using block_bytes_bt_insert [OF bt, of "\<lambda>e. cb_dirty (snd e)" off ?b] good old
    by (fastforce simp: cache_put_def Let_def cache_good_def split: option.splits)
  ultimately show "cache_good good content (cache_put now off d c)"
    using good fit assms(2) fit_bt_insert [OF bt wf(2), of ?b off] clean_bt_insert [OF bt, of ?base ?b off]
    by (simp add: cache_good_def blocks inner)
  show "cache_content content (cache_put now off d c) = overwrite (cache_content content c) off d"
    using put_view [OF wf, of ?b off] can' assms(2) fit by (simp add: cache_content_def blocks inner)
qed

section \<open>Eviction keeps the contents\<close>

lemma evict_one_good:
  assumes good: "cache_good good content c" and b: "(off, b) \<in> set (cs_blocks c)" "\<not> cb_dirty b"
    and c': "c' = c\<lparr>cs_blocks := bt_remove off (cs_blocks c),
                  current_cached_bytes := current_cached_bytes c - length (cb_data b)\<rparr>"
  shows "cache_good good content c'" and "cache_content content c' = cache_content content c"
proof -
  have bt: "bt_wf (cs_blocks c)" using good blocks_wf by (auto simp: cache_good_def)
  have "\<not> cb_dirty (snd e)" if "e \<in> set (cs_blocks c)" "fst e = off" for e
    using bt_unique [OF bt b(1), of "snd e"] that b(2) by (cases e) auto
  then show "cache_content content c' = cache_content content c"
    using view_forget_clean [of "cs_blocks c" "content (cs_inner c)" "\<lambda>e. fst e \<noteq> off"] good
    by (simp add: c' cache_content_def bt_remove_def cache_good_def)
  show "cache_good good content c'"
    using good block_bytes_bt_remove [OF bt b(1), of "\<lambda>_. True"] b(2)
      block_bytes_bt_remove [OF bt b(1), of "\<lambda>e. cb_dirty (snd e)"]
    by (simp add: c' cache_good_def)
      (simp add: bt_remove_def disjoint_filter fit_filter clean_filter)
qed

definition clean_entries :: "(nat \<times> nat) list \<Rightarrow> (nat \<times> CacheBlock) list \<Rightarrow> bool" where
  "clean_entries es bs \<longleftrightarrow> distinct (map fst es) \<and>
    (\<forall>e\<in>set es. \<exists>b. (fst e, b) \<in> set bs \<and> \<not> cb_dirty b \<and> snd e = length (cb_data b))"

lemma evict_loop_good:
  assumes "cache_good good content c" and "clean_entries es (cs_blocks c)"
    and "evict_loop es c = (fin, c')"
  shows "cache_good good content c' \<and> cache_content content c' = cache_content content c
    \<and> max_cache_bytes c' = max_cache_bytes c
    \<and> (if fin then current_cached_bytes c' \<le> max_cache_bytes c'
       else cs_blocks c' = filter (\<lambda>e. fst e \<notin> fst ` set es) (cs_blocks c))"
  using assms
proof (induction es c rule: evict_loop.induct)
  case (1 c)
  then show ?case by simp
next
  case (2 off sz es c)
  obtain b where b: "(off, b) \<in> set (cs_blocks c)" "\<not> cb_dirty b" "sz = length (cb_data b)"
    using "2.prems"(2) by (auto simp: clean_entries_def)
  define c1 where "c1 = c\<lparr>cs_blocks := bt_remove off (cs_blocks c),
    current_cached_bytes := current_cached_bytes c - sz\<rparr>"
  note c1 = evict_one_good [OF "2.prems"(1) b(1,2), of c1, OF c1_def [unfolded b(3)]]
  have keep: "clean_entries es (cs_blocks c1)"
    using "2.prems"(2) by (force simp: clean_entries_def c1_def bt_remove_def)
  show ?case
  proof (cases "current_cached_bytes c1 \<le> max_cache_bytes c1")
    case True
    then show ?thesis using "2.prems"(3) c1 by (auto simp: Let_def c1_def)
  next
    case False
    then have "evict_loop es c1 = (fin, c')" using "2.prems"(3) by (simp add: Let_def c1_def)
    from "2.IH" [OF c1_def _ c1(1) keep this] False c1(2)
    show ?thesis by (auto simp: c1_def bt_remove_def intro: filter_cong)
  qed
qed

lemma lru_order_entries:
  assumes "bt_wf bs" and "set bs' \<subseteq> set bs" and "distinct bs'" and "\<forall>e\<in>set bs'. \<not> cb_dirty (snd e)"
  shows "clean_entries (lru_order bs') bs"
proof -
  have "inj_on fst (set bs')"
    using bt_distinct [OF assms(1)] inj_on_subset [where f = fst, OF _ assms(2)] by (simp add: distinct_map)
  then have "distinct (map fst (sort_key (\<lambda>e. cb_last_accessed (snd e)) bs'))"
    using assms(3) by (simp add: distinct_map)
  moreover have "map fst (lru_order bs') = map fst (sort_key (\<lambda>e. cb_last_accessed (snd e)) bs')"
    by (simp add: lru_order_def)
  moreover have "\<exists>b. (fst x, b) \<in> set bs \<and> \<not> cb_dirty b \<and> snd x = length (cb_data b)"
    if x: "x \<in> set (lru_order bs')" for x
  proof -
    obtain e where "e \<in> set bs'" and "x = (fst e, length (cb_data (snd e)))"
      using x by (auto simp: lru_order_def)
    then show ?thesis using assms(2,4) by (intro exI [of _ "snd e"]) auto
  qed
  ultimately show ?thesis unfolding clean_entries_def by simp
qed

lemma lru_order_fst: "fst ` set (lru_order bs) = fst ` set bs"
  by (force simp: lru_order_def)

section \<open>Coalescing\<close>

abbreviation apply_writes :: "bytes \<Rightarrow> (nat \<times> bytes) list \<Rightarrow> bytes" where
  "apply_writes \<equiv> foldl (\<lambda>c e. overwrite c (fst e) (snd e))"

definition writes_fit :: "nat \<Rightarrow> (nat \<times> bytes) list \<Rightarrow> bool" where
  "writes_fit n es \<longleftrightarrow> (\<forall>e\<in>set es. fst e + length (snd e) \<le> n)"

lemma length_apply_writes: "writes_fit (length c) es \<Longrightarrow> length (apply_writes c es) = length c"
  by (induction es arbitrary: c) (auto simp: writes_fit_def)

lemma coalesce_step_writes:
  assumes fit: "writes_fit (length c) (chunks @ [e])"
  shows "apply_writes c (coalesce_step chunks e) = apply_writes c (chunks @ [e])"
    and "writes_fit (length c) (coalesce_step chunks e)"
proof -
  have "apply_writes c (coalesce_step chunks e) = apply_writes c (chunks @ [e])
    \<and> writes_fit (length c) (coalesce_step chunks e)"
  proof (cases "chunks \<noteq> [] \<and> fst e = fst (last chunks) + length (snd (last chunks))")
    case True
    then obtain cs l where cs: "chunks = cs @ [l]" by (metis append_butlast_last_id)
    have "length (apply_writes c cs) = length c" and l: "fst l + length (snd l) + length (snd e) \<le> length c"
      using fit True cs length_apply_writes [of c cs] by (auto simp: writes_fit_def)
    then have "overwrite (overwrite (apply_writes c cs) (fst l) (snd l)) (fst l + length (snd l)) (snd e) =
        overwrite (apply_writes c cs) (fst l) (snd l @ snd e)"
      by (intro overwrite_adjacent) simp
    then show ?thesis using True cs fit l by (auto simp: coalesce_step_def writes_fit_def)
  next
    case False
    then show ?thesis using fit by (auto simp: coalesce_step_def)
  qed
  then show "apply_writes c (coalesce_step chunks e) = apply_writes c (chunks @ [e])"
    and "writes_fit (length c) (coalesce_step chunks e)" by auto
qed

lemma coalesce_fold:
  assumes "writes_fit (length c) (chunks @ es)"
  shows "apply_writes c (foldl coalesce_step chunks es) = apply_writes c (chunks @ es)
    \<and> writes_fit (length c) (foldl coalesce_step chunks es)"
  using assms
proof (induction es arbitrary: chunks)
  case (Cons e es)
  have "writes_fit (length c) (chunks @ [e])" using Cons.prems by (simp add: writes_fit_def)
  note step = coalesce_step_writes [OF this]
  then have "writes_fit (length c) (coalesce_step chunks e @ es)"
    using Cons.prems by (auto simp: writes_fit_def)
  from Cons.IH [OF this] step(1) show ?case by simp
qed simp

lemma coalesce_writes:
  "writes_fit (length c) es \<Longrightarrow> apply_writes c (coalesce es) = apply_writes c es"
  "writes_fit (length c) es \<Longrightarrow> writes_fit (length c) (coalesce es)"
  using coalesce_fold [of c "[]" es] by (simp_all add: coalesce_def)

lemma coalesce_step_not_Nil: "coalesce_step chunks e \<noteq> []"
  by (simp add: coalesce_step_def)

lemma coalesce_fold_not_Nil: "chunks \<noteq> [] \<Longrightarrow> foldl coalesce_step chunks es \<noteq> []"
  by (induction es arbitrary: chunks) (simp_all add: coalesce_step_not_Nil)

lemma coalesce_eq_Nil [simp]: "coalesce es = [] \<longleftrightarrow> es = []"
  by (cases es) (simp_all add: coalesce_def coalesce_fold_not_Nil coalesce_step_not_Nil)

text \<open>Writing disjoint blocks one after the other gives the view of these blocks.\<close>

lemma apply_writes_view:
  assumes "disjoint_blocks bs" and "blocks_fit bs (length base)"
  shows "apply_writes base (map (\<lambda>e. (fst e, cb_data (snd e))) bs) = cached_view bs base"
  using assms
proof (induction bs arbitrary: base)
  case Nil
  then show ?case by (auto simp: cached_view_def byte_at_def intro: nth_equalityI)
next
  case (Cons e es)
  let ?base = "overwrite base (fst e) (cb_data (snd e))"
  have len: "length ?base = length base" using Cons.prems(2) by simp
  have "cached_view es ?base = cached_view (e # es) base"
  proof (rule nth_equalityI)
    show "length (cached_view es ?base) = length (cached_view (e # es) base)" using len by simp
    fix i assume "i < length (cached_view es ?base)"
    then have i: "i < length base" using len by simp
    have ow: "?base ! i = (if covers e i then cb_data (snd e) ! (i - fst e) else base ! i)"
      using Cons.prems(2) i by (simp add: nth_overwrite covers_def)
    show "cached_view es ?base ! i = cached_view (e # es) base ! i"
    proof (cases "covers e i")
      case True
      then have "\<not> covers e' i" if "e' \<in> set es" for e'
        using Cons.prems(1) that by (auto simp: covers_def)
      then have "byte_at es ?base i = ?base ! i" by (simp add: byte_at_uncovered)
      then show ?thesis using True ow i len by (simp add: byte_at_def)
    next
      case False
      then show ?thesis using ow i len by (simp add: byte_at_def split: option.split)
    qed
  qed
  then show ?case using Cons.IH [of ?base] Cons.prems len by simp
qed

section \<open>Flushing\<close>

lemma mark_clean_entries:
  "set (mark_clean r bs) =
    (\<lambda>e. if flushable r e then (fst e, (snd e)\<lparr>cb_dirty := False\<rparr>) else e) ` set bs"
  by (simp add: mark_clean_def)

lemma mark_clean_data [simp]:
  "map (\<lambda>e. (fst e, cb_data (snd e))) (mark_clean r bs) = map (\<lambda>e. (fst e, cb_data (snd e))) bs"
  by (simp add: mark_clean_def)

text \<open>Offsets and data of the blocks determine everything but the dirty flags.\<close>

lemma same_data:
  assumes "map (\<lambda>e. (fst e, cb_data (snd e))) bs' = map (\<lambda>e. (fst e, cb_data (snd e))) bs"
  shows "disjoint_blocks bs' = disjoint_blocks bs" and "blocks_fit bs' n = blocks_fit bs n"
    and "block_bytes bs' = block_bytes bs" and "cached_view bs' base = cached_view bs base"
proof -
  have "list_all2 (=) (map (\<lambda>e. (fst e, cb_data (snd e))) bs') (map (\<lambda>e. (fst e, cb_data (snd e))) bs)"
    using assms by (simp add: list.rel_eq)
  then have "list_all2 (\<lambda>e' e. fst e' = fst e \<and> cb_data (snd e') = cb_data (snd e)) bs' bs"
    by (simp add: list.rel_map)
  then have "disjoint_blocks bs' = disjoint_blocks bs \<and> blocks_fit bs' n = blocks_fit bs n
      \<and> block_bytes bs' = block_bytes bs \<and> (\<forall>i. byte_at bs' base i = byte_at bs base i)
      \<and> (\<forall>k. (\<forall>e\<in>set bs'. k \<le> fst e) = (\<forall>e\<in>set bs. k \<le> fst e))"
    by (induction rule: list_all2_induct) (auto simp: byte_at_def covers_def)
  then show "disjoint_blocks bs' = disjoint_blocks bs" and "blocks_fit bs' n = blocks_fit bs n"
    and "block_bytes bs' = block_bytes bs" and "cached_view bs' base = cached_view bs base"
    by (auto simp: cached_view_def)
qed

lemma flush_view:
  assumes dis: "disjoint_blocks bs" and base': "base' = cached_view (filter (flushable r) bs) base"
  shows "cached_view (mark_clean r bs) base' = cached_view bs base"
proof -
  have "byte_at bs base' i = byte_at bs base i" if i: "i < length base" for i
  proof (cases "\<exists>e\<in>set bs. covers e i")
    case True
    then show ?thesis using byte_at_covered [OF dis] by metis
  next
    case False
    then show ?thesis using i by (simp add: byte_at_uncovered base')
  qed
  then have "cached_view bs base' = cached_view bs base"
    by (simp add: cached_view_def base')
  then show ?thesis using same_data(4) [OF mark_clean_data] by simp
qed

lemma flush_clean:
  assumes dis: "disjoint_blocks bs" and fit: "blocks_fit bs (length base)" and clean: "clean_ok bs base"
    and base': "base' = cached_view (filter (flushable r) bs) base"
  shows "clean_ok (mark_clean r bs) base'"
proof -
  have data: "bslice base' (fst e) (fst e + length (cb_data (snd e))) = cb_data (snd e)"
    if e: "e \<in> set bs" "flushable r e \<or> \<not> cb_dirty (snd e)" for e
  proof (rule nth_equalityI)
    have len: "fst e + length (cb_data (snd e)) \<le> length base" using blocks_fitD [OF fit e(1)] by simp
    then show "length (bslice base' (fst e) (fst e + length (cb_data (snd e)))) = length (cb_data (snd e))"
      by (simp add: base')
    fix k assume "k < length (bslice base' (fst e) (fst e + length (cb_data (snd e))))"
    then have k: "k < length (cb_data (snd e))" using len by (simp add: base')
    then have i: "fst e + k < length base" "covers e (fst e + k)" using len by (auto simp: covers_def)
    have "byte_at (filter (flushable r) bs) base (fst e + k) = cb_data (snd e) ! k"
    proof (cases "flushable r e")
      case True
      then show ?thesis using byte_at_covered [OF disjoint_filter [OF dis], of e _ "fst e + k"] e i by simp
    next
      case False
      then have "\<forall>e'\<in>set (filter (flushable r) bs). \<not> covers e' (fst e + k)"
        using covers_unique [OF dis e(1) _ i(2)] by auto
      then show ?thesis
        using clean_byte [OF clean e(1) _ i(2,1)] e(2) False by (simp add: byte_at_uncovered)
    qed
    then show "bslice base' (fst e) (fst e + length (cb_data (snd e))) ! k = cb_data (snd e) ! k"
      using i k by (simp add: bslice_def base')
  qed
  have "cb_dirty (snd e') \<or> bslice base' (fst e') (fst e' + length (cb_data (snd e'))) = cb_data (snd e')"
    if "e' \<in> set (mark_clean r bs)" for e'
  proof -
    obtain e where "e \<in> set bs" and "e' = (if flushable r e then (fst e, (snd e)\<lparr>cb_dirty := False\<rparr>) else e)"
      using \<open>e' \<in> set (mark_clean r bs)\<close> unfolding mark_clean_entries by blast
    then show ?thesis using data [of e] by (cases "flushable r e") auto
  qed
  then show ?thesis by (auto simp: clean_ok_def list_all_iff)
qed

lemma flush_dirty_bytes:
  "block_bytes (filter (\<lambda>e. cb_dirty (snd e)) (mark_clean r bs)) =
    block_bytes (filter (\<lambda>e. cb_dirty (snd e)) bs) - block_bytes (filter (flushable r) bs)
    \<and> block_bytes (filter (flushable r) bs) \<le> block_bytes (filter (\<lambda>e. cb_dirty (snd e)) bs)"
  by (induction bs) (auto simp: mark_clean_def flushable_def)

section \<open>Reading through the cache\<close>

lemma overlay_step_nth:
  assumes "0 < n" and "cb_data (snd e) \<noteq> []" and len: "length (fst acc) = n" "length (snd acc) = n"
  shows "length (fst (overlay_step off (off + n) acc e)) = n \<and> length (snd (overlay_step off (off + n) acc e)) = n
    \<and> (\<forall>j<n. fst (overlay_step off (off + n) acc e) ! j =
        (if covers e (off + j) then cb_data (snd e) ! (off + j - fst e) else fst acc ! j)
      \<and> snd (overlay_step off (off + n) acc e) ! j = (covers e (off + j) \<or> snd acc ! j))"
proof (cases "overlaps off (off + n) e")
  case False
  then have "\<not> covers e (off + j)" if "j < n" for j
    using that by (auto simp: overlaps_def covers_def)
  then show ?thesis using False len by (simp add: overlay_step_def)
next
  case True
  define a z where "a = max off (fst e)" and "z = min (off + n) (fst e + length (cb_data (snd e)))"
  define src where "src = bslice (cb_data (snd e)) (a - fst e) (z - fst e)"
  have az: "off \<le> a" "fst e \<le> a" "a < z" "z \<le> off + n" "z \<le> fst e + length (cb_data (snd e))"
    using True assms(1,2) by (auto simp: a_def z_def overlaps_def)
  have src: "length src = z - a" "\<And>k. k < z - a \<Longrightarrow> src ! k = cb_data (snd e) ! (a - fst e + k)"
    using az by (auto simp: src_def bslice_def)
  have step: "overlay_step off (off + n) acc e =
      (overwrite (fst acc) (a - off) src, overwrite (snd acc) (a - off) (replicate (z - a) True))"
    using True az by (simp add: overlay_step_def Let_def src_def a_def [symmetric] z_def [symmetric])
  have cov: "covers e (off + j) \<longleftrightarrow> a - off \<le> j \<and> j < a - off + (z - a)" if "j < n" for j
    using that az by (auto simp: covers_def a_def z_def)
  show ?thesis
    unfolding step using az len src cov by (auto simp: nth_overwrite add.commute)
qed

lemma overlay_fold_nth:
  assumes "disjoint_blocks bs" and "blocks_fit bs U" and "0 < n"
    and "length (fst acc) = n" and "length (snd acc) = n"
  shows "length (fst (foldl (overlay_step off (off + n)) acc bs)) = n
    \<and> length (snd (foldl (overlay_step off (off + n)) acc bs)) = n
    \<and> (\<forall>j<n. fst (foldl (overlay_step off (off + n)) acc bs) ! j =
        (case find (\<lambda>e. covers e (off + j)) bs of Some e \<Rightarrow> cb_data (snd e) ! (off + j - fst e) | None \<Rightarrow> fst acc ! j)
      \<and> snd (foldl (overlay_step off (off + n)) acc bs) ! j = ((\<exists>e\<in>set bs. covers e (off + j)) \<or> snd acc ! j))"
  using assms
proof (induction bs arbitrary: acc)
  case (Cons e es)
  note step = overlay_step_nth [of n e acc off]
  let ?acc = "overlay_step off (off + n) acc e"
  have len: "length (fst ?acc) = n" "length (snd ?acc) = n" using step Cons.prems by auto
  note step = step [OF Cons.prems(3) _ Cons.prems(4,5)]
  note IH = Cons.IH [OF _ _ Cons.prems(3) len]
  have none: "find (\<lambda>e. covers e (off + j)) es = None" if "covers e (off + j)" for j
    using that Cons.prems(1) by (auto simp: find_None_iff covers_def)
  have fits: "disjoint_blocks es" "blocks_fit es U" using Cons.prems by auto
  show ?case
  proof (intro conjI allI impI)
    show "length (fst (foldl (overlay_step off (off + n)) acc (e # es))) = n"
      and "length (snd (foldl (overlay_step off (off + n)) acc (e # es))) = n" using IH [OF fits] by auto
    fix j assume j: "j < n"
    show "fst (foldl (overlay_step off (off + n)) acc (e # es)) ! j =
        (case find (\<lambda>e. covers e (off + j)) (e # es) of
           Some e \<Rightarrow> cb_data (snd e) ! (off + j - fst e) | None \<Rightarrow> fst acc ! j)"
      using IH [OF fits] step Cons.prems j none by (auto split: option.split)
    show "snd (foldl (overlay_step off (off + n)) acc (e # es)) ! j =
        ((\<exists>e'\<in>set (e # es). covers e' (off + j)) \<or> snd acc ! j)"
      using IH [OF fits] step Cons.prems j by auto
  qed
qed simp

lemma gap_run:
  assumes "i < length covered" and "\<not> covered ! i" and "g = length (takeWhile Not (drop i covered))"
  shows "0 < g" and "i + g \<le> length covered" and "\<And>j. i \<le> j \<Longrightarrow> j < i + g \<Longrightarrow> \<not> covered ! j"
proof -
  have "drop i covered = covered ! i # drop (Suc i) covered" using assms(1) by (metis Cons_nth_drop_Suc)
  then show "0 < g" using assms(2,3) by simp
  have "g \<le> length (drop i covered)" unfolding assms(3) by (rule length_takeWhile_le)
  then show "i + g \<le> length covered" using assms(1) by simp
  show "\<not> covered ! j" if "i \<le> j" "j < i + g" for j
  proof -
    have "takeWhile Not (drop i covered) ! (j - i) = drop i covered ! (j - i)"
      using that assms(3) by (intro takeWhile_nth) simp
    moreover have "\<not> takeWhile Not (drop i covered) ! (j - i)"
      using that assms(3) set_takeWhileD [of "takeWhile Not (drop i covered) ! (j - i)" Not "drop i covered"]
        nth_mem [of "j - i" "takeWhile Not (drop i covered)"] by linarith
    ultimately show ?thesis using that assms(1) by simp
  qed
qed

text \<open>Reading changes nothing of the blocks but their access times.\<close>

definition erase_time :: "nat \<times> CacheBlock \<Rightarrow> nat \<times> CacheBlock" where
  "erase_time e = (fst e, (snd e)\<lparr>cb_last_accessed := 0\<rparr>)"

lemma erase_time_fields:
  "erase_time e = erase_time e' \<longleftrightarrow>
    fst e = fst e' \<and> cb_data (snd e) = cb_data (snd e') \<and> cb_dirty (snd e) = cb_dirty (snd e')"
  by (cases "snd e"; cases "snd e'") (auto simp: erase_time_def)

lemma touched_blocks:
  assumes "map erase_time bs' = map erase_time bs"
  shows "disjoint_blocks bs' = disjoint_blocks bs" and "blocks_fit bs' n = blocks_fit bs n"
    and "block_bytes bs' = block_bytes bs" and "cached_view bs' base = cached_view bs base"
    and "clean_ok bs' base = clean_ok bs base"
    and "block_bytes (filter (\<lambda>e. cb_dirty (snd e)) bs') = block_bytes (filter (\<lambda>e. cb_dirty (snd e)) bs)"
proof -
  have "list_all2 (=) (map erase_time bs') (map erase_time bs)" using assms by (simp add: list.rel_eq)
  then have rel: "list_all2 (\<lambda>e' e. fst e' = fst e \<and> cb_data (snd e') = cb_data (snd e)
      \<and> cb_dirty (snd e') = cb_dirty (snd e)) bs' bs"
    by (simp add: list.rel_map erase_time_fields)
  then have "map (\<lambda>e. (fst e, cb_data (snd e))) bs' = map (\<lambda>e. (fst e, cb_data (snd e))) bs"
    by (induction rule: list_all2_induct) auto
  from same_data [OF this] show "disjoint_blocks bs' = disjoint_blocks bs" and "blocks_fit bs' n = blocks_fit bs n"
    and "block_bytes bs' = block_bytes bs" and "cached_view bs' base = cached_view bs base" by auto
  from rel show "clean_ok bs' base = clean_ok bs base"
    by (induction rule: list_all2_induct) (auto simp: clean_ok_def)
  from rel show "block_bytes (filter (\<lambda>e. cb_dirty (snd e)) bs') = block_bytes (filter (\<lambda>e. cb_dirty (snd e)) bs)"
    by (induction rule: list_all2_induct) auto
qed

lemma erase_bt_insert:
  assumes "bt_wf bs" and "(off, b) \<in> set bs"
  shows "map erase_time (bt_insert off (b\<lparr>cb_last_accessed := now\<rparr>) bs) = map erase_time bs"
  using assms
proof (induction bs)
  case (Cons e es)
  obtain k v where e: "e = (k, v)" by (cases e)
  show ?case
  proof (cases "e = (off, b)")
    case True
    then show ?thesis by (simp add: erase_time_def)
  next
    case False
    then have mem: "(off, b) \<in> set es" using Cons.prems(2) by simp
    then have "k < off" using Cons.prems(1) e by force
    then show ?thesis using Cons.IH [OF _ mem] Cons.prems(1) e by simp
  qed
qed simp

section \<open>The cache over any storage\<close>

text \<open>An inner storage that accepts every write inside its array.\<close>

locale free_storage = block_storage st good content "\<lambda>_ _ _. True"
  for st :: "'s BlockStorage" and good :: "'s \<Rightarrow> bool" and content :: "'s \<Rightarrow> bytes"
begin

lemma write_chunks_ok:
  assumes "good (cs_inner c)" and "writes_fit (length (content (cs_inner c))) chunks"
  shows "\<exists>c'. write_chunks st chunks c = (Inr (), c') \<and> good (cs_inner c')
    \<and> content (cs_inner c') = apply_writes (content (cs_inner c)) chunks
    \<and> cs_blocks c' = cs_blocks c \<and> max_cache_bytes c' = max_cache_bytes c
    \<and> current_cached_bytes c' = current_cached_bytes c \<and> current_dirty_bytes c' = current_dirty_bytes c"
  using assms
proof (induction chunks arbitrary: c)
  case (Cons e chunks)
  obtain off d where e: "e = (off, d)" by (cases e)
  have fit: "off + length d \<le> length (content (cs_inner c))" using Cons.prems(2) e by (simp add: writes_fit_def)
  obtain s' where s': "st_write st (cs_inner c) off d = (Inr (), s')" "good s'"
      "content s' = overwrite (content (cs_inner c)) off d"
    using write_ok [OF Cons.prems(1) fit] by blast
  let ?c = "c\<lparr>cs_inner := s', coalesced_write_operations := coalesced_write_operations c + 1,
    bytes_flushed_to_storage := bytes_flushed_to_storage c + length d\<rparr>"
  have "writes_fit (length (content (cs_inner ?c))) chunks"
    using Cons.prems(2) s'(3) fit by (simp add: writes_fit_def)
  from Cons.IH [OF _ this] s' e show ?case by simp
qed simp

lemma flush_ok:
  assumes good: "cache_good good content c"
  shows "\<exists>c'. flush_internal st r c = (Inr (), c') \<and> cache_good good content c'
    \<and> cache_content content c' = cache_content content c
    \<and> cs_blocks c' = mark_clean r (cs_blocks c) \<and> max_cache_bytes c' = max_cache_bytes c
    \<and> content (cs_inner c') = cached_view (filter (flushable r) (cs_blocks c)) (content (cs_inner c))"
proof -
  let ?bs = "cs_blocks c" and ?base = "content (cs_inner c)"
  let ?sel = "filter (flushable r) ?bs" and ?ws = "map (\<lambda>e. (fst e, cb_data (snd e))) (filter (flushable r) ?bs)"
  have dis: "disjoint_blocks ?bs" and fit: "blocks_fit ?bs (length ?base)" and clean: "clean_ok ?bs ?base"
    using good by (auto simp: cache_good_def)
  note sel = disjoint_filter [OF dis, of "flushable r"] fit_filter [OF fit, of "flushable r"]
  have wf: "writes_fit (length ?base) ?ws"
    using blocks_fitD [OF sel(2)] by (auto simp: writes_fit_def)
  show ?thesis
  proof (cases "?sel = []")
    case True
    then have "mark_clean r ?bs = ?bs"
      by (auto simp: mark_clean_def filter_empty_conv intro: map_idI)
    moreover have "cached_view [] ?base = ?base" using apply_writes_view [of "[]" ?base] by simp
    ultimately show ?thesis using True good by (simp add: flush_internal_def Let_def)
  next
    case False
    obtain c1 where c1: "write_chunks st (coalesce ?ws) c = (Inr (), c1)" "good (cs_inner c1)"
        "content (cs_inner c1) = cached_view ?sel ?base" "cs_blocks c1 = ?bs"
        "max_cache_bytes c1 = max_cache_bytes c" "current_cached_bytes c1 = current_cached_bytes c"
        "current_dirty_bytes c1 = current_dirty_bytes c"
      using write_chunks_ok [OF _ coalesce_writes(2) [OF wf]] good coalesce_writes(1) [OF wf]
        apply_writes_view [OF sel] by (auto simp: cache_good_def)
    let ?c = "c1\<lparr>cs_blocks := mark_clean r ?bs, current_dirty_bytes := current_dirty_bytes c - block_bytes ?sel,
      flushes_performed := flushes_performed c1 + 1\<rparr>"
    have "flush_internal st r c = (Inr (), ?c)"
      using False c1 by (simp add: flush_internal_def Let_def)
    moreover have "cache_good good content ?c"
      using good c1 flush_clean [OF dis fit clean c1(3)] flush_dirty_bytes [of r ?bs]
        same_data(1-3) [OF mark_clean_data [of r ?bs]]
      by (simp add: cache_good_def)
    moreover have "cache_content content ?c = cache_content content c"
      using flush_view [OF dis c1(3)] by (simp add: cache_content_def)
    ultimately show ?thesis using c1 by simp
  qed
qed

lemma flush_all_ok:
  assumes good: "cache_good good content c"
  shows "\<exists>c'. flush_all st c = (Inr (), c') \<and> cache_good good content c'
    \<and> cache_content content c' = cache_content content c
    \<and> content (cs_inner c') = cache_content content c
    \<and> current_dirty_bytes c' = 0 \<and> (\<forall>e\<in>set (cs_blocks c'). \<not> cb_dirty (snd e))
    \<and> max_cache_bytes c' = max_cache_bytes c"
proof -
  obtain c' where c': "flush_internal st None c = (Inr (), c')" "cache_good good content c'"
      "cache_content content c' = cache_content content c" "cs_blocks c' = mark_clean None (cs_blocks c)"
      "content (cs_inner c') = cached_view (filter (flushable None) (cs_blocks c)) (content (cs_inner c))"
      "max_cache_bytes c' = max_cache_bytes c"
    using flush_ok [OF good] by metis
  have flushable: "flushable None e = cb_dirty (snd e)" for e
    by (simp add: flushable_def in_range_filter_def)
  have clean: "\<forall>e\<in>set (cs_blocks c'). \<not> cb_dirty (snd e)"
    unfolding c'(4) mark_clean_entries by (auto simp: flushable)
  moreover have "content (cs_inner c') = cache_content content c"
    using c'(5) view_forget_clean [of "cs_blocks c" "content (cs_inner c)" "flushable None"] good
    by (simp add: cache_content_def cache_good_def flushable)
  moreover have "current_dirty_bytes c' = 0"
    using c'(2) clean by (simp add: cache_good_def filter_empty_conv [THEN iffD2])
  ultimately show ?thesis using c' by (simp add: flush_all_def)
qed

lemma evict_ok:
  assumes good: "cache_good good content c"
  shows "\<exists>c'. evict_if_needed st c = (Inr (), c') \<and> cache_good good content c'
    \<and> cache_content content c' = cache_content content c
    \<and> current_cached_bytes c' \<le> max_cache_bytes c' \<and> max_cache_bytes c' = max_cache_bytes c"
proof (cases "current_cached_bytes c \<le> max_cache_bytes c")
  case True
  then show ?thesis using good by (simp add: evict_if_needed_def)
next
  case False
  have wf: "bt_wf bs \<and> distinct bs" if "cache_good good content c'" "bs = cs_blocks c'" for c' bs
    using that blocks_wf bt_distinct by (auto simp: cache_good_def distinct_map)
  let ?clean = "filter (\<lambda>e. \<not> cb_dirty (snd e)) (cs_blocks c)"
  obtain fin c1 where ev: "evict_loop (lru_order ?clean) c = (fin, c1)" by force
  have "clean_entries (lru_order ?clean) (cs_blocks c)"
    using wf [OF good] by (intro lru_order_entries) auto
  note c1 = evict_loop_good [OF good this ev]
  show ?thesis
  proof (cases "fin \<or> current_cached_bytes c1 \<le> max_cache_bytes c1")
    case True
    then show ?thesis using False ev c1 by (cases fin) (auto simp: evict_if_needed_def)
  next
    case over: False
    obtain c2 where c2: "flush_internal st None c1 = (Inr (), c2)" "cache_good good content c2"
        "cache_content content c2 = cache_content content c1" "\<forall>e\<in>set (cs_blocks c2). \<not> cb_dirty (snd e)"
        "max_cache_bytes c2 = max_cache_bytes c1"
      using flush_all_ok c1 by (metis flush_all_def)
    obtain fin' c3 where ev': "evict_loop (lru_order (cs_blocks c2)) c2 = (fin', c3)" by force
    have "clean_entries (lru_order (cs_blocks c2)) (cs_blocks c2)"
      using wf [OF c2(2)] c2(4) by (intro lru_order_entries) auto
    note c3 = evict_loop_good [OF c2(2) this ev']
    have "current_cached_bytes c3 \<le> max_cache_bytes c3"
    proof (cases fin')
      case False
      have "filter (\<lambda>e. fst e \<notin> fst ` set (lru_order (cs_blocks c2))) (cs_blocks c2) = []"
        unfolding lru_order_fst by (simp add: filter_empty_conv)
      then have "cs_blocks c3 = []" using c3 False by simp
      then show ?thesis using c3 by (simp add: cache_good_def)
    qed (use c3 in simp)
    then show ?thesis using False ev over c1 c2 c3 ev' by (auto simp: evict_if_needed_def)
  qed
qed

lemma cache_write_ok:
  assumes good: "cache_good good content c" and fit: "off + length d \<le> length (cache_content content c)"
    and can: "cache_can_write c off d"
  shows "\<exists>c'. cache_write_block st now c off d = (Inr (), c') \<and> cache_good good content c'
    \<and> cache_content content c' = overwrite (cache_content content c) off d
    \<and> (d \<noteq> [] \<longrightarrow> current_cached_bytes c' \<le> max_cache_bytes c)"
proof (cases "d = []")
  case True
  then show ?thesis using good by (simp add: cache_write_block_def)
next
  case False
  have fit': "off + length d \<le> length (content (cs_inner c))" using fit by (simp add: cache_content_def)
  have "off + length d \<le> U64_MAX" using fit' good by (simp add: cache_good_def)
  moreover have "max_cache_bytes (cache_put now off d c) = max_cache_bytes c"
    by (simp add: cache_put_def Let_def split: option.split)
  ultimately show ?thesis
    using False evict_ok [OF cache_put_good(1) [OF good False fit' can, of now]]
      cache_put_good(2) [OF good False fit' can, of now]
    by (auto simp: cache_write_block_def checked_add_def)
qed

lemma fill_gaps_ok:
  assumes "good s" and "off + length covered \<le> length (content s)" and "length buffer = length covered"
  shows "\<exists>buf s'. fill_gaps st off covered i buffer s = (Inr buf, s') \<and> good s' \<and> content s' = content s
    \<and> length buf = length covered
    \<and> (\<forall>j<length covered. buf ! j = (if i \<le> j \<and> \<not> covered ! j then content s ! (off + j) else buffer ! j))"
  using assms
proof (induction "length covered - i" arbitrary: i buffer s rule: less_induct)
  case less
  show ?case
  proof (cases "i < length covered \<and> \<not> covered ! i")
    case True
    define g where "g = length (takeWhile Not (drop i covered))"
    note g = gap_run [of i covered g, OF _ _ g_def]
    have fit: "off + i + g \<le> length (content s)" using g True less.prems(2) by simp
    let ?d = "bslice (content s) (off + i) (off + i + g)"
    obtain s' where s': "st_read st s (off + i) g = (Inr ?d, s')" "good s'" "content s' = content s"
      using read_ok [OF less.prems(1) fit] by blast
    have len: "length ?d = g" using fit by simp
    then have buf: "length (overwrite buffer i ?d) = length covered" using g True less.prems(3) by simp
    have dec: "length covered - (i + g) < length covered - i" using g True by simp
    obtain buf t where r: "fill_gaps st off covered (i + g) (overwrite buffer i ?d) s' = (Inr buf, t)"
        "good t" "content t = content s" "length buf = length covered"
        "\<forall>j<length covered. buf ! j = (if i + g \<le> j \<and> \<not> covered ! j then content s ! (off + j)
          else overwrite buffer i ?d ! j)"
      using less.hyps [OF dec s'(2) less.prems(2) [folded s'(3)] buf] unfolding s'(3) by blast
    have "buf ! j = (if i \<le> j \<and> \<not> covered ! j then content s ! (off + j) else buffer ! j)"
      if j: "j < length covered" for j
    proof -
      have "overwrite buffer i ?d ! j = (if i \<le> j \<and> j < i + g then content s ! (off + j) else buffer ! j)"
        using g True j less.prems(3) len fit by (subst nth_overwrite) (auto simp: bslice_def)
      moreover have "\<not> covered ! j" if "i \<le> j" "j < i + g" using g True that by blast
      ultimately show ?thesis using r(5) j by auto
    qed
    moreover have "fill_gaps st off covered i buffer s = (Inr buf, t)"
      using True r(1) s'(1) by (subst fill_gaps.simps) (simp add: Let_def g_def [symmetric])
    ultimately show ?thesis using r(2-4) by blast
  next
    case False
    show ?thesis
    proof (cases "i < length covered")
      case True
      then have dec: "length covered - (i + 1) < length covered - i" by simp
      obtain buf t where r: "fill_gaps st off covered (i + 1) buffer s = (Inr buf, t)"
          "good t" "content t = content s" "length buf = length covered"
          "\<forall>j<length covered. buf ! j = (if i + 1 \<le> j \<and> \<not> covered ! j then content s ! (off + j) else buffer ! j)"
        using less.hyps [OF dec less.prems] by blast
      moreover have "i + 1 \<le> j \<and> \<not> covered ! j \<longleftrightarrow> i \<le> j \<and> \<not> covered ! j" for j
        using False True by (cases "i = j") auto
      moreover have "fill_gaps st off covered i buffer s = fill_gaps st off covered (i + 1) buffer s"
        using True False by (subst fill_gaps.simps) simp
      ultimately show ?thesis by simp
    next
      case False
      then have "fill_gaps st off covered i buffer s = (Inr buffer, s)" by (subst fill_gaps.simps) simp
      then show ?thesis using False less.prems by auto
    qed
  qed
qed

lemma cache_read_overlay_ok:
  assumes good: "cache_good good content c" and n: "0 < length buffer"
    and fit: "off + length buffer \<le> length (content (cs_inner c))"
  shows "\<exists>c'. cache_read_overlay st now buffer (off + length buffer) c off =
      (Inr (bslice (cache_content content c) off (off + length buffer)), c')
    \<and> good (cs_inner c') \<and> content (cs_inner c') = content (cs_inner c)
    \<and> cs_blocks c' = touch_overlapping now off (off + length buffer) (cs_blocks c)
    \<and> current_cached_bytes c' = current_cached_bytes c \<and> current_dirty_bytes c' = current_dirty_bytes c"
proof -
  let ?n = "length buffer" and ?bs = "cs_blocks c" and ?base = "content (cs_inner c)"
  define acc where "acc = foldl (overlay_step off (off + ?n)) (buffer, replicate ?n False) ?bs"
  define view where "view = bslice (cache_content content c) off (off + ?n)"
  have "disjoint_blocks ?bs" "blocks_fit ?bs (length ?base)" using good by (auto simp: cache_good_def)
  note ov = overlay_fold_nth [OF this n, of "(buffer, replicate ?n False)" off, folded acc_def,
      unfolded fst_conv snd_conv]
  have len: "length (fst acc) = ?n" "length (snd acc) = ?n" "length view = ?n"
    using ov fit by (auto simp: view_def cache_content_def)
  have view: "view ! j = byte_at ?bs ?base (off + j)" if "j < ?n" for j
    using that fit by (simp add: view_def bslice_def cache_content_def)
  have fst: "fst acc ! j = (case find (\<lambda>e. covers e (off + j)) ?bs of
      Some e \<Rightarrow> cb_data (snd e) ! (off + j - fst e) | None \<Rightarrow> buffer ! j)"
    and snd: "snd acc ! j \<longleftrightarrow> (\<exists>e\<in>set ?bs. covers e (off + j))" if "j < ?n" for j
    using ov that by simp_all
  have covered: "view ! j = fst acc ! j" if j: "j < ?n" "snd acc ! j" for j
  proof -
    obtain e where "find (\<lambda>e. covers e (off + j)) ?bs = Some e"
      using snd [OF j(1)] j(2) by (metis find_None_iff option.exhaust)
    then show ?thesis using view [OF j(1)] fst [OF j(1)] by (simp add: byte_at_def)
  qed
  have uncovered: "view ! j = ?base ! (off + j)" if j: "j < ?n" "\<not> snd acc ! j" for j
    using view [OF j(1)] snd [OF j(1)] j(2) by (simp add: byte_at_uncovered)
  have inner: "good (cs_inner c)" using good by (simp add: cache_good_def)
  show ?thesis
  proof (cases "list_all id (snd acc)")
    case True
    then have "fst acc = view"
      by (intro nth_equalityI) (simp_all add: len covered list_all_length)
    then show ?thesis
      using True good by (simp add: cache_read_overlay_def Let_def acc_def [symmetric] view_def cache_good_def)
  next
    case False
    obtain buf s' where r: "fill_gaps st off (snd acc) 0 (fst acc) (cs_inner c) = (Inr buf, s')"
        "good s'" "content s' = ?base" "length buf = ?n"
        "\<forall>j<?n. buf ! j = (if 0 \<le> j \<and> \<not> snd acc ! j then ?base ! (off + j) else fst acc ! j)"
      using fill_gaps_ok [OF inner, of off "snd acc" "fst acc" 0] fit unfolding len by blast
    have "buf = view"
      by (intro nth_equalityI) (use r(4,5) in \<open>simp_all add: len covered uncovered\<close>)
    then show ?thesis
      using False r(1-3) by (simp add: cache_read_overlay_def Let_def acc_def [symmetric] view_def)
  qed
qed

lemma cache_read_ok:
  assumes good: "cache_good good content c" and fit: "off + length buffer \<le> length (cache_content content c)"
  shows "\<exists>c'. cache_read_block st now buffer c off =
      (Inr (bslice (cache_content content c) off (off + length buffer)), c')
    \<and> cache_good good content c' \<and> cache_content content c' = cache_content content c"
proof (cases "length buffer = 0")
  case True
  then show ?thesis using good by (simp add: cache_read_block_def)
next
  case False
  have fit': "off + length buffer \<le> length (content (cs_inner c))" using fit by (simp add: cache_content_def)
  have chk: "checked_add U64_MAX off (length buffer) = Some (off + length buffer)"
    using fit' good by (simp add: checked_add_def cache_good_def)
  have dis: "disjoint_blocks (cs_blocks c)" "bt_wf (cs_blocks c)"
    using good blocks_wf by (auto simp: cache_good_def)
  have touched: "cache_good good content c' \<and> cache_content content c' = cache_content content c"
    if "map erase_time (cs_blocks c') = map erase_time (cs_blocks c)" "good (cs_inner c')"
      "content (cs_inner c') = content (cs_inner c)" "current_cached_bytes c' = current_cached_bytes c"
      "current_dirty_bytes c' = current_dirty_bytes c" for c'
    using touched_blocks [OF that(1)] good that(2-) by (simp add: cache_good_def cache_content_def)
  show ?thesis
  proof (cases "cache_read_exact now (length buffer) c off")
    case None
    obtain c' where r: "cache_read_overlay st now buffer (off + length buffer) c off =
          (Inr (bslice (cache_content content c) off (off + length buffer)), c')"
        "good (cs_inner c')" "content (cs_inner c') = content (cs_inner c)"
        "cs_blocks c' = touch_overlapping now off (off + length buffer) (cs_blocks c)"
        "current_cached_bytes c' = current_cached_bytes c" "current_dirty_bytes c' = current_dirty_bytes c"
      using cache_read_overlay_ok [OF good _ fit'] False by blast
    have "map erase_time (cs_blocks c') = map erase_time (cs_blocks c)"
      by (simp add: r(4) touch_overlapping_def erase_time_def)
    from touched [OF this r(2,3,5,6)] show ?thesis
      using None False chk r(1) by (simp add: cache_read_block_def)
  next
    case (Some dc)
    then obtain b where b: "map_of (cs_blocks c) off = Some b" "length buffer \<le> length (cb_data b)"
        "dc = (take (length buffer) (cb_data b),
           c\<lparr>cs_blocks := bt_insert off (b\<lparr>cb_last_accessed := now\<rparr>) (cs_blocks c), cache_hits := cache_hits c + 1\<rparr>)"
      by (auto simp: cache_read_exact_def split: option.splits if_splits)
    have mem: "(off, b) \<in> set (cs_blocks c)" using b(1) map_of_bt [OF dis(2)] by simp
    have data: "take (length buffer) (cb_data b) = bslice (cache_content content c) off (off + length buffer)"
    proof (rule nth_equalityI)
      fix k assume "k < length (take (length buffer) (cb_data b))"
      then have "k < length buffer" "covers (off, b) (off + k)" using b(2) by (auto simp: covers_def)
      then show "take (length buffer) (cb_data b) ! k = bslice (cache_content content c) off (off + length buffer) ! k"
        using byte_at_covered [OF dis(1) mem, of "off + k"] fit' by (simp add: bslice_def cache_content_def)
    qed (use b(2) fit in simp)
    have "map erase_time (cs_blocks (snd dc)) = map erase_time (cs_blocks c)"
      using erase_bt_insert [OF dis(2) mem] b(3) by simp
    from touched [OF this] good b(3) data Some False chk show ?thesis
      by (simp add: cache_read_block_def cache_good_def)
  qed
qed

end

definition cached_storage :: "'s BlockStorage \<Rightarrow> nat \<Rightarrow> 's CachedBlockStorage BlockStorage" where
  "cached_storage st now = \<lparr>st_write = cache_write_block st now,
     st_read = (\<lambda>c off n. cache_read_block st now (replicate n 0) c off),
     st_flush = flush_all st, st_discard = (\<lambda>c off n. cache_discard_range off n c)\<rparr>"

sublocale free_storage \<subseteq> cached: block_storage "cached_storage st now" "cache_good good content"
    "cache_content content" cache_can_write for now
proof
  show "\<exists>c'. st_write (cached_storage st now) c off d = (Inr (), c') \<and> cache_good good content c'
      \<and> cache_content content c' = overwrite (cache_content content c) off d"
    if "cache_good good content c" "off + length d \<le> length (cache_content content c)" "cache_can_write c off d"
    for c off d
    using cache_write_ok [OF that] by (force simp: cached_storage_def)
  show "\<exists>c'. st_read (cached_storage st now) c off n =
        (Inr (bslice (cache_content content c) off (off + n)), c') \<and> cache_good good content c'
      \<and> cache_content content c' = cache_content content c"
    if "cache_good good content c" "off + n \<le> length (cache_content content c)" for c off n
    using cache_read_ok [of c off "replicate n 0"] that by (simp add: cached_storage_def)
qed

interpretation cached_disk: free_storage disk_block_storage dbs_good dbs_content ..

section \<open>Discarding unverified blocks\<close>

lemma discard_one_good:
  assumes good: "cache_good good content c"
  shows "cache_good good content (discard_one off c)
    \<and> cs_blocks (discard_one off c) = bt_remove off (cs_blocks c) \<and> cs_inner (discard_one off c) = cs_inner c"
proof (cases "map_of (cs_blocks c) off")
  case None
  then have "bt_remove off (cs_blocks c) = cs_blocks c"
    by (auto simp: bt_remove_def filter_id_conv map_of_eq_None_iff)
  then show ?thesis using None good by (simp add: discard_one_def)
next
  case (Some b)
  have bt: "bt_wf (cs_blocks c)" using good blocks_wf by (auto simp: cache_good_def)
  have mem: "(off, b) \<in> set (cs_blocks c)" using Some map_of_bt [OF bt] by simp
  show ?thesis
    using Some good block_bytes_bt_remove [OF bt mem, of "\<lambda>_. True"]
      block_bytes_bt_remove [OF bt mem, of "\<lambda>e. cb_dirty (snd e)"]
    by (simp add: discard_one_def cache_good_def)
      (simp add: bt_remove_def disjoint_filter fit_filter clean_filter)
qed

lemma discard_fold_good:
  assumes "cache_good good content c"
  shows "cache_good good content (foldl (\<lambda>c off. discard_one off c) c offs)
    \<and> cs_blocks (foldl (\<lambda>c off. discard_one off c) c offs) = filter (\<lambda>e. fst e \<notin> set offs) (cs_blocks c)
    \<and> cs_inner (foldl (\<lambda>c off. discard_one off c) c offs) = cs_inner c"
  using assms
proof (induction offs arbitrary: c)
  case (Cons off offs)
  note one = discard_one_good [OF Cons.prems, of off]
  show ?case
    using Cons.IH [of "discard_one off c"] one by (auto simp: bt_remove_def intro: filter_cong)
qed simp

lemma discard_range_good:
  assumes good: "cache_good good content c"
  shows "cache_good good content (cache_discard_range start len c)
    \<and> cs_blocks (cache_discard_range start len c) =
        filter (\<lambda>e. \<not> (start \<le> fst e \<and> fst e < saturating_add U64_MAX start len)) (cs_blocks c)
    \<and> cs_inner (cache_discard_range start len c) = cs_inner c"
proof -
  let ?in = "\<lambda>off. start \<le> off \<and> off < saturating_add U64_MAX start len"
  have "filter (\<lambda>e. fst e \<notin> set (filter ?in (map fst (cs_blocks c)))) (cs_blocks c) =
      filter (\<lambda>e. \<not> ?in (fst e)) (cs_blocks c)"
    by (rule filter_cong) auto
  then show ?thesis
    using discard_fold_good [OF good, of "filter ?in (map fst (cs_blocks c))"]
    by (simp add: cache_discard_range_def Let_def)
qed

section \<open>Runs of operations\<close>

datatype CacheOp = CacheWrite nat bytes | CacheRead nat nat | CacheFlush | CacheFlushRange nat nat

datatype CacheResult = Wrote "unit result" | Got "bytes result"

fun cache_op :: "'s BlockStorage \<Rightarrow> nat \<Rightarrow> CacheOp \<Rightarrow> 's CachedBlockStorage \<Rightarrow>
    CacheResult \<times> 's CachedBlockStorage" where
  "cache_op st now (CacheWrite off d) c = apfst Wrote (cache_write_block st now c off d)"
| "cache_op st now (CacheRead off n) c = apfst Got (cache_read_block st now (replicate n 0) c off)"
| "cache_op st now CacheFlush c = apfst Wrote (flush_all st c)"
| "cache_op st now (CacheFlushRange start len) c = apfst Wrote (flush_range st start len c)"

fun run_cache :: "'s BlockStorage \<Rightarrow> nat \<Rightarrow> CacheOp list \<Rightarrow> 's CachedBlockStorage \<Rightarrow>
    CacheResult list \<times> 's CachedBlockStorage" where
  "run_cache st now [] c = ([], c)"
| "run_cache st now (op # ops) c = (case cache_op st now op c of
     (r, c') \<Rightarrow> apfst ((#) r) (run_cache st (now + 1) ops c'))"

text \<open>The specification: the same operations on a plain array.\<close>

fun array_op :: "CacheOp \<Rightarrow> bytes \<Rightarrow> CacheResult \<times> bytes" where
  "array_op (CacheWrite off d) a = (Wrote (Inr ()), overwrite a off d)"
| "array_op (CacheRead off n) a = (Got (Inr (bslice a off (off + n))), a)"
| "array_op CacheFlush a = (Wrote (Inr ()), a)"
| "array_op (CacheFlushRange start len) a = (Wrote (Inr ()), a)"

fun run_array :: "CacheOp list \<Rightarrow> bytes \<Rightarrow> CacheResult list \<times> bytes" where
  "run_array [] a = ([], a)"
| "run_array (op # ops) a = (case array_op op a of (r, a') \<Rightarrow> apfst ((#) r) (run_array ops a'))"

text \<open>
  Accesses stay inside the array, and blocks are written on a fixed grid: two writes address
  the same range or disjoint ranges.
\<close>

fun op_fits :: "nat \<Rightarrow> CacheOp \<Rightarrow> bool" where
  "op_fits n (CacheWrite off d) = (off + length d \<le> n)"
| "op_fits n (CacheRead off k) = (off + k \<le> n)"
| "op_fits n _ = True"

fun written_range :: "CacheOp \<Rightarrow> (nat \<times> nat) list" where
  "written_range (CacheWrite off d) = [(off, length d)]"
| "written_range _ = []"

definition grid :: "(nat \<times> nat) set \<Rightarrow> bool" where
  "grid R \<longleftrightarrow> (\<forall>(a, m)\<in>R. \<forall>(b, n)\<in>R. (a, m) = (b, n) \<or> (a \<noteq> b \<and> (a + m \<le> b \<or> b + n \<le> a)))"

definition trace_ok :: "nat \<Rightarrow> CacheOp list \<Rightarrow> bool" where
  "trace_ok n ops \<longleftrightarrow> list_all (op_fits n) ops \<and> grid (set (concat (map written_range ops)))"

abbreviation shapes :: "(nat \<times> CacheBlock) list \<Rightarrow> (nat \<times> nat) set" where
  "shapes bs \<equiv> (\<lambda>e. (fst e, length (cb_data (snd e)))) ` set bs"

lemma shapes_evict: "shapes (cs_blocks (snd (evict_loop es c))) \<subseteq> shapes (cs_blocks c)"
proof (induction es c rule: evict_loop.induct)
  case (2 off sz es c)
  let ?c = "c\<lparr>cs_blocks := bt_remove off (cs_blocks c), current_cached_bytes := current_cached_bytes c - sz\<rparr>"
  have "shapes (cs_blocks ?c) \<subseteq> shapes (cs_blocks c)" by (auto simp: bt_remove_def)
  then show ?case
    using subset_trans [OF 2 [OF refl]] by (cases "current_cached_bytes ?c \<le> max_cache_bytes ?c") (simp_all add: Let_def)
qed simp

lemma shapes_mark_clean: "shapes (mark_clean r bs) = shapes bs"
  unfolding mark_clean_entries image_image by (rule image_cong) auto

lemma write_chunks_blocks: "cs_blocks (snd (write_chunks st chunks c)) = cs_blocks c"
  by (induction st chunks c rule: write_chunks.induct) (auto split: sum.split prod.split)

lemma shapes_flush: "shapes (cs_blocks (snd (flush_internal st r c))) = shapes (cs_blocks c)"
  using write_chunks_blocks [of st "coalesce (map (\<lambda>e. (fst e, cb_data (snd e))) (filter (flushable r) (cs_blocks c)))" c]
  by (auto simp: flush_internal_def Let_def shapes_mark_clean split: prod.split sum.split)

lemma shapes_evict_if_needed: "shapes (cs_blocks (snd (evict_if_needed st c))) \<subseteq> shapes (cs_blocks c)"
proof -
  obtain fin c1 where ev: "evict_loop (lru_order (filter (\<lambda>e. \<not> cb_dirty (snd e)) (cs_blocks c))) c = (fin, c1)"
    by force
  obtain r c2 where fl: "flush_internal st None c1 = (r, c2)" by force
  have 1: "shapes (cs_blocks c1) \<subseteq> shapes (cs_blocks c)"
    using shapes_evict [of "lru_order (filter (\<lambda>e. \<not> cb_dirty (snd e)) (cs_blocks c))" c] ev by simp
  have 2: "shapes (cs_blocks c2) \<subseteq> shapes (cs_blocks c)"
    using shapes_flush [of st None c1] fl 1 by simp
  have 3: "shapes (cs_blocks (snd (evict_loop (lru_order (cs_blocks c2)) c2))) \<subseteq> shapes (cs_blocks c)"
    using shapes_evict 2 by (rule subset_trans)
  show ?thesis
    using ev fl 1 2 3 by (cases r; cases fin) (simp_all add: evict_if_needed_def)
qed

lemma shapes_write:
  assumes "bt_wf (cs_blocks c)"
  shows "shapes (cs_blocks (snd (cache_write_block st now c off d))) \<subseteq> insert (off, length d) (shapes (cs_blocks c))"
proof -
  have "shapes (cs_blocks (cache_put now off d c)) \<subseteq> insert (off, length d) (shapes (cs_blocks c))"
    using set_bt_insert [OF assms] by (auto simp: cache_put_def Let_def split: option.split)
  from subset_trans [OF shapes_evict_if_needed this]
  have "shapes (cs_blocks (snd (evict_if_needed st (cache_put now off d c)))) \<subseteq>
      insert (off, length d) (shapes (cs_blocks c))" .
  then show ?thesis by (auto simp: cache_write_block_def split: option.split)
qed

lemma shapes_touch: "shapes (touch_overlapping now a z bs) = shapes bs"
  unfolding touch_overlapping_def set_map image_image by (rule image_cong) auto

lemma read_frame:
  assumes "bt_wf (cs_blocks c)" and "cache_read_block st now buffer c off = (r, c')"
  shows "max_cache_bytes c' = max_cache_bytes c" and "current_cached_bytes c' = current_cached_bytes c"
    and "shapes (cs_blocks c') \<subseteq> shapes (cs_blocks c)"
proof -
  have exact: "shapes (bt_insert off (b\<lparr>cb_last_accessed := now\<rparr>) (cs_blocks c)) \<subseteq> shapes (cs_blocks c)"
    if b: "map_of (cs_blocks c) off = Some b" for b
  proof -
    have "(off, b) \<in> set (cs_blocks c)" using b map_of_bt [OF assms(1)] by simp
    then have "(off, length (cb_data b)) \<in> shapes (cs_blocks c)" by (rule rev_image_eqI) simp
    then show ?thesis unfolding set_bt_insert [OF assms(1)] by auto
  qed
  have overlay: "max_cache_bytes (snd x) = max_cache_bytes c \<and> current_cached_bytes (snd x) = current_cached_bytes c
      \<and> shapes (cs_blocks (snd x)) = shapes (cs_blocks c)"
    if "x = cache_read_overlay st now buffer en c off" for x en
    using that by (simp add: cache_read_overlay_def Let_def shapes_touch split: prod.split sum.split)
  have "max_cache_bytes c' = max_cache_bytes c \<and> current_cached_bytes c' = current_cached_bytes c
    \<and> shapes (cs_blocks c') \<subseteq> shapes (cs_blocks c)"
  proof (cases "cache_read_exact now (length buffer) c off")
    case None
    then consider "c' = c" | en where "cache_read_overlay st now buffer en c off = (r, c')"
      using assms(2) by (cases "buffer = []"; cases "checked_add U64_MAX off (length buffer)")
        (simp_all add: cache_read_block_def)
    then show ?thesis
    proof cases
      case 2
      then show ?thesis using overlay [OF refl, of en] by simp
    qed simp
  next
    case (Some dc)
    then obtain b where "map_of (cs_blocks c) off = Some b"
        "snd dc = c\<lparr>cs_blocks := bt_insert off (b\<lparr>cb_last_accessed := now\<rparr>) (cs_blocks c),
           cache_hits := cache_hits c + 1\<rparr>"
      by (auto simp: cache_read_exact_def split: if_splits option.splits)
    then have "max_cache_bytes (snd dc) = max_cache_bytes c \<and> current_cached_bytes (snd dc) = current_cached_bytes c
        \<and> shapes (cs_blocks (snd dc)) \<subseteq> shapes (cs_blocks c)"
      using exact by simp
    moreover have "c' = c \<or> c' = snd dc" using assms(2) Some
      by (cases dc) (auto simp: cache_read_block_def split: if_splits option.splits)
    ultimately show ?thesis by auto
  qed
  then show "max_cache_bytes c' = max_cache_bytes c" and "current_cached_bytes c' = current_cached_bytes c"
    and "shapes (cs_blocks c') \<subseteq> shapes (cs_blocks c)" by auto
qed

lemma grid_can_write:
  assumes "grid R" and "shapes (cs_blocks c) \<subseteq> R" and "(off, length d) \<in> R"
  shows "cache_can_write c off d"
proof -
  have "if fst e = off then length (cb_data (snd e)) \<le> length d
      else fst e + length (cb_data (snd e)) \<le> off \<or> off + length d \<le> fst e" if "e \<in> set (cs_blocks c)" for e
  proof -
    have "(fst e, length (cb_data (snd e))) \<in> R" using assms(2) that by blast
    then show ?thesis using assms(1,3) by (fastforce simp: grid_def)
  qed
  then show ?thesis by (auto simp: cache_can_write_def list_all_iff Let_def)
qed

lemma flush_max: "max_cache_bytes (snd (flush_internal st r c)) = max_cache_bytes c"
proof -
  have "max_cache_bytes (snd (write_chunks st chunks c)) = max_cache_bytes c" for chunks
    by (induction st chunks c rule: write_chunks.induct) (auto split: sum.split prod.split)
  from this [of "coalesce (map (\<lambda>e. (fst e, cb_data (snd e))) (filter (flushable r) (cs_blocks c)))"]
  show ?thesis by (auto simp: flush_internal_def Let_def split: prod.split sum.split)
qed

lemma evict_loop_max: "max_cache_bytes (snd (evict_loop es c)) = max_cache_bytes c"
  by (induction es c rule: evict_loop.induct) (auto simp: Let_def)

lemma write_max: "max_cache_bytes (snd (cache_write_block st now c off d)) = max_cache_bytes c"
proof -
  have ev: "max_cache_bytes (snd (evict_if_needed st c)) = max_cache_bytes c" for c
  proof -
    obtain fin c1 where 1: "evict_loop (lru_order (filter (\<lambda>e. \<not> cb_dirty (snd e)) (cs_blocks c))) c = (fin, c1)"
      by force
    obtain r c2 where 2: "flush_internal st None c1 = (r, c2)" by force
    have "max_cache_bytes c1 = max_cache_bytes c" "max_cache_bytes c2 = max_cache_bytes c1"
      using evict_loop_max [of "lru_order (filter (\<lambda>e. \<not> cb_dirty (snd e)) (cs_blocks c))" c] 1
        flush_max [of st None c1] 2 by simp_all
    then show ?thesis
      using 1 2 by (cases r; cases fin) (simp_all add: evict_if_needed_def evict_loop_max)
  qed
  have "max_cache_bytes (cache_put now off d c) = max_cache_bytes c"
    by (simp add: cache_put_def Let_def split: option.split)
  then show ?thesis by (simp add: cache_write_block_def ev split: option.split)
qed

context free_storage
begin

lemma flush_ok_shapes:
  assumes "cache_good good content c"
  shows "\<exists>c'. flush_internal st r c = (Inr (), c') \<and> cache_good good content c'
    \<and> cache_content content c' = cache_content content c \<and> current_cached_bytes c' = current_cached_bytes c
    \<and> max_cache_bytes c' = max_cache_bytes c \<and> shapes (cs_blocks c') = shapes (cs_blocks c)"
proof -
  obtain c' where c': "flush_internal st r c = (Inr (), c')" "cache_good good content c'"
      "cache_content content c' = cache_content content c" "cs_blocks c' = mark_clean r (cs_blocks c)"
      "max_cache_bytes c' = max_cache_bytes c"
    using flush_ok [OF assms] by metis
  have "block_bytes (mark_clean r (cs_blocks c)) = block_bytes (cs_blocks c)"
    by (rule same_data(3) [OF mark_clean_data])
  then have "current_cached_bytes c' = current_cached_bytes c"
    using c'(2,4) assms by (simp add: cache_good_def)
  then show ?thesis using c' shapes_mark_clean [of r "cs_blocks c"] by simp
qed

lemma cache_op_ok:
  assumes good: "cache_good good content c" and bound: "current_cached_bytes c \<le> max_cache_bytes c"
    and grid: "grid R" "shapes (cs_blocks c) \<subseteq> R" "set (written_range op) \<subseteq> R"
    and fits: "op_fits (length (cache_content content c)) op"
    and run: "cache_op st now op c = (r, c')"
  shows "array_op op (cache_content content c) = (r, cache_content content c') \<and> cache_good good content c'
    \<and> current_cached_bytes c' \<le> max_cache_bytes c' \<and> max_cache_bytes c' = max_cache_bytes c
    \<and> shapes (cs_blocks c') \<subseteq> R"
proof (cases op)
  case (CacheWrite off d)
  have can: "cache_can_write c off d" using grid_can_write [OF grid(1,2)] grid(3) CacheWrite by simp
  have fit: "off + length d \<le> length (cache_content content c)" using fits CacheWrite by simp
  obtain c1 where c1: "cache_write_block st now c off d = (Inr (), c1)" "cache_good good content c1"
      "cache_content content c1 = overwrite (cache_content content c) off d"
      "d \<noteq> [] \<longrightarrow> current_cached_bytes c1 \<le> max_cache_bytes c"
    using cache_write_ok [OF good fit can] by blast
  have wf: "bt_wf (cs_blocks c)" using good blocks_wf by (auto simp: cache_good_def)
  have "shapes (cs_blocks c1) \<subseteq> insert (off, length d) (shapes (cs_blocks c))"
    using shapes_write [OF wf, of st now off d] c1(1) by simp
  moreover have "insert (off, length d) (shapes (cs_blocks c)) \<subseteq> R" using grid CacheWrite by simp
  ultimately have "shapes (cs_blocks c1) \<subseteq> R" by (rule subset_trans)
  moreover have "max_cache_bytes c1 = max_cache_bytes c" using write_max [of st now c off d] c1(1) by simp
  moreover have "d = [] \<Longrightarrow> c1 = c" using c1(1) by (simp add: cache_write_block_def)
  ultimately show ?thesis using c1 CacheWrite run bound by (cases "d = []") auto
next
  case (CacheRead off n)
  then have "off + length (replicate n 0) \<le> length (cache_content content c)" using fits by simp
  from cache_read_ok [OF good this, of now] obtain c1 where c1:
      "cache_read_block st now (replicate n 0) c off = (Inr (bslice (cache_content content c) off (off + n)), c1)"
      "cache_good good content c1" "cache_content content c1 = cache_content content c" by auto
  have wf: "bt_wf (cs_blocks c)" using good blocks_wf by (auto simp: cache_good_def)
  note frame = read_frame [OF wf c1(1)]
  show ?thesis using CacheRead run c1 frame grid(2) bound by auto
next
  case CacheFlush
  obtain c1 where c1: "flush_internal st None c = (Inr (), c1)" "cache_good good content c1"
      "cache_content content c1 = cache_content content c" "current_cached_bytes c1 = current_cached_bytes c"
      "max_cache_bytes c1 = max_cache_bytes c" "shapes (cs_blocks c1) = shapes (cs_blocks c)"
    using flush_ok_shapes [OF good] by blast
  have "(r, c') = (Wrote (Inr ()), c1)" using run c1(1) CacheFlush by (simp add: flush_all_def)
  then show ?thesis using CacheFlush c1(2-6) grid(2) bound by simp
next
  case (CacheFlushRange start len)
  obtain c1 where c1: "flush_internal st (Some (start, saturating_add U64_MAX start len)) c = (Inr (), c1)"
      "cache_good good content c1"
      "cache_content content c1 = cache_content content c" "current_cached_bytes c1 = current_cached_bytes c"
      "max_cache_bytes c1 = max_cache_bytes c" "shapes (cs_blocks c1) = shapes (cs_blocks c)"
    using flush_ok_shapes [OF good] by blast
  have "(r, c') = (Wrote (Inr ()), c1)" using run c1(1) CacheFlushRange by (simp add: flush_range_def)
  then show ?thesis using CacheFlushRange c1(2-6) grid(2) bound by simp
qed

lemma run_cache_ok:
  assumes "cache_good good content c" and "current_cached_bytes c \<le> max_cache_bytes c"
    and "grid R" and "shapes (cs_blocks c) \<subseteq> R" and "set (concat (map written_range ops)) \<subseteq> R"
    and "list_all (op_fits (length (cache_content content c))) ops"
    and "run_cache st now ops c = (rs, c')"
  shows "run_array ops (cache_content content c) = (rs, cache_content content c') \<and> cache_good good content c'
    \<and> current_cached_bytes c' \<le> max_cache_bytes c' \<and> max_cache_bytes c' = max_cache_bytes c"
  using assms
proof (induction ops arbitrary: c now rs)
  case (Cons op ops)
  obtain r c1 where op: "cache_op st now op c = (r, c1)" by force
  obtain rs1 where run: "run_cache st (now + 1) ops c1 = (rs1, c')" "rs = r # rs1"
    using Cons.prems(7) op by (cases "run_cache st (now + 1) ops c1") auto
  have "set (written_range op) \<subseteq> R" "op_fits (length (cache_content content c)) op"
    using Cons.prems(5,6) by auto
  note step = cache_op_ok [OF Cons.prems(1-4) this op]
  have "length (cache_content content c1) = length (cache_content content c)"
    using step \<open>op_fits (length (cache_content content c)) op\<close> by (cases op) (auto dest: sym)
  moreover have "list_all (op_fits (length (cache_content content c))) ops" using Cons.prems(6) by simp
  ultimately have "run_array ops (cache_content content c1) = (rs1, cache_content content c') \<and> cache_good good content c'
    \<and> current_cached_bytes c' \<le> max_cache_bytes c' \<and> max_cache_bytes c' = max_cache_bytes c1"
    using step Cons.prems(3,5) run(1) by (intro Cons.IH [of c1 "now + 1" rs1]) auto
  then show ?case using step run(2) by simp
qed auto

lemma cache_new_good:
  assumes "good s" and "length (content s) \<le> U64_MAX"
  shows "cache_good good content (cache_new s mx)" and "cache_content content (cache_new s mx) = content s"
proof -
  show "cache_good good content (cache_new s mx)"
    using assms by (simp add: cache_good_def cache_new_def clean_ok_def)
  show "cache_content content (cache_new s mx) = content s"
    using apply_writes_view [of "[]" "content s"] by (simp add: cache_content_def cache_new_def)
qed

end

section \<open>Properties\<close>

text \<open>
  C14 (\<open>CachedBlockStorage\<close> over \<open>DiskBlockStorage\<close>). For any cache size, a cache over the torrent's
  files is a transparent memory: a run of block writes on a fixed grid, reads of any ranges
  and flushes returns exactly the results of the same run on a plain array, whatever is
  evicted or flushed on the way; the cache never holds more than its limit after an operation;
  and dropping it leaves all the data in the files.
\<close>

theorem cache_refines_array:
  assumes "dbs_good s" and "trace_ok (length (dbs_content s)) ops"
    and "run_cache disk_block_storage now ops (cache_new s mx) = (rs, c)"
  shows "run_array ops (dbs_content s) = (rs, cache_content dbs_content c)
    \<and> current_cached_bytes c \<le> mx
    \<and> dbs_content (cs_inner (cache_drop disk_block_storage c)) = cache_content dbs_content c"
proof -
  have "length (dbs_content s) \<le> U64_MAX"
    using assms(1) length_files_content by (simp add: dbs_good_def dbs_content_def)
  note new = cached_disk.cache_new_good [OF assms(1) this, of mx]
  have "run_array ops (cache_content dbs_content (cache_new s mx)) = (rs, cache_content dbs_content c)
      \<and> cache_good dbs_good dbs_content c \<and> current_cached_bytes c \<le> max_cache_bytes c
      \<and> max_cache_bytes c = max_cache_bytes (cache_new s mx)"
    by (rule cached_disk.run_cache_ok [OF new(1), of "set (concat (map written_range ops))"])
      (use assms(2,3) new(2) in \<open>auto simp: trace_ok_def cache_new_def\<close>)
  then show ?thesis
    using cached_disk.flush_all_ok [of c] new(2) by (auto simp: cache_drop_def cache_new_def)
qed

lemma cache_refines_array_witness:
  "fst (run_cache disk_block_storage 0
      [CacheWrite 0 [1, 2], CacheWrite 2 [3, 4], CacheRead 1 3, CacheFlush, CacheRead 0 5] (cache_new sample_storage 3)) =
    [Wrote (Inr ()), Wrote (Inr ()), Got (Inr [2, 3, 4]), Wrote (Inr ()), Got (Inr [1, 2, 3, 4, 0])]"
proof -
  let ?ops = "[CacheWrite 0 [1, 2], CacheWrite 2 [3, 4], CacheRead 1 3, CacheFlush, CacheRead 0 5]"
  obtain rs c where run: "run_cache disk_block_storage 0 ?ops (cache_new sample_storage 3) = (rs, c)" by force
  have "trace_ok (length (dbs_content sample_storage)) ?ops"
    by (simp add: trace_ok_def grid_def sample_storage_good)
  from cache_refines_array [OF sample_storage_good(1) this run]
  have "rs = [Wrote (Inr ()), Wrote (Inr ()), Got (Inr [2, 3, 4]), Wrote (Inr ()), Got (Inr [1, 2, 3, 4, 0])]"
    by (auto simp: sample_storage_good overwrite_def bslice_def numeral_eq_Suc)
  then show ?thesis using run by (simp only: fst_conv)
qed

text \<open>
  C24 (\<open>CachedBlockStorage::discard_range\<close>). Discarding a range drops exactly the cached blocks that
  start inside it: their bytes read as the files have them, every other byte is unchanged, and
  the files are not written. The cache's invariant and its byte accounting are kept.
\<close>

theorem discard_exact:
  assumes good: "cache_good dbs_good dbs_content c" and i: "i < length (dbs_content (cs_inner c))"
  shows "cache_good dbs_good dbs_content (cache_discard_range start len c)
    \<and> cs_inner (cache_discard_range start len c) = cs_inner c
    \<and> cache_content dbs_content (cache_discard_range start len c) ! i =
        (if \<exists>e\<in>set (cs_blocks c). start \<le> fst e \<and> fst e < saturating_add U64_MAX start len \<and> covers e i
         then dbs_content (cs_inner c) ! i else cache_content dbs_content c ! i)"
proof -
  let ?in = "\<lambda>e. start \<le> fst e \<and> fst e < saturating_add U64_MAX start len"
  let ?keep = "filter (\<lambda>e. \<not> ?in e) (cs_blocks c)" and ?base = "dbs_content (cs_inner c)"
  have dis: "disjoint_blocks (cs_blocks c)" using good by (simp add: cache_good_def)
  note d = discard_range_good [OF good, of start len]
  have "byte_at ?keep ?base i =
      (if \<exists>e\<in>set (cs_blocks c). ?in e \<and> covers e i then ?base ! i else byte_at (cs_blocks c) ?base i)"
  proof (cases "\<exists>e\<in>set (cs_blocks c). covers e i")
    case True
    then obtain e where e: "e \<in> set (cs_blocks c)" "covers e i" by blast
    then have only: "e' \<in> set (cs_blocks c) \<Longrightarrow> covers e' i \<Longrightarrow> e' = e" for e'
      using covers_unique [OF dis] by blast
    show ?thesis
    proof (cases "?in e")
      case True
      then have "\<forall>e'\<in>set ?keep. \<not> covers e' i" using only by auto
      then show ?thesis using byte_at_uncovered e True by auto
    next
      case False
      then have "byte_at ?keep ?base i = byte_at (cs_blocks c) ?base i"
        using byte_at_covered [OF dis e] byte_at_covered [OF disjoint_filter [OF dis], of e _ i] e by simp
      then show ?thesis using False only by auto
    qed
  qed (auto simp: byte_at_uncovered)
  moreover have "cache_content dbs_content (cache_discard_range start len c) ! i = byte_at ?keep ?base i"
    and "cache_content dbs_content c ! i = byte_at (cs_blocks c) ?base i"
    using d i by (simp_all add: cache_content_def)
  ultimately show ?thesis using d by (simp only: conj_assoc)
qed

lemma discard_exact_witness:
  "cache_content dbs_content (cache_discard_range 2 2
      (cache_put 0 2 [7] (cache_put 0 0 [9] (cache_new sample_storage 10)))) ! 2 = 0"
proof -
  let ?c0 = "cache_new sample_storage 10"
  have len: "length (dbs_content sample_storage) = 5" by (simp add: sample_storage_good)
  note good0 = cached_disk.cache_new_good(1) [OF sample_storage_good(1), of 10, unfolded len]
  have good1: "cache_good dbs_good dbs_content (cache_put 0 0 [9] ?c0)"
    by (rule cache_put_good(1)) (use good0 in \<open>simp_all add: len cache_new_def cache_can_write_def U64_MAX_def\<close>)
  have b1: "cs_blocks (cache_put 0 0 [9] ?c0) = [(0, \<lparr>cb_data = [9], cb_dirty = True, cb_last_accessed = 0\<rparr>)]"
    and in1: "cs_inner (cache_put 0 0 [9] ?c0) = sample_storage"
    by (simp_all add: cache_put_def cache_new_def Let_def)
  have good2: "cache_good dbs_good dbs_content (cache_put 0 2 [7] (cache_put 0 0 [9] ?c0))"
    by (rule cache_put_good(1)) (use good1 in \<open>simp_all add: len in1 b1 cache_can_write_def\<close>)
  have b2: "cs_blocks (cache_put 0 2 [7] (cache_put 0 0 [9] ?c0)) =
      [(0, \<lparr>cb_data = [9], cb_dirty = True, cb_last_accessed = 0\<rparr>),
       (2, \<lparr>cb_data = [7], cb_dirty = True, cb_last_accessed = 0\<rparr>)]"
    and in2: "cs_inner (cache_put 0 2 [7] (cache_put 0 0 [9] ?c0)) = sample_storage"
    using b1 in1 by (simp_all add: cache_put_def [of 0 2] Let_def)
  show ?thesis
    using discard_exact [OF good2, of 2 2 2] unfolding b2 in2
    by (simp add: covers_def saturating_add_def U64_MAX_def sample_storage_good)
qed

end
