(* ===== verification/Pipeline_Safety.thy ===== *)
theory Pipeline_Safety
  imports Piece_Processing Disk_Cache
begin

text \<open>
  What the block pipeline guarantees over any storage that is a byte array: peers can send what
  they like, yet a piece that counts as local has its expected hash on storage, and a block with
  data never makes the pipeline panic. The lemmas are proved once for the storage interface
  and hold for the files themselves and for the cache over the files.
\<close>

section \<open>The synchronous check reads what the pool reads\<close>

lemma stream_piece_blocks:
  "stream_piece st off n (concat bs) s =
    (case read_blocks st off n bs s of (Inr blocks, s') \<Rightarrow> (Some (concat blocks), s') | (Inl _, s') \<Rightarrow> (None, s'))"
proof (induction st off n bs s rule: read_blocks.induct)
  case (1 st off n bs s)
  show ?case
  proof (cases "n = 0")
    case True
    then show ?thesis by (simp add: stream_piece.simps read_blocks.simps)
  next
    case False
    show ?thesis
    proof (cases "st_read st s off (min n BLOCK_SIZE)")
      case (Pair r s')
      show ?thesis
      proof (cases r)
        case (Inl e)
        then show ?thesis using False Pair by (subst stream_piece.simps, subst read_blocks.simps) (simp add: Let_def)
      next
        case (Inr d)
        show ?thesis
        proof (cases "length d = min n BLOCK_SIZE")
          case True
          from "1.IH" [OF False refl Pair [symmetric] Inr True]
          show ?thesis
            using False Pair Inr True by (subst stream_piece.simps, subst read_blocks.simps) (simp add: Let_def)
        next
          case False
          then show ?thesis
            using \<open>n \<noteq> 0\<close> Pair Inr by (subst stream_piece.simps, subst read_blocks.simps) (simp add: Let_def)
        qed
      qed
    qed
  qed
qed

lemma hash_matches_iff: "length h = length e \<Longrightarrow> hash_matches h e \<longleftrightarrow> h = e"
  by (induction h e rule: list_induct2) (auto simp: hash_matches_def)

section \<open>Pieces of a context\<close>

definition piece_start :: "TorrentContext \<Rightarrow> u32 \<Rightarrow> nat" where
  "piece_start tc p = unat p * unat (ctx_piece_length tc)"

definition piece_end :: "TorrentContext \<Rightarrow> u32 \<Rightarrow> nat" where
  "piece_end tc p = piece_start tc p + unat (tc_get_piece_length tc p)"

definition piece_hash :: "TorrentContext \<Rightarrow> u32 \<Rightarrow> bytes" where
  "piece_hash tc p = bslice (ctx_pieces_info_hash tc) (unat p * HASH_LENGTH) (unat p * HASH_LENGTH + HASH_LENGTH)"

definition piece_verified :: "(bytes \<Rightarrow> bytes) \<Rightarrow> TorrentContext \<Rightarrow> bytes \<Rightarrow> u32 \<Rightarrow> bool" where
  "piece_verified sha1 tc data p \<longleftrightarrow> sha1 (bslice data (piece_start tc p) (piece_end tc p)) = piece_hash tc p"

text \<open>
  The shape of a torrent on its storage: a hash for every piece, every piece within the data, and
  the buffers of the pieces under assembly well formed.
\<close>

definition layout_ok :: "TorrentContext \<Rightarrow> bytes \<Rightarrow> bool" where
  "layout_ok tc data \<longleftrightarrow> ctx_number_of_pieces tc * HASH_LENGTH \<le> length (ctx_pieces_info_hash tc)
    \<and> (\<forall>p. unat p < ctx_number_of_pieces tc \<longrightarrow> piece_end tc p \<le> length data)"

definition buffers_ok :: "TorrentContext \<Rightarrow> bool" where
  "buffers_ok tc \<longleftrightarrow> (\<forall>p pb. piece_buffers (ctx_assembler tc) p = Some pb \<longrightarrow>
    pb_wf pb \<and> pb_blocks pb = piece_block_count (unat (tc_get_piece_length tc p)))"

definition local_verified :: "(bytes \<Rightarrow> bytes) \<Rightarrow> TorrentContext \<Rightarrow> bytes \<Rightarrow> bool" where
  "local_verified sha1 tc data \<longleftrightarrow>
    (\<forall>p. unat p < ctx_number_of_pieces tc \<and> tc_is_piece_local tc p \<longrightarrow> piece_verified sha1 tc data p)"

text \<open>What these notions read of the context.\<close>

definition same_pieces :: "TorrentContext \<Rightarrow> TorrentContext \<Rightarrow> bool" where
  "same_pieces tc tc' \<longleftrightarrow> ctx_number_of_pieces tc' = ctx_number_of_pieces tc \<and> ctx_piece_length tc' = ctx_piece_length tc
    \<and> ctx_pieces_info_hash tc' = ctx_pieces_info_hash tc \<and> tc_get_piece_length tc' = tc_get_piece_length tc"

lemma same_piecesD:
  assumes "same_pieces tc tc'"
  shows "ctx_number_of_pieces tc' = ctx_number_of_pieces tc" "ctx_piece_length tc' = ctx_piece_length tc"
    "ctx_pieces_info_hash tc' = ctx_pieces_info_hash tc" "tc_get_piece_length tc' p = tc_get_piece_length tc p"
    "piece_start tc' p = piece_start tc p" "piece_end tc' p = piece_end tc p" "piece_hash tc' p = piece_hash tc p"
    "piece_verified sha1 tc' data p = piece_verified sha1 tc data p" "layout_ok tc' data = layout_ok tc data"
proof -
  show A: "ctx_number_of_pieces tc' = ctx_number_of_pieces tc" "ctx_piece_length tc' = ctx_piece_length tc"
    "ctx_pieces_info_hash tc' = ctx_pieces_info_hash tc" "tc_get_piece_length tc' p = tc_get_piece_length tc p" for p
    using assms by (simp_all add: same_pieces_def)
  show B: "piece_start tc' p = piece_start tc p" "piece_end tc' p = piece_end tc p" "piece_hash tc' p = piece_hash tc p" for p
    by (simp_all add: piece_start_def piece_end_def piece_hash_def A)
  show "piece_verified sha1 tc' data p = piece_verified sha1 tc data p" by (simp add: piece_verified_def B)
  show "layout_ok tc' data = layout_ok tc data" by (simp add: layout_ok_def A B)
qed

lemma same_pieces_refl [simp]: "same_pieces tc tc"
  by (simp add: same_pieces_def)

lemma same_pieces_trans: "same_pieces a b \<Longrightarrow> same_pieces b c \<Longrightarrow> same_pieces a c"
  by (simp add: same_pieces_def)

lemma get_piece_length_frame:
  "ctx_piece_data tc' = ctx_piece_data tc \<Longrightarrow> ctx_piece_length tc' = ctx_piece_length tc \<Longrightarrow>
    tc_get_piece_length tc' = tc_get_piece_length tc"
  by (simp add: tc_get_piece_length_def fun_eq_iff)

lemma same_piecesI:
  "ctx_number_of_pieces tc' = ctx_number_of_pieces tc \<Longrightarrow> ctx_piece_length tc' = ctx_piece_length tc \<Longrightarrow>
    ctx_pieces_info_hash tc' = ctx_pieces_info_hash tc \<Longrightarrow> ctx_piece_data tc' = ctx_piece_data tc \<Longrightarrow> same_pieces tc tc'"
  unfolding same_pieces_def by (intro conjI get_piece_length_frame)

lemma pieces_disjoint:
  assumes "tc_wf tc" and "p \<noteq> q"
  shows "piece_end tc p \<le> piece_start tc q \<or> piece_end tc q \<le> piece_start tc p"
proof -
  have len: "unat (tc_get_piece_length tc r) \<le> unat (ctx_piece_length tc)" for r
    using assms(1) by (auto simp: tc_get_piece_length_def tc_wf_def word_le_nat_alt)
  have step: "piece_end tc r \<le> piece_start tc r'" if "unat r < unat r'" for r r'
  proof -
    have "piece_end tc r \<le> Suc (unat r) * unat (ctx_piece_length tc)" using len [of r] by (simp add: piece_end_def piece_start_def)
    also have "\<dots> \<le> piece_start tc r'" unfolding piece_start_def by (rule mult_right_mono) (use that in simp_all)
    finally show ?thesis .
  qed
  have "unat p \<noteq> unat q" using assms(2) word_unat_eq_iff by blast
  then show ?thesis using step [of p q] step [of q p] by linarith
qed

section \<open>Steps that leave the pieces alone\<close>

definition quiet :: "TorrentContext \<Rightarrow> TorrentContext \<Rightarrow> bool" where
  "quiet tc tc' \<longleftrightarrow> same_pieces tc tc' \<and> tc_is_piece_local tc' = tc_is_piece_local tc
    \<and> ctx_config tc' = ctx_config tc \<and> (tc_inv tc \<longrightarrow> tc_inv tc')"

lemma quiet_trans [trans]: "quiet a b \<Longrightarrow> quiet b c \<Longrightarrow> quiet a c"
  unfolding quiet_def using same_pieces_trans [of a b c] by simp

lemma quiet_refl [simp]: "quiet tc tc"
  by (simp add: quiet_def)

lemma quietI:
  assumes "ctx_number_of_pieces tc' = ctx_number_of_pieces tc" "ctx_piece_length tc' = ctx_piece_length tc"
    "ctx_pieces_info_hash tc' = ctx_pieces_info_hash tc" "ctx_piece_data tc' = ctx_piece_data tc"
    "ctx_bitfield tc' = ctx_bitfield tc" "ctx_pieces_missing tc' = ctx_pieces_missing tc"
    "ctx_missing_pieces_count tc' = ctx_missing_pieces_count tc" "ctx_piece_store tc' = ctx_piece_store tc"
    "ctx_piece_manager tc' = ctx_piece_manager tc" "ctx_config tc' = ctx_config tc"
    "ctx_status tc' = ctx_status tc" "ctx_atomic_status tc' = ctx_atomic_status tc"
  shows "quiet tc tc'"
  unfolding quiet_def using assms
  by (auto simp: tc_is_piece_local_def fun_eq_iff tc_inv_def tc_wf_def mirrored_def intro!: same_piecesI)

lemma quiet_frame [simp]:
  "quiet tc (tc\<lparr>ctx_assembler := a\<rparr>)" "quiet tc (tc\<lparr>ctx_endgame_staging := es\<rparr>)" "quiet tc (tc\<lparr>ctx_haves_sent := hs\<rparr>)"
  by (rule quietI; simp)+

lemma quiet_report: "quiet tc (report_bad_peer ip tc)"
  by (rule quietI; simp add: report_bad_peer_def Let_def split: option.split)

lemma quiet_report_all:
  "quiet tc (fold (\<lambda>src tc. case src of Some ip \<Rightarrow> report_bad_peer ip tc | None \<Rightarrow> tc) srcs tc)"
proof (induction srcs arbitrary: tc)
  case (Cons src srcs)
  show ?case
    using quiet_trans [OF quiet_report Cons.IH] Cons.IH by (simp split: option.split)
qed simp

lemma quiet_mark_missing: "quiet tc (tc_mark_piece_missing tc p b)"
  unfolding quiet_def
proof (intro conjI impI)
  show "same_pieces tc (tc_mark_piece_missing tc p b)" by (rule same_piecesI) (simp_all add: tc_mark_piece_missing_simp)
  show "tc_is_piece_local (tc_mark_piece_missing tc p b) = tc_is_piece_local tc"
    by (simp add: tc_mark_piece_missing_simp tc_is_piece_local_def fun_eq_iff ps_mark_piece_missing_def ps_is_piece_local_def)
  show "tc_inv tc \<Longrightarrow> tc_inv (tc_mark_piece_missing tc p b)" by (rule tc_inv_mark_missing)
qed (simp add: tc_mark_piece_missing_simp)

lemma quiet_verifying: "quiet tc (mark_piece_verifying p b tc)"
  unfolding quiet_def
proof (intro conjI impI)
  show "same_pieces tc (mark_piece_verifying p b tc)" by (rule same_piecesI) (simp_all add: mark_piece_verifying_def)
  show "tc_is_piece_local (mark_piece_verifying p b tc) = tc_is_piece_local tc"
    by (simp add: mark_piece_verifying_def tc_is_piece_local_def fun_eq_iff ps_set_piece_verifying_def ps_is_piece_local_def)
  show "tc_inv tc \<Longrightarrow> tc_inv (mark_piece_verifying p b tc)" by (rule tc_inv_verifying)
qed (simp add: mark_piece_verifying_def)

lemma quiet_clear: "quiet tc (tc_clear_piece_requests p tc)"
  by (simp add: tc_clear_piece_requests_def)

lemma quiet_try_complete: "quiet tc (try_complete_download tc)"
  unfolding quiet_def
proof (intro conjI impI)
  show "same_pieces tc (try_complete_download tc)"
    by (rule same_piecesI) (simp_all add: try_complete_download_def set_status_def)
  show "tc_is_piece_local (try_complete_download tc) = tc_is_piece_local tc"
    by (simp add: try_complete_download_def set_status_def tc_is_piece_local_def fun_eq_iff)
  show "tc_inv tc \<Longrightarrow> tc_inv (try_complete_download tc)" by (rule tc_inv_try_complete)
qed (simp add: try_complete_download_def set_status_def emit_def)

lemma quiet_stage: "quiet tc (snd (stage_arrival p bi ip tc))"
  by (auto simp: stage_arrival_def split: prod.split BlockArrivalOutcome.split)

lemma quiet_put_buffer: "quiet tc (put_buffer p pb tc)"
  by (simp add: put_buffer_def)

lemma quiet_broadcast: "quiet tc (broadcast_have p tc)"
  by (simp add: broadcast_have_def)

lemma buffers_of_quiet:
  assumes "same_pieces tc tc'" and "piece_buffers (ctx_assembler tc') = piece_buffers (ctx_assembler tc)"
  shows "buffers_ok tc' = buffers_ok tc"
  using assms same_piecesD(4) [OF assms(1)] by (simp add: buffers_ok_def)

lemma put_buffer_length [simp]: "tc_get_piece_length (put_buffer p pb tc) = tc_get_piece_length tc"
  by (rule get_piece_length_frame) (simp_all add: put_buffer_def)

lemma buffers_put:
  assumes "buffers_ok tc" and "\<And>pb'. pb = Some pb' \<Longrightarrow> pb_wf pb' \<and> pb_blocks pb' = piece_block_count (unat (tc_get_piece_length tc p))"
  shows "buffers_ok (put_buffer p pb tc)"
  using assms same_piecesD(4) [of tc "put_buffer p pb tc"] quiet_put_buffer [of tc p pb]
  by (auto simp: buffers_ok_def put_buffer_def quiet_def)

lemma piece_buffer_of_ok:
  assumes "buffers_ok tc"
  shows "pb_wf (piece_buffer_of p tc)" "pb_blocks (piece_buffer_of p tc) = piece_block_count (unat (tc_get_piece_length tc p))"
  using assms pb_wf_new pb_blocks_new by (auto simp: piece_buffer_of_def buffers_ok_def split: option.split)

text \<open>Data that differ at most in one piece.\<close>

definition changes_only :: "TorrentContext \<Rightarrow> u32 \<Rightarrow> bytes \<Rightarrow> bytes \<Rightarrow> bool" where
  "changes_only tc p data data' \<longleftrightarrow> length data' = length data
    \<and> (\<forall>i<length data. i < piece_start tc p \<or> piece_end tc p \<le> i \<longrightarrow> data' ! i = data ! i)"

lemma changes_only_refl [simp]: "changes_only tc p data data"
  by (simp add: changes_only_def)

lemma changes_only_trans: "changes_only tc p a b \<Longrightarrow> changes_only tc p b c \<Longrightarrow> changes_only tc p a c"
  by (simp add: changes_only_def)

lemma changes_only_same: "same_pieces tc tc' \<Longrightarrow> changes_only tc' p = changes_only tc p"
  by (simp add: changes_only_def fun_eq_iff same_piecesD)

lemma changes_only_other:
  assumes "changes_only tc p data data'" and "tc_wf tc" and "q \<noteq> p" and "piece_end tc q \<le> length data"
  shows "piece_verified sha1 tc data' q = piece_verified sha1 tc data q"
proof -
  have disj: "piece_end tc p \<le> piece_start tc q \<or> piece_end tc q \<le> piece_start tc p"
    using pieces_disjoint [OF assms(2)] assms(3) by blast
  have "bslice data' (piece_start tc q) (piece_end tc q) = bslice data (piece_start tc q) (piece_end tc q)"
  proof (rule nth_equalityI)
    show "length (bslice data' (piece_start tc q) (piece_end tc q)) = length (bslice data (piece_start tc q) (piece_end tc q))"
      using assms(1) by (simp add: changes_only_def)
    fix i assume i: "i < length (bslice data' (piece_start tc q) (piece_end tc q))"
    then have "piece_start tc q + i < piece_end tc q" "piece_start tc q + i < length data"
      using assms(1,4) by (auto simp: changes_only_def)
    then show "bslice data' (piece_start tc q) (piece_end tc q) ! i = bslice data (piece_start tc q) (piece_end tc q) ! i"
      using assms(1) disj by (auto simp: changes_only_def bslice_def)
  qed
  then show ?thesis by (simp add: piece_verified_def)
qed

lemma local_verified_changed:
  assumes "local_verified sha1 tc data" and "changes_only tc p data data'" and "tc_wf tc" and "layout_ok tc data"
    and "quiet tc tc'" and "\<not> tc_is_piece_local tc p"
  shows "local_verified sha1 tc' data'"
  unfolding local_verified_def
proof (intro allI impI)
  fix q assume q: "unat q < ctx_number_of_pieces tc' \<and> tc_is_piece_local tc' q"
  have same: "same_pieces tc tc'" "tc_is_piece_local tc' = tc_is_piece_local tc" using assms(5) by (simp_all add: quiet_def)
  then have l: "tc_is_piece_local tc q" "unat q < ctx_number_of_pieces tc" using q same_piecesD(1) [OF same(1)] by simp_all
  then have "piece_verified sha1 tc data' q"
    using changes_only_other [OF assms(2,3)] assms(1,4,6) by (metis layout_ok_def local_verified_def)
  then show "piece_verified sha1 tc' data' q" using same_piecesD(8) [OF same(1)] by simp
qed

lemma set_same_length: "tc_set_piece_length tc p (tc_get_piece_length tc p) = tc"
  by (auto simp: tc_set_piece_length_def tc_get_piece_length_def)

lemma update_same_pieces: "same_pieces tc (tc_update_bitfield_status tc p b (tc_get_piece_length tc p))"
proof -
  have "same_pieces tc (tc_mark_piece_missing (tc_mark_piece_local (tc\<lparr>ctx_total_bytes_downloaded := d\<rparr>) p b) p c)" for d b c
    by (rule same_piecesI) (simp_all add: tc_mark_piece_missing_simp tc_mark_piece_local_def emit_def Let_def)
  moreover have "tc_get_piece_length (tc\<lparr>ctx_total_bytes_downloaded := d\<rparr>) = tc_get_piece_length tc" for d
    by (rule get_piece_length_frame) simp_all
  then have "tc_set_piece_length (tc\<lparr>ctx_total_bytes_downloaded := d\<rparr>) p (tc_get_piece_length tc p) = tc\<lparr>ctx_total_bytes_downloaded := d\<rparr>" for d
    using set_same_length [of "tc\<lparr>ctx_total_bytes_downloaded := d\<rparr>" p] by simp
  moreover have "same_pieces tc (tc_mark_piece_missing (tc_mark_piece_local tc p b) p c)" for b c
    by (rule same_piecesI) (simp_all add: tc_mark_piece_missing_simp tc_mark_piece_local_def emit_def Let_def)
  ultimately show ?thesis by (simp add: tc_update_bitfield_status_def Let_def set_same_length)
qed

lemma update_keeps:
  "ctx_config (tc_update_bitfield_status tc p b len) = ctx_config tc"
  "ctx_assembler (tc_update_bitfield_status tc p b len) = ctx_assembler tc"
  by (simp_all add: tc_update_bitfield_status_def Let_def tc_mark_piece_missing_simp tc_mark_piece_local_def
      tc_set_piece_length_def emit_def)

lemma buffers_keep:
  "piece_buffers (ctx_assembler (tc_clear_piece_requests p tc)) = piece_buffers (ctx_assembler tc)"
  "ctx_assembler (try_complete_download tc) = ctx_assembler tc"
  "ctx_assembler (broadcast_have p tc) = ctx_assembler tc"
  "ctx_assembler (report_bad_peer ip tc) = ctx_assembler tc"
  "ctx_assembler (tc_mark_piece_missing tc p b) = ctx_assembler tc"
  "ctx_assembler (mark_piece_verifying p b tc) = ctx_assembler tc"
  "ctx_assembler (snd (stage_arrival p bi ip tc)) = ctx_assembler tc"
  by (simp_all add: tc_clear_piece_requests_def as_clear_piece_requests_def try_complete_download_def set_status_def
      broadcast_have_def report_bad_peer_def Let_def tc_mark_piece_missing_simp mark_piece_verifying_def stage_arrival_def
      split: option.split prod.split BlockArrivalOutcome.split)

lemma buffers_keep_all:
  "ctx_assembler (fold (\<lambda>src tc. case src of Some ip \<Rightarrow> report_bad_peer ip tc | None \<Rightarrow> tc) srcs tc) = ctx_assembler tc"
  by (induction srcs arbitrary: tc) (simp_all add: buffers_keep split: option.split)

section \<open>The pipeline over a byte array\<close>

definition pipe_inv :: "(bytes \<Rightarrow> bytes) \<Rightarrow> ('s \<Rightarrow> bool) \<Rightarrow> ('s \<Rightarrow> bytes) \<Rightarrow> TorrentContext \<Rightarrow> 's \<Rightarrow> bool" where
  "pipe_inv sha1 good content tc s \<longleftrightarrow> good s \<and> tc_inv tc \<and> layout_ok tc (content s) \<and> buffers_ok tc
    \<and> local_verified sha1 tc (content s)"

lemma piece_hash_expected:
  assumes "layout_ok tc data" and "unat p < ctx_number_of_pieces tc"
  shows "expected_piece_hash tc p = Some (piece_hash tc p)" "length (piece_hash tc p) = HASH_LENGTH"
proof -
  have "(unat p + 1) * HASH_LENGTH \<le> ctx_number_of_pieces tc * HASH_LENGTH" by (rule mult_right_mono) (use assms(2) in simp_all)
  then have le: "unat p * HASH_LENGTH + HASH_LENGTH \<le> length (ctx_pieces_info_hash tc)"
    using assms(1) by (simp add: layout_ok_def)
  then show "expected_piece_hash tc p = Some (piece_hash tc p)" "length (piece_hash tc p) = HASH_LENGTH"
    by (simp_all add: expected_piece_hash_def piece_hash_def Let_def)
qed

context block_storage
begin

lemma check_streaming_ok:
  assumes "good s" and "layout_ok tc (content s)" and "unat p < ctx_number_of_pieces tc"
    and sha1: "\<And>x. length (sha1 x) = HASH_LENGTH"
  shows "\<exists>s'. check_piece_hash_streaming sha1 st tc p (tc_get_piece_length tc p) s =
      (Some (piece_verified sha1 tc (content s) p), s') \<and> good s' \<and> content s' = content s"
proof -
  have "piece_start tc p + unat (tc_get_piece_length tc p) \<le> length (content s)"
    using assms(2,3) by (simp add: layout_ok_def piece_end_def)
  from read_blocks_ok [OF assms(1) this, of "[]"]
  obtain s' where r: "read_blocks st (piece_start tc p) (unat (tc_get_piece_length tc p)) [] s =
      (Inr (chunks BLOCK_SIZE (bslice (content s) (piece_start tc p) (piece_end tc p))), s')" "good s'" "content s' = content s"
    by (auto simp: piece_end_def)
  then have "stream_piece st (piece_start tc p) (unat (tc_get_piece_length tc p)) [] s =
      (Some (bslice (content s) (piece_start tc p) (piece_end tc p)), s')"
    using stream_piece_blocks [of st "piece_start tc p" "unat (tc_get_piece_length tc p)" "[]" s] by (simp add: BLOCK_SIZE_def)
  then show ?thesis
    using r(2,3) piece_hash_expected [OF assms(2,3)] sha1
    by (simp add: check_piece_hash_streaming_def piece_start_def [symmetric] piece_verified_def hash_matches_iff)
qed

end

context piece_storage
begin

lemma store_block_ok:
  assumes "good s" and "buffers_ok tc" and "unat bi < piece_block_count (unat (tc_get_piece_length tc p))"
    and "unat bi * BLOCK_SIZE + length d \<le> unat (tc_get_piece_length tc p)" and "piece_end tc p \<le> length (content s)"
    and "ok_write (piece_start tc p + unat bi * BLOCK_SIZE) (length d)"
  shows "\<exists>r tc' s'. store_block check st p bi d ip tc s = Some (r, tc', s') \<and> (\<exists>a. tc' = tc\<lparr>ctx_assembler := a\<rparr>)
    \<and> buffers_ok tc' \<and> good s' \<and> changes_only tc p (content s) (content s')"
proof -
  let ?pb = "piece_buffer_of p tc"
  let ?tc = "put_buffer p (Some ?pb) tc"
  note pb = piece_buffer_of_ok [OF assms(2), of p]
  have tc1: "buffers_ok ?tc" using assms(2) pb by (intro buffers_put) auto
  have a: "\<exists>a. put_buffer p b tc = tc\<lparr>ctx_assembler := a\<rparr>" "\<exists>a. put_buffer p b ?tc = tc\<lparr>ctx_assembler := a\<rparr>" for b
    by (auto simp: put_buffer_def)
  have off: "unat p * unat (ctx_piece_length ?tc) = piece_start tc p" by (simp add: put_buffer_def piece_start_def)
  have fits: "piece_start tc p + unat bi * BLOCK_SIZE + length d \<le> length (content s)"
    using assms(4,5) by (simp add: piece_end_def)
  obtain s' where w: "st_write st s (piece_start tc p + unat bi * BLOCK_SIZE) d = (Inr (), s')" "good s'"
      "content s' = overwrite (content s) (piece_start tc p + unat bi * BLOCK_SIZE) d"
    using write_slice [OF assms(1) fits assms(6)] .
  have ch: "changes_only tc p (content s) (content s')"
    using fits assms(4) by (auto simp: changes_only_def w(3) nth_overwrite piece_end_def)
  obtain pb' where add: "pb_add_block ?pb bi ip = Some pb'" and pb': "pb_wf pb'" "pb_blocks pb' = pb_blocks ?pb"
    using pb_add_block_ok [OF pb(1), of bi ip] assms(3) pb(2) by auto
  have "buffers_ok (put_buffer p (Some pb') ?tc)"
    by (rule buffers_put [OF tc1]) (use pb' pb(2) in auto)
  then show ?thesis
    using assms(1) tc1 a w(1,2) ch add
    by (auto simp: store_block_def Let_def off split: sum.split)
qed

lemma accept_ok:
  assumes "pipe_inv sha1 good content tc s" and "unat p < ctx_number_of_pieces tc"
    and "piece_verified sha1 tc (content s) p"
  shows "pipe_inv sha1 good content (fst (accept_piece st p (tc_get_piece_length tc p) tc s))
      (snd (accept_piece st p (tc_get_piece_length tc p) tc s))
    \<and> same_pieces tc (fst (accept_piece st p (tc_get_piece_length tc p) tc s))
    \<and> tc_is_piece_local (fst (accept_piece st p (tc_get_piece_length tc p) tc s)) = (tc_is_piece_local tc)(p := True)
    \<and> ctx_config (fst (accept_piece st p (tc_get_piece_length tc p) tc s)) = ctx_config tc
    \<and> content (snd (accept_piece st p (tc_get_piece_length tc p) tc s)) = content s"
proof -
  let ?tc1 = "tc_update_bitfield_status tc p True (tc_get_piece_length tc p)"
  let ?tc2 = "tc_clear_piece_requests p (try_complete_download (broadcast_have p ?tc1))"
  let ?s = "snd (st_flush st s)"
  have I: "good s" "tc_inv tc" "layout_ok tc (content s)" "buffers_ok tc" "local_verified sha1 tc (content s)"
    using assms(1) by (simp_all add: pipe_inv_def)
  have res: "accept_piece st p (tc_get_piece_length tc p) tc s = (?tc2, ?s)" by (simp add: accept_piece_def Let_def)
  have q: "quiet ?tc1 ?tc2" using quiet_trans [OF quiet_trans [OF quiet_broadcast quiet_try_complete] quiet_clear] .
  note u = update_same_pieces [of tc p True]
  have same: "same_pieces tc ?tc2" using q same_pieces_trans [OF u] by (simp add: quiet_def)
  have loc: "tc_is_piece_local ?tc2 = (tc_is_piece_local tc)(p := True)"
    using q local_after_update [OF I(2) assms(2), of True] by (auto simp: quiet_def)
  have "tc_inv ?tc2" using q tc_inv_update_status [OF I(2)] by (simp add: quiet_def)
  moreover have "buffers_ok ?tc2"
    using I(4) buffers_of_quiet [OF same] by (simp add: buffers_keep update_keeps)
  moreover have "layout_ok ?tc2 (content s)" using I(3) same_piecesD(9) [OF same] by simp
  moreover have "local_verified sha1 ?tc2 (content s)"
    unfolding local_verified_def loc same_piecesD(1,8) [OF same]
    using I(5) assms(3) by (simp add: local_verified_def)
  ultimately show ?thesis
    unfolding res using flush_ok [OF I(1)] same loc q by (simp add: pipe_inv_def quiet_def update_keeps)
qed

lemma reject_ok:
  assumes "pipe_inv sha1 good content tc s" and "unat p < ctx_number_of_pieces tc" and "\<not> tc_is_piece_local tc p"
    and "ok_discard (piece_start tc p) (unat (tc_get_piece_length tc p))"
  shows "pipe_inv sha1 good content (fst (reject_piece st p (tc_get_piece_length tc p) srcs tc s))
      (snd (reject_piece st p (tc_get_piece_length tc p) srcs tc s))
    \<and> quiet tc (fst (reject_piece st p (tc_get_piece_length tc p) srcs tc s))
    \<and> changes_only tc p (content s) (content (snd (reject_piece st p (tc_get_piece_length tc p) srcs tc s)))"
proof -
  have I: "good s" "tc_inv tc" "layout_ok tc (content s)" "buffers_ok tc" "local_verified sha1 tc (content s)"
    using assms(1) by (simp_all add: pipe_inv_def)
  let ?s = "st_discard st s (piece_start tc p) (unat (tc_get_piece_length tc p))"
  let ?tc1 = "tc_clear_piece_requests p tc"
  let ?tc2 = "fold (\<lambda>src tc. case src of Some ip \<Rightarrow> report_bad_peer ip tc | None \<Rightarrow> tc) srcs ?tc1"
  let ?tc3 = "tc_mark_piece_missing ?tc2 p True"
  have "ctx_piece_length ?tc1 = ctx_piece_length tc" by (simp add: tc_clear_piece_requests_def)
  then have res: "reject_piece st p (tc_get_piece_length tc p) srcs tc s = (?tc3, ?s)"
    by (simp add: reject_piece_def Let_def piece_start_def)
  have q: "quiet tc ?tc3" using quiet_trans [OF quiet_trans [OF quiet_clear quiet_report_all] quiet_mark_missing] .
  then have same: "same_pieces tc ?tc3" by (simp add: quiet_def)
  have d: "good ?s" "changes_only tc p (content s) (content ?s)"
    using discard_ok [OF I(1) assms(4)] by (simp_all add: changes_only_def piece_end_def)
  have "layout_ok ?tc3 (content ?s)"
    using I(3) d(2) by (simp only: same_piecesD(9) [OF same]) (simp add: layout_ok_def changes_only_def)
  moreover have "local_verified sha1 ?tc3 (content ?s)"
    using local_verified_changed [OF I(5) d(2) tc_invD(1) [OF I(2)] I(3) q assms(3)] .
  moreover have "buffers_ok ?tc3"
    using I(4) buffers_of_quiet [OF same] by (simp add: buffers_keep buffers_keep_all)
  ultimately show ?thesis unfolding res using q d I(2) by (simp add: pipe_inv_def quiet_def)
qed

end

lemma unat_small: "k < 2 ^ 32 \<Longrightarrow> unat (of_nat k :: u32) = k"
  by (simp add: unat_of_nat take_bit_nat_eq_self)

lemma block_checks_ok:
  assumes "block_checks tc p b d = Inr ()" and "ctx_number_of_pieces tc < 2 ^ 32" and "length d < 2 ^ 32"
  shows "unat p < ctx_number_of_pieces tc" "unat (b div of_nat BLOCK_SIZE) * BLOCK_SIZE = unat b"
    "unat b + length d \<le> unat (tc_get_piece_length tc p)"
    "d \<noteq> [] \<Longrightarrow> unat (b div of_nat BLOCK_SIZE) < piece_block_count (unat (tc_get_piece_length tc p))"
proof -
  have c: "\<not> of_nat (ctx_number_of_pieces tc) \<le> p" "b mod of_nat BLOCK_SIZE = 0"
      "unat b + unat (of_nat (length d) :: u32) \<le> unat (tc_get_piece_length tc p)"
    using assms(1) by (auto simp: block_checks_def Let_def split: if_splits)
  show "unat p < ctx_number_of_pieces tc" using c(1) unat_small [OF assms(2)] by (simp add: word_le_nat_alt)
  have "unat (b mod of_nat BLOCK_SIZE) = 0" using c(2) by simp
  then have "unat b mod BLOCK_SIZE = 0" by (simp add: unat_mod_distrib BLOCK_SIZE_def)
  moreover have "unat (b div of_nat BLOCK_SIZE) = unat b div BLOCK_SIZE" by (simp add: unat_div_distrib BLOCK_SIZE_def)
  ultimately show al: "unat (b div of_nat BLOCK_SIZE) * BLOCK_SIZE = unat b"
    using div_mult_mod_eq [of "unat b" BLOCK_SIZE] by simp
  show fits: "unat b + length d \<le> unat (tc_get_piece_length tc p)" using c(3) unat_small [OF assms(3)] by simp
  assume "d \<noteq> []"
  then have "unat (b div of_nat BLOCK_SIZE) * BLOCK_SIZE < unat (tc_get_piece_length tc p)"
    unfolding al using fits by (cases d) auto
  then show "unat (b div of_nat BLOCK_SIZE) < piece_block_count (unat (tc_get_piece_length tc p))"
    by (simp add: piece_block_count_def BLOCK_SIZE_def less_eq_div_iff_mult_less_eq flip: Suc_le_eq)
qed

text \<open>What the storage must accept: the blocks at their place and the discarding of a piece.\<close>

definition storage_takes :: "(nat \<Rightarrow> nat \<Rightarrow> bool) \<Rightarrow> (nat \<Rightarrow> nat \<Rightarrow> bool) \<Rightarrow> TorrentContext \<Rightarrow> u32 \<Rightarrow> u32 \<Rightarrow> nat \<Rightarrow> bool" where
  "storage_takes ok_write ok_discard tc p b len \<longleftrightarrow> (unat p < ctx_number_of_pieces tc \<longrightarrow>
     ok_write (piece_start tc p + unat b) len \<and> ok_discard (piece_start tc p) (unat (tc_get_piece_length tc p)))"

context piece_storage
begin

lemma verify_now_ok:
  assumes "pipe_inv sha1 good content (pl_tc pl) (pl_storage pl)" and "unat p < ctx_number_of_pieces (pl_tc pl)"
    and "\<not> tc_is_piece_local (pl_tc pl) p" and sha1: "\<And>x. length (sha1 x) = HASH_LENGTH"
    and "ok_discard (piece_start (pl_tc pl) p) (unat (tc_get_piece_length (pl_tc pl) p))"
  shows "\<exists>pl'. verify_now sha1 st p (tc_get_piece_length (pl_tc pl) p) srcs pl =
      Some (if piece_verified sha1 (pl_tc pl) (content (pl_storage pl)) p then Inr True
            else Inl (Protocol ''Piece failed hash verification''), pl')
    \<and> pipe_inv sha1 good content (pl_tc pl') (pl_storage pl') \<and> same_pieces (pl_tc pl) (pl_tc pl')
    \<and> ctx_config (pl_tc pl') = ctx_config (pl_tc pl) \<and> pl_pool pl' = pl_pool pl
    \<and> tc_is_piece_local (pl_tc pl') = (tc_is_piece_local (pl_tc pl))(p := piece_verified sha1 (pl_tc pl) (content (pl_storage pl)) p)"
proof -
  let ?tc = "pl_tc pl"
  let ?len = "tc_get_piece_length ?tc p"
  have I: "good (pl_storage pl)" "layout_ok ?tc (content (pl_storage pl))" using assms(1) by (simp_all add: pipe_inv_def)
  obtain s where c: "check_piece_hash_streaming sha1 st ?tc p ?len (pl_storage pl) =
      (Some (piece_verified sha1 ?tc (content (pl_storage pl)) p), s)" "good s" "content s = content (pl_storage pl)"
    using check_streaming_ok [of "pl_storage pl" ?tc p sha1, OF I assms(2) sha1] by blast
  have inv: "pipe_inv sha1 good content ?tc s" using assms(1) c by (simp add: pipe_inv_def)
  show ?thesis
  proof (cases "piece_verified sha1 ?tc (content (pl_storage pl)) p")
    case True
    let ?r = "accept_piece st p ?len ?tc s"
    have "verify_now sha1 st p ?len srcs pl = Some (Inr True, pl\<lparr>pl_tc := fst ?r, pl_storage := snd ?r\<rparr>)"
      using c(1) True by (simp add: verify_now_def case_prod_beta Let_def)
    then show ?thesis using accept_ok [OF inv assms(2)] True c(3) by simp
  next
    case False
    let ?r = "reject_piece st p ?len srcs ?tc s"
    have "verify_now sha1 st p ?len srcs pl =
        Some (Inl (Protocol ''Piece failed hash verification''), pl\<lparr>pl_tc := fst ?r, pl_storage := snd ?r\<rparr>)"
      using c(1) False by (simp add: verify_now_def case_prod_beta Let_def)
    then show ?thesis using reject_ok [OF inv assms(2,3,5), of srcs] False assms(3) by (auto simp: quiet_def fun_eq_iff)
  qed
qed

lemma quiet_inv:
  assumes "pipe_inv sha1 good content tc s" and "quiet tc tc'" and "buffers_ok tc'"
  shows "pipe_inv sha1 good content tc' s"
proof -
  have same: "same_pieces tc tc'" "tc_is_piece_local tc' = tc_is_piece_local tc" "tc_inv tc \<longrightarrow> tc_inv tc'"
    using assms(2) by (simp_all add: quiet_def)
  show ?thesis
    using assms(1,3) same by (simp add: pipe_inv_def local_verified_def same_piecesD [OF same(1)])
qed

lemma piece_complete_ok:
  assumes "pipe_inv sha1 good content (pl_tc pl) (pl_storage pl)" and "unat p < ctx_number_of_pieces (pl_tc pl)"
    and "\<not> tc_is_piece_local (pl_tc pl) p" and sha1: "\<And>x. length (sha1 x) = HASH_LENGTH"
    and "ok_discard (piece_start (pl_tc pl) p) (unat (tc_get_piece_length (pl_tc pl) p))"
  shows "\<exists>r pl'. piece_complete sha1 st p (tc_get_piece_length (pl_tc pl) p) srcs pl = Some (r, pl')
    \<and> pipe_inv sha1 good content (pl_tc pl') (pl_storage pl') \<and> same_pieces (pl_tc pl) (pl_tc pl')
    \<and> ctx_config (pl_tc pl') = ctx_config (pl_tc pl)
    \<and> (\<not> cfg_enable_async_verification (ctx_config (pl_tc pl)) \<longrightarrow>
        (r = Inr True \<longleftrightarrow> piece_verified sha1 (pl_tc pl) (content (pl_storage pl)) p) \<and> (\<exists>e. r = Inr True \<or> r = Inl e)
        \<and> tc_is_piece_local (pl_tc pl') = (tc_is_piece_local (pl_tc pl))(p := (r = Inr True)))"
proof -
  define tc where "tc = (if cfg_enable_adaptive_endgame (ctx_config (pl_tc pl))
    then (pl_tc pl)\<lparr>ctx_endgame_staging := es_clear_piece p (ctx_endgame_staging (pl_tc pl))\<rparr> else pl_tc pl)"
  have q: "quiet (pl_tc pl) tc" and a: "ctx_assembler tc = ctx_assembler (pl_tc pl)" by (simp_all add: tc_def)
  have step: "\<exists>pl'. verify_now sha1 st p (tc_get_piece_length (pl_tc pl) p) srcs (pl\<lparr>pl_tc := tc', pl_pool := pool\<rparr>) =
      Some (if piece_verified sha1 (pl_tc pl) (content (pl_storage pl)) p then Inr True
            else Inl (Protocol ''Piece failed hash verification''), pl')
    \<and> pipe_inv sha1 good content (pl_tc pl') (pl_storage pl') \<and> same_pieces (pl_tc pl) (pl_tc pl')
    \<and> ctx_config (pl_tc pl') = ctx_config (pl_tc pl)
    \<and> tc_is_piece_local (pl_tc pl') = (tc_is_piece_local (pl_tc pl))(p := piece_verified sha1 (pl_tc pl) (content (pl_storage pl)) p)"
    if "quiet (pl_tc pl) tc'" and "ctx_assembler tc' = ctx_assembler (pl_tc pl)" for tc' pool
  proof -
    have same: "same_pieces (pl_tc pl) tc'" using that(1) by (simp add: quiet_def)
    have "buffers_ok tc'" using buffers_of_quiet [OF same] that(2) assms(1) by (simp add: pipe_inv_def)
    from quiet_inv [OF assms(1) that(1) this] have "pipe_inv sha1 good content tc' (pl_storage pl)" .
    from verify_now_ok [of sha1 "pl\<lparr>pl_tc := tc', pl_pool := pool\<rparr>" p srcs] this assms(2,3,5) sha1 that(1) same
      same_pieces_trans [OF same]
    show ?thesis by (auto simp: quiet_def same_piecesD [OF same])
  qed
  show ?thesis
  proof (cases "cfg_enable_async_verification (ctx_config tc)")
    case False
    then have "piece_complete sha1 st p (tc_get_piece_length (pl_tc pl) p) srcs pl =
        verify_now sha1 st p (tc_get_piece_length (pl_tc pl) p) srcs (pl\<lparr>pl_tc := tc, pl_pool := pl_pool pl\<rparr>)"
      by (simp add: piece_complete_def tc_def [symmetric])
    then show ?thesis using step [OF q a, of "pl_pool pl"] by fastforce
  next
    case True
    have async: "cfg_enable_async_verification (ctx_config (pl_tc pl))" using True q by (simp add: quiet_def)
    let ?tc1 = "mark_piece_verifying p True tc"
    have q1: "quiet (pl_tc pl) ?tc1" "quiet (pl_tc pl) (mark_piece_verifying p False ?tc1)"
      using quiet_trans [OF q quiet_verifying] quiet_trans [OF quiet_trans [OF q quiet_verifying] quiet_verifying] by blast+
    obtain r pool where sub: "vp_submit (verification_job tc p (tc_get_piece_length (pl_tc pl) p) srcs) (pl_pool pl) = (r, pool)"
      by fastforce
    show ?thesis
    proof (cases r)
      case (Inl e)
      then have "piece_complete sha1 st p (tc_get_piece_length (pl_tc pl) p) srcs pl =
          verify_now sha1 st p (tc_get_piece_length (pl_tc pl) p) srcs
            (pl\<lparr>pl_tc := mark_piece_verifying p False ?tc1, pl_pool := pool\<rparr>)"
        using True sub by (simp add: piece_complete_def tc_def [symmetric])
      then show ?thesis using step [OF q1(2), of pool] async a by (simp add: buffers_keep) blast
    next
      case (Inr u)
      then have "piece_complete sha1 st p (tc_get_piece_length (pl_tc pl) p) srcs pl = Some (Inr True, pl\<lparr>pl_tc := ?tc1, pl_pool := pool\<rparr>)"
        using True sub by (simp add: piece_complete_def tc_def [symmetric])
      moreover have "pipe_inv sha1 good content ?tc1 (pl_storage pl)"
        using quiet_inv [OF assms(1) q1(1)] buffers_of_quiet [of "pl_tc pl" ?tc1] q1(1) assms(1) a
        by (simp add: pipe_inv_def quiet_def buffers_keep)
      ultimately show ?thesis using q1(1) async by (simp add: quiet_def)
    qed
  qed
qed

end

context piece_storage
begin

lemma inv_changed:
  assumes "pipe_inv sha1 good content tc s" and "changes_only tc p (content s) (content s')" and "good s'"
    and "\<not> tc_is_piece_local tc p" and "quiet tc tc'" and "buffers_ok tc'"
  shows "pipe_inv sha1 good content tc' s'"
proof -
  have same: "same_pieces tc tc'" using assms(5) by (simp add: quiet_def)
  have L: "layout_ok tc (content s)" "local_verified sha1 tc (content s)" "tc_inv tc"
    using assms(1) by (simp_all add: pipe_inv_def)
  have "local_verified sha1 tc' (content s')"
    using local_verified_changed [OF L(2) assms(2) tc_invD(1) [OF L(3)] L(1) assms(5,4)] .
  moreover have "layout_ok tc' (content s')"
    using L(1) assms(2) by (simp only: same_piecesD(9) [OF same]) (simp add: layout_ok_def changes_only_def)
  ultimately show ?thesis using assms(3,5,6) L(3) by (simp add: pipe_inv_def quiet_def)
qed

lemma stage_inv:
  assumes "pipe_inv sha1 good content tc s" and "stage_arrival p bi ip tc = (absorbed, tc')"
  shows "pipe_inv sha1 good content tc' s \<and> quiet tc tc'"
proof -
  have q: "quiet tc tc'" "ctx_assembler tc' = ctx_assembler tc"
    using quiet_stage [of tc p bi ip] buffers_keep(7) [of p bi ip tc] assms(2) by simp_all
  moreover have "buffers_ok tc'"
    using q buffers_of_quiet [of tc tc'] assms(1) by (simp add: quiet_def pipe_inv_def)
  ultimately show ?thesis using quiet_inv [OF assms(1)] by blast
qed

lemma stored_ok:
  assumes inv: "pipe_inv sha1 good content tc s" and p: "unat p < ctx_number_of_pieces tc" "\<not> tc_is_piece_local tc p"
    and b: "unat bi * BLOCK_SIZE + length d \<le> unat (tc_get_piece_length tc p)"
      "unat bi < piece_block_count (unat (tc_get_piece_length tc p))"
    and "ok_write (piece_start tc p + unat bi * BLOCK_SIZE) (length d)"
  shows "\<exists>r tc' s'. store_block check st p bi d ip tc s = Some (r, tc', s')
    \<and> pipe_inv sha1 good content tc' s' \<and> quiet tc tc'
    \<and> pipe_inv sha1 good content (put_buffer p None tc') s' \<and> quiet tc (put_buffer p None tc')"
proof -
  have I: "good s" "buffers_ok tc" "piece_end tc p \<le> length (content s)"
    using inv p by (simp_all add: pipe_inv_def layout_ok_def)
  obtain r tc' s' a where st: "store_block check st p bi d ip tc s = Some (r, tc', s')" "tc' = tc\<lparr>ctx_assembler := a\<rparr>"
      "buffers_ok tc'" "good s'" "changes_only tc p (content s) (content s')"
    using store_block_ok [OF I(1,2) b(2,1) I(3) assms(6)] by blast
  have q: "quiet tc tc'" "quiet tc (put_buffer p None tc')"
    using quiet_trans [OF _ quiet_put_buffer, of tc tc'] by (simp_all add: st(2))
  have "buffers_ok (put_buffer p None tc')" by (rule buffers_put [OF st(3)]) simp
  then show ?thesis using st(1) q inv_changed [OF inv st(5,4) p(2)] st(3) by blast
qed

lemma process_ok:
  assumes inv: "pipe_inv sha1 good content (pl_tc pl) (pl_storage pl)" and sha1: "\<And>x. length (sha1 x) = HASH_LENGTH"
    and d: "d \<noteq> []" "length d < 2 ^ 32" and takes: "storage_takes ok_write ok_discard (pl_tc pl) p b (length d)"
  shows "\<exists>r pl'. process_piece_block sha1 H st p b d ip pl = Some (r, pl')
    \<and> pipe_inv sha1 good content (pl_tc pl') (pl_storage pl') \<and> same_pieces (pl_tc pl) (pl_tc pl')
    \<and> ctx_config (pl_tc pl') = ctx_config (pl_tc pl)"
proof (cases "block_checks (pl_tc pl) p b d = Inr () \<and> \<not> tc_is_piece_local (pl_tc pl) p")
  case False
  then show ?thesis using inv by (auto simp: process_piece_block_def Let_def split: sum.split)
next
  case True
  let ?bi = "b div of_nat BLOCK_SIZE"
  have n: "ctx_number_of_pieces (pl_tc pl) < 2 ^ 32" using inv by (simp add: pipe_inv_def tc_inv_def tc_wf_def)
  note c = block_checks_ok [OF True [THEN conjunct1] n d(2)]
  obtain absorbed tc where stage: "stage_arrival p ?bi ip (pl_tc pl) = (absorbed, tc)" by fastforce
  have inv1: "pipe_inv sha1 good content tc (pl_storage pl)" and q1: "quiet (pl_tc pl) tc"
    using stage_inv [OF inv stage] by blast+
  have "same_pieces (pl_tc pl) tc" and nl: "\<not> tc_is_piece_local tc p" using q1 True by (simp_all add: quiet_def)
  note S = same_piecesD [OF this(1)]
  have "\<exists>r tc' s'. store_block (\<lambda>tc. verify_v2_block H tc p ?bi d) st p ?bi d ip tc (pl_storage pl) = Some (r, tc', s')
    \<and> pipe_inv sha1 good content tc' s' \<and> quiet tc tc'
    \<and> pipe_inv sha1 good content (put_buffer p None tc') s' \<and> quiet tc (put_buffer p None tc')"
    by (rule stored_ok [OF inv1 _ nl]) (use c d(1) takes in \<open>simp_all add: S storage_takes_def\<close>)
  then obtain r tc' s' where st: "store_block (\<lambda>tc. verify_v2_block H tc p ?bi d) st p ?bi d ip tc (pl_storage pl) = Some (r, tc', s')"
    and inv2: "pipe_inv sha1 good content tc' s'" "pipe_inv sha1 good content (put_buffer p None tc') s'"
    and q2: "quiet (pl_tc pl) tc'" "quiet (pl_tc pl) (put_buffer p None tc')"
    using quiet_trans [OF q1] by metis
  show ?thesis
  proof (cases "absorbed \<or> isl r \<or> \<not> pb_all_blocks_there (projr r)")
    case early: True
    then show ?thesis
      using True stage st inv1 q1 inv2(1) q2(1) by (cases r) (auto simp: process_piece_block_def Let_def quiet_def)
  next
    case complete: False
    then obtain pb where r: "r = Inr pb" "pb_all_blocks_there pb" by (cases r) auto
    let ?pl = "pl\<lparr>pl_tc := put_buffer p None tc', pl_storage := s'\<rparr>"
    have same2: "same_pieces (pl_tc pl) (pl_tc ?pl)" "\<not> tc_is_piece_local (pl_tc ?pl) p" "ctx_config (pl_tc ?pl) = ctx_config (pl_tc pl)"
      using q2(2) True by (simp_all add: quiet_def)
    note S2 = same_piecesD [OF same2(1)]
    have eq: "process_piece_block sha1 H st p b d ip pl =
        piece_complete sha1 st p (tc_get_piece_length (pl_tc ?pl) p) (pb_block_sources pb) ?pl"
      using True stage st complete r unfolding S2 by (simp add: process_piece_block_def Let_def)
    have "ok_discard (piece_start (pl_tc ?pl) p) (unat (tc_get_piece_length (pl_tc ?pl) p))"
      "unat p < ctx_number_of_pieces (pl_tc ?pl)"
      using takes c(1) unfolding S2 by (simp_all add: storage_takes_def)
    from piece_complete_ok [of sha1 ?pl p "pb_block_sources pb", OF _ this(2) same2(2) sha1 this(1)] inv2(2) same2(3)
      same_pieces_trans [OF same2(1)]
    show ?thesis unfolding eq by fastforce
  qed
qed

end

end
