(* ===== verification/Disk_IO.thy ===== *)
theory Disk_IO
  imports Pipeline_Safety
begin

text \<open>
  How a torrent starts on existing files (\<open>library/src/storage/disk_io.rs\<close>): the three ways to fill
  the context's bitfield, and the whole path from the files through the scan to the block
  pipeline.
\<close>

section \<open>Filling the bitfield\<close>

text \<open>
  The scan reads the files in fragments of its choosing; the pool's outcome is the bitfield that
  the recheck collected.
\<close>

definition create_torrent_bitfield ::
  "(bytes \<Rightarrow> bytes) \<Rightarrow> bytes list option list \<Rightarrow> u32 \<Rightarrow> TorrentContext \<Rightarrow> TorrentContext" where
  "create_torrent_bitfield sha1 reads piece_length tc =
    apply_to_context (scan_local_files sha1 reads (unat piece_length) (ctx_pieces_info_hash tc)) tc"

definition count_piece :: "u32 \<Rightarrow> u32 \<Rightarrow> TorrentContext \<times> u64 \<times> nat \<Rightarrow> TorrentContext \<times> u64 \<times> nat" where
  "count_piece piece_length p = (\<lambda>(tc, downloaded, missing_count).
    let n = of_nat (ctx_number_of_pieces tc);
        len = recheck_piece_len n piece_length (unat (ctx_total_bytes_to_download tc)) p;
        local = bf_get (ctx_bitfield tc) p;
        tc = tc_set_piece_length tc p len
    in if local then (tc, downloaded + ucast len, missing_count)
       else (tc\<lparr>ctx_pieces_missing := bf_put (ctx_pieces_missing tc) p True\<rparr>, downloaded, missing_count + 1))"

definition create_torrent_bitfield_parallel ::
  "u32 \<Rightarrow> RecvEvent list \<Rightarrow> TorrentContext \<Rightarrow> TorrentContext option" where
  "create_torrent_bitfield_parallel piece_length events tc =
    map_option (\<lambda>bitfield.
      let tc = tc\<lparr>ctx_bitfield := bitfield, ctx_pieces_missing := replicate (length bitfield) 0\<rparr>;
          (tc, downloaded, missing_count) = fold (count_piece piece_length) (piece_range tc) (tc, 0, 0)
      in tc\<lparr>ctx_missing_pieces_count := missing_count, ctx_total_bytes_downloaded := downloaded\<rparr>)
      (recheck_pieces_blocking (of_nat (ctx_number_of_pieces tc)) events)"

text \<open>The remaining length is an \<open>i64\<close>; the division rounds towards zero.\<close>

definition mark_downloaded :: "u32 \<Rightarrow> u32 \<Rightarrow> TorrentContext \<times> int \<Rightarrow> TorrentContext \<times> int" where
  "mark_downloaded piece_length p = (\<lambda>(tc, remaining).
    let tc = tc_mark_piece_local tc p True;
        tc = tc_mark_piece_missing tc p False;
        tc = (if \<bar>remaining\<bar> div int (unat piece_length) \<noteq> 0 then tc_set_piece_length tc p piece_length
              else tc_set_piece_length tc p (of_int remaining))
    in (tc, remaining - int (unat piece_length)))"

definition fully_downloaded_torrent_bitfield :: "u32 \<Rightarrow> TorrentContext \<Rightarrow> TorrentContext" where
  "fully_downloaded_torrent_bitfield piece_length tc =
    fst (fold (mark_downloaded piece_length) (piece_range tc) (tc, sint (ctx_total_bytes_to_download tc)))"

section \<open>The statuses of a file scan\<close>

definition scan_status :: "(bytes \<Rightarrow> bytes) \<Rightarrow> nat \<Rightarrow> bytes \<Rightarrow> bytes \<Rightarrow> nat \<Rightarrow> PieceScanStatus" where
  "scan_status sha1 plen h data i =
    (let piece = bslice data (i * plen) (i * plen + plen) in
     \<lparr>piece_index = of_nat i, is_valid = verify_hash sha1 (of_nat i) piece h, scan_length = length piece\<rparr>)"

lemma finish_piece_statuses:
  "piece_statuses (finish_piece sha1 h st) = piece_statuses st @
    [\<lparr>piece_index = ls_piece_number st, is_valid = verify_hash sha1 (ls_piece_number st) (ls_piece_buffer st) h,
      scan_length = length (ls_piece_buffer st)\<rparr>]"
  by (simp add: finish_piece_def LocalScan.defs ScanResult.defs record_piece_def)

lemma scan_status_snoc:
  assumes "i < length d div plen" and "0 < plen"
  shows "scan_status sha1 plen h (d @ [b]) i = scan_status sha1 plen h d i"
proof -
  have "i * plen + plen \<le> length d div plen * plen" using mult_le_mono1 [of "i + 1" "length d div plen" plen] assms by simp
  also have "\<dots> \<le> length d" by simp
  finally show ?thesis by (simp add: scan_status_def bslice_snoc)
qed

lemma statuses_snoc:
  assumes inv: "scan_invariant sha1 plen h d st" and plen: "0 < plen"
    and IH: "piece_statuses st = map (scan_status sha1 plen h d) [0..<length d div plen]"
  shows "piece_statuses (absorb_byte sha1 plen h st b) = map (scan_status sha1 plen h (d @ [b])) [0..<length (d @ [b]) div plen]"
proof -
  let ?k = "length d div plen"
  have I: "ls_piece_buffer st = drop (?k * plen) d" "ls_piece_number st = of_nat ?k"
    using inv by (simp_all add: scan_invariant_def)
  have old: "map (scan_status sha1 plen h (d @ [b])) [0..<?k] = map (scan_status sha1 plen h d) [0..<?k]"
    using scan_status_snoc [OF _ plen] by simp
  have nth: "length (ls_piece_buffer st @ [b]) = Suc (length d mod plen)"
    using I by (simp add: minus_mod_eq_div_mult [symmetric])
  show ?thesis
  proof (cases "Suc (length d mod plen) = plen")
    case True
    have eq: "Suc (length d) = ?k * plen + plen" using div_mult_mod_eq [of "length d" plen] True by linarith
    then have k: "length (d @ [b]) div plen = Suc ?k" using plen by simp
    have "drop (?k * plen) d @ [b] = bslice (d @ [b]) (?k * plen) (?k * plen + plen)"
      using eq by (simp add: bslice_def)
    then show ?thesis
      using True nth IH old I unfolding k by (simp add: absorb_byte_def finish_piece_statuses scan_status_def Let_def)
  next
    case False
    then have "length (d @ [b]) div plen = ?k" using plen by (simp add: div_Suc mod_Suc)
    then show ?thesis using False nth IH old by (simp add: absorb_byte_def)
  qed
qed

lemma absorb_statuses:
  assumes "scan_invariant sha1 plen h [] st" and "0 < plen" and "length data div plen < 2 ^ 32" and "piece_statuses st = []"
  shows "piece_statuses (foldl (absorb_byte sha1 plen h) st data) = map (scan_status sha1 plen h data) [0..<length data div plen]"
  using assms(3)
proof (induction data rule: rev_induct)
  case Nil
  then show ?case using assms(2,4) by simp
next
  case (snoc b d)
  have "length d div plen \<le> length (d @ [b]) div plen" by (simp add: div_le_mono)
  then have small: "length d div plen < 2 ^ 32" using snoc.prems by linarith
  from statuses_snoc [OF scan_invariant_absorb [OF assms(1,2) small] assms(2) snoc.IH [OF small]] show ?case by simp
qed

lemma scan_local_files_statuses:
  assumes plen: "0 < plen" and h: "h \<noteq> []" and chunks: "\<forall>cs. Some cs \<in> set files \<longrightarrow> [] \<notin> set cs"
    and small: "length (present_data files) div plen < 2 ^ 32"
  shows "piece_statuses (scan_local_files sha1 files plen h) =
    map (scan_status sha1 plen h (present_data files)) [0..<(length (present_data files) + plen - 1) div plen]"
proof -
  let ?data = "present_data files"
  let ?k = "length ?data div plen"
  let ?init = "ScanResult.extend (empty_scan (length h div HASH_LENGTH)) (LocalScan.fields [] 0)"
  define st where "st = foldl (absorb_byte sha1 plen h) ?init ?data"
  have init: "scan_invariant sha1 plen h [] ?init" "piece_statuses ?init = []" "length (ls_piece_buffer ?init) < plen"
    using plen by (simp_all add: scan_invariant_def LocalScan.defs ScanResult.defs empty_scan_def)
  have I: "ls_piece_buffer st = drop (?k * plen) ?data" "ls_piece_number st = of_nat ?k"
    using scan_invariant_absorb [OF init(1) plen small] by (simp_all add: st_def scan_invariant_def)
  have stat: "piece_statuses st = map (scan_status sha1 plen h ?data) [0..<?k]"
    unfolding st_def by (rule absorb_statuses [OF init(1) plen small init(2)])
  have scan: "scan_local_files sha1 files plen h =
      ScanResult.truncate (if ls_piece_buffer st \<noteq> [] then finish_piece sha1 h st else st)"
    using scan_files_absorb [OF init(3) chunks, of sha1 h] plen h
    unfolding scan_local_files_def Let_def st_def by simp
  have split: "?k * plen + length ?data mod plen = length ?data" by simp
  show ?thesis
  proof (cases "length ?data mod plen = 0")
    case True
    then have len: "length ?data = ?k * plen" using split by linarith
    then have "(length ?data + plen - 1) div plen = ?k"
    proof -
      have "(length ?data + plen - 1) div plen = (plen - 1 + ?k * plen) div plen" using len plen by (simp add: add.commute)
      also have "\<dots> = ?k" using plen by (simp only: div_mult_self1) simp
      finally show ?thesis .
    qed
    then show ?thesis using len stat I by (simp add: scan ScanResult.truncate_def)
  next
    case False
    let ?r = "length ?data mod plen"
    have "(length ?data + plen - 1) div plen = (?r - 1 + (?k + 1) * plen) div plen"
    proof -
      have "(?k + 1) * plen = ?k * plen + plen" by simp
      then have "length ?data + plen - 1 = ?r - 1 + (?k + 1) * plen" using split False by linarith
      then show ?thesis by simp
    qed
    also have "\<dots> = Suc ?k"
    proof -
      have "?r - 1 < plen" using mod_less_divisor [OF plen, of "length ?data"] by linarith
      then show ?thesis using plen by (simp only: div_mult_self1) simp
    qed
    finally have k: "(length ?data + plen - 1) div plen = Suc ?k" .
    have "length ?data \<le> ?k * plen + plen" using split mod_less_divisor [OF plen, of "length ?data"] by linarith
    then have "drop (?k * plen) ?data = bslice ?data (?k * plen) (?k * plen + plen)" by (simp add: bslice_def)
    moreover have "?k * plen < length ?data" using split False by linarith
    then have "ls_piece_buffer st \<noteq> []" using I(1) by simp
    ultimately show ?thesis
      using stat I unfolding k by (simp add: scan ScanResult.truncate_def finish_piece_statuses scan_status_def Let_def)
  qed
qed

section \<open>From the files to the pipeline\<close>

lemma tc_set_length_get:
  assumes "unat p < length (ctx_piece_data tc)" and "len \<le> ctx_piece_length tc"
  shows "tc_get_piece_length (tc_set_piece_length tc p len) q = (if q = p then len else tc_get_piece_length tc q)"
proof (cases "q = p")
  case False
  then have "unat q \<noteq> unat p" using word_unat_eq_iff by blast
  then show ?thesis using assms False by (auto simp: tc_set_piece_length_def tc_get_piece_length_def)
qed (use assms in \<open>auto simp: tc_set_piece_length_def tc_get_piece_length_def\<close>)

lemma update_status_length:
  assumes "unat p < length (ctx_piece_data tc)" and "len \<le> ctx_piece_length tc"
  shows "tc_get_piece_length (tc_update_bitfield_status tc p b len) q = (if q = p then len else tc_get_piece_length tc q)"
proof -
  have frame: "tc_get_piece_length (tc_mark_piece_missing (tc_mark_piece_local t p b) p c) = tc_get_piece_length t" for t b c
    by (rule get_piece_length_frame) (simp_all add: tc_mark_piece_missing_simp tc_mark_piece_local_def Let_def emit_def)
  have bytes: "tc_get_piece_length (tc\<lparr>ctx_total_bytes_downloaded := d\<rparr>) = tc_get_piece_length tc" for d
    by (rule get_piece_length_frame) simp_all
  show ?thesis
    using assms tc_set_length_get [of p tc len q] tc_set_length_get [of p "tc\<lparr>ctx_total_bytes_downloaded := d\<rparr>" len q for d]
    by (cases "q = p") (simp_all add: tc_update_bitfield_status_def Let_def frame bytes)
qed

lemma update_status_frame:
  "ctx_piece_length (tc_update_bitfield_status tc p b len) = ctx_piece_length tc"
  "ctx_pieces_info_hash (tc_update_bitfield_status tc p b len) = ctx_pieces_info_hash tc"
  by (simp_all add: tc_update_bitfield_status_def Let_def tc_mark_piece_missing_simp tc_mark_piece_local_def
      tc_set_piece_length_def emit_def)

text \<open>Reporting the pieces \<open>0\<close> to \<open>k - 1\<close> in order, each once.\<close>

lemma report_pieces:
  assumes "tc_inv tc" and "k \<le> ctx_number_of_pieces tc" and "\<And>p. \<not> tc_is_piece_local tc p"
    and "\<And>i. i < k \<Longrightarrow> l i \<le> ctx_piece_length tc"
    and tc': "tc' = foldl (\<lambda>tc i. tc_update_bitfield_status tc (of_nat i) (v i) (l i)) tc [0..<k]"
  shows "tc_inv tc' \<and> ctx_number_of_pieces tc' = ctx_number_of_pieces tc \<and> ctx_piece_length tc' = ctx_piece_length tc
    \<and> ctx_pieces_info_hash tc' = ctx_pieces_info_hash tc \<and> ctx_assembler tc' = ctx_assembler tc
    \<and> (\<forall>p. tc_is_piece_local tc' p \<longleftrightarrow> unat p < k \<and> v (unat p))
    \<and> (\<forall>p. unat p < k \<longrightarrow> tc_get_piece_length tc' p = l (unat p))"
  unfolding tc' using assms(2,4)
proof (induction k)
  case 0
  then show ?case using assms(1,3) by simp
next
  case (Suc k)
  let ?t = "foldl (\<lambda>tc i. tc_update_bitfield_status tc (of_nat i) (v i) (l i)) tc [0..<k]"
  have IH: "tc_inv ?t" "ctx_number_of_pieces ?t = ctx_number_of_pieces tc" "ctx_piece_length ?t = ctx_piece_length tc"
    "ctx_pieces_info_hash ?t = ctx_pieces_info_hash tc" "ctx_assembler ?t = ctx_assembler tc"
    "\<And>p. tc_is_piece_local ?t p \<longleftrightarrow> unat p < k \<and> v (unat p)"
    "\<And>p. unat p < k \<Longrightarrow> tc_get_piece_length ?t p = l (unat p)"
    using Suc by simp_all
  have "ctx_number_of_pieces tc < 2 ^ 32" using assms(1) by (simp add: tc_inv_def tc_wf_def)
  then have u: "unat (of_nat k :: u32) = k" using Suc.prems(1) by (intro unat_small) simp
  have p: "unat (of_nat k :: u32) < ctx_number_of_pieces ?t" using Suc.prems(1) IH(2) by (simp add: u)
  have len: "unat (of_nat k :: u32) < length (ctx_piece_data ?t)" using p IH(1) by (simp add: tc_inv_def tc_wf_def)
  have lk: "l k \<le> ctx_piece_length ?t" using Suc.prems(2) IH(3) by simp
  have eq: "p = of_nat k \<longleftrightarrow> unat p = k" for p :: u32 using u by (metis word_unat_eq_iff)
  show ?case
    using IH tc_inv_update_status [OF IH(1)]
    by (auto simp: update_status_fields update_status_frame update_keeps local_after_update [OF IH(1) p]
        update_status_length [OF len lk] eq less_Suc_eq)
qed

text \<open>
  The context that a session starts with: made from the meta information, then filled by the scan
  of the files. The geometry is that of any torrent: the pieces but the last are full.
\<close>

definition started_context ::
  "(bytes \<Rightarrow> bytes) \<Rightarrow> bytes list option list \<Rightarrow> bytes \<Rightarrow> u32 \<Rightarrow> u64 \<times> FileDetails list \<Rightarrow> bool \<Rightarrow> SessionConfig \<Rightarrow> TorrentContext" where
  "started_context sha1 reads hashes piece_length files seeding config =
    create_torrent_bitfield sha1 reads piece_length (tc_new hashes piece_length files seeding config)"

lemma ceil_div:
  assumes "0 < (l :: nat)" and "(n - 1) * l < m" and "m \<le> n * l" and "0 < n"
  shows "(m + l - 1) div l = n"
proof -
  obtain k where n: "n = Suc k" using assms(4) by (cases n) auto
  define r where "r = m - k * l"
  have "0 < r" "r \<le> l" "m = k * l + r" using assms(2,3) by (auto simp: n r_def)
  then have "m + l - 1 = r - 1 + Suc k * l" "r - 1 < l" by auto
  then show ?thesis using assms(1) by (simp only: div_mult_self1) (simp add: n)
qed

lemma piece_bytes_slice: "piece_bytes data plen (length data) i = bslice data (i * plen) (i * plen + plen)"
  by (auto simp: piece_bytes_def bslice_def min_def add.commute)

lemma started_context_ok:
  assumes "0 < piece_length" and hashes: "length hashes = n * HASH_LENGTH" and "0 < n" and n: "n < 2 ^ 32"
    and geo: "(n - 1) * unat piece_length < length data" "length data \<le> n * unat piece_length"
    and reads: "present_data reads = data" "\<forall>cs. Some cs \<in> set reads \<longrightarrow> [] \<notin> set cs"
    and tc: "tc = started_context sha1 reads hashes piece_length files seeding config"
  shows "tc_inv tc" "ctx_number_of_pieces tc = n" "ctx_piece_length tc = piece_length" "ctx_pieces_info_hash tc = hashes"
    "ctx_assembler tc = assembler_new"
    "tc_is_piece_local tc p \<longleftrightarrow> unat p < n \<and> verify_hash sha1 p (piece_bytes data (unat piece_length) (length data) (unat p)) hashes"
    "unat p < n \<Longrightarrow> unat (tc_get_piece_length tc p) = length (piece_bytes data (unat piece_length) (length data) (unat p))"
proof -
  let ?l = "unat piece_length"
  let ?tc = "tc_new hashes piece_length files seeding config"
  let ?len = "\<lambda>i. of_nat (length (bslice data (i * ?l) (i * ?l + ?l))) :: u32"
  let ?v = "\<lambda>i. verify_hash sha1 (of_nat i) (bslice data (i * ?l) (i * ?l + ?l)) hashes"
  have l: "0 < ?l" using assms(1) by (simp add: word_less_nat_alt)
  have num: "length hashes div HASH_LENGTH = n" and ne: "hashes \<noteq> []" using hashes assms(3) by (auto simp: HASH_LENGTH_def)
  have new: "ctx_number_of_pieces ?tc = n" "ctx_piece_length ?tc = piece_length" "ctx_pieces_info_hash ?tc = hashes"
    "ctx_assembler ?tc = assembler_new" "ctx_bitfield ?tc = replicate ((n + 7) div 8) 0"
    by (simp_all add: tc_new_def tc_new_base_def Let_def num)
  have inv: "tc_inv ?tc" by (rule tc_inv_new) (use num n in simp)
  have "length data div ?l \<le> n" using div_le_mono [OF geo(2), of ?l] l by simp
  then have "piece_statuses (scan_local_files sha1 reads ?l hashes) = map (scan_status sha1 ?l hashes data) [0..<n]"
    using scan_local_files_statuses [OF l ne reads(2), of sha1] ceil_div [OF l geo assms(3)] n reads(1) by simp
  then have fold: "tc = foldl (\<lambda>tc i. tc_update_bitfield_status tc (of_nat i) (?v i) (?len i)) ?tc [0..<n]"
    unfolding tc started_context_def create_torrent_bitfield_def apply_to_context_def
    by (simp add: new foldl_map scan_status_def Let_def)
  have small: "unat (?len i) = length (bslice data (i * ?l) (i * ?l + ?l))" for i
  proof -
    have "length (bslice data (i * ?l) (i * ?l + ?l)) \<le> ?l" by simp
    moreover have "?l < 2 ^ LENGTH(32)" by (rule unsigned_less)
    ultimately show ?thesis by (intro unat_small) simp
  qed
  have "?len i \<le> ctx_piece_length ?tc" for i unfolding new word_le_nat_alt small by simp
  note R = report_pieces [OF inv _ _ this fold]
  have "\<not> tc_is_piece_local ?tc p" for p using tc_is_piece_local_get [OF tc_invD(2) [OF inv]] by (simp add: new)
  note R = R [OF _ this, unfolded new]
  show "tc_inv tc" "ctx_number_of_pieces tc = n" "ctx_piece_length tc = piece_length" "ctx_pieces_info_hash tc = hashes"
    "ctx_assembler tc = assembler_new"
    using R by simp_all
  show "tc_is_piece_local tc p \<longleftrightarrow> unat p < n \<and> verify_hash sha1 p (piece_bytes data ?l (length data) (unat p)) hashes"
    using R by (simp add: piece_bytes_slice)
  show "unat p < n \<Longrightarrow> unat (tc_get_piece_length tc p) = length (piece_bytes data ?l (length data) (unat p))"
    using R by (simp add: piece_bytes_slice small del: length_bslice)
qed

text \<open>A sequence of received blocks: piece, offset, data and sender of each.\<close>

fun deliver ::
  "(bytes \<Rightarrow> bytes) \<Rightarrow> (bytes \<Rightarrow> bytes) \<Rightarrow> 's BlockStorage \<Rightarrow> (u32 \<times> u32 \<times> bytes \<times> string) list \<Rightarrow> 's Pipeline \<Rightarrow>
    (bool result list \<times> 's Pipeline) option" where
  "deliver sha1 H st [] pl = Some ([], pl)"
| "deliver sha1 H st ((p, b, d, ip) # blocks) pl =
    (case process_piece_block sha1 H st p b d ip pl of
       None \<Rightarrow> None
     | Some (r, pl') \<Rightarrow> map_option (\<lambda>(rs, pl''). (r # rs, pl'')) (deliver sha1 H st blocks pl'))"

context piece_storage
begin

lemma deliver_ok:
  assumes "pipe_inv sha1 good content (pl_tc pl) (pl_storage pl)" and sha1: "\<And>x. length (sha1 x) = HASH_LENGTH"
    and "\<forall>(p, b, d, ip)\<in>set blocks. d \<noteq> [] \<and> length d < 2 ^ 32 \<and> storage_takes ok_write ok_discard (pl_tc pl) p b (length d)"
  shows "\<exists>rs pl'. deliver sha1 H st blocks pl = Some (rs, pl') \<and> length rs = length blocks
    \<and> pipe_inv sha1 good content (pl_tc pl') (pl_storage pl') \<and> same_pieces (pl_tc pl) (pl_tc pl')"
  using assms(1,3)
proof (induction blocks arbitrary: pl)
  case (Cons x blocks)
  obtain p b d ip where x: "x = (p, b, d, ip)" by (metis prod_cases4)
  obtain r pl1 where s: "process_piece_block sha1 H st p b d ip pl = Some (r, pl1)"
    "pipe_inv sha1 good content (pl_tc pl1) (pl_storage pl1)" "same_pieces (pl_tc pl) (pl_tc pl1)"
    using process_ok [OF Cons.prems(1) sha1, of d p b H ip] Cons.prems(2) x by auto
  have "storage_takes ok_write ok_discard (pl_tc pl1) q c k = storage_takes ok_write ok_discard (pl_tc pl) q c k" for q c k
    by (simp add: storage_takes_def same_piecesD [OF s(3)])
  then have "\<forall>(p, b, d, ip)\<in>set blocks. d \<noteq> [] \<and> length d < 2 ^ 32 \<and> storage_takes ok_write ok_discard (pl_tc pl1) p b (length d)"
    using Cons.prems(2) by auto
  from Cons.IH [OF s(2) this] show ?case using s x same_pieces_trans [OF s(3)] by auto
qed simp

end

lemma started_pipe_inv:
  assumes "0 < piece_length" and "length hashes = n * HASH_LENGTH" and "0 < n" and "n < 2 ^ 32"
    and "(n - 1) * unat piece_length < length data" "length data \<le> n * unat piece_length"
    and "present_data reads = data" "\<forall>cs. Some cs \<in> set reads \<longrightarrow> [] \<notin> set cs"
    and tc: "tc = started_context sha1 reads hashes piece_length files seeding config"
    and "good s" and "content s = data"
  shows "pipe_inv sha1 good content tc s"
    "\<And>p. unat p < n \<Longrightarrow> bslice xs (piece_start tc p) (piece_end tc p) = piece_bytes xs (unat piece_length) (length data) (unat p)"
    "\<And>p. unat p < n \<Longrightarrow> piece_hash tc p = bslice hashes (unat p * HASH_LENGTH) (unat p * HASH_LENGTH + HASH_LENGTH)"
proof -
  note S = started_context_ok [OF assms(1-9)]
  have start: "piece_start tc p = unat p * unat piece_length" for p by (simp add: piece_start_def S)
  have en: "piece_end tc p = min ((unat p + 1) * unat piece_length) (length data)" if "unat p < n" for p
  proof -
    have "unat p * unat piece_length \<le> (n - 1) * unat piece_length" by (rule mult_right_mono) (use that in simp_all)
    then have "unat p * unat piece_length < length data" using assms(5) by linarith
    then show ?thesis using S(7) [OF that] by (simp add: piece_end_def start piece_bytes_def)
  qed
  show slice: "bslice xs (piece_start tc p) (piece_end tc p) = piece_bytes xs (unat piece_length) (length data) (unat p)"
    if "unat p < n" for p xs using en [OF that] by (simp add: start piece_bytes_def)
  show hash: "piece_hash tc p = bslice hashes (unat p * HASH_LENGTH) (unat p * HASH_LENGTH + HASH_LENGTH)" if "unat p < n" for p
    by (simp add: piece_hash_def S)
  have "layout_ok tc data" using assms(2) en by (simp add: layout_ok_def S)
  moreover have "buffers_ok tc" by (simp add: buffers_ok_def S assembler_new_def)
  moreover have "local_verified sha1 tc data"
    unfolding local_verified_def piece_verified_def using slice hash
    by (auto simp: S verify_hash_def Let_def split: if_splits)
  ultimately show "pipe_inv sha1 good content tc s" using S(1) assms(10,11) by (simp add: pipe_inv_def)
qed



end
