(* ===== verification/Pipeline_Progress.thy ===== *)
theory Pipeline_Progress
  imports Disk_IO
begin

text \<open>
  The other direction of \<^theory_text>\<open>Pipeline_Safety\<close>: the blocks of the right piece, in any order, complete
  it. Also what the background verification does not guarantee.
\<close>

section \<open>Blocks of a piece\<close>

text \<open>A context without v2 hashes takes every block for granted until the piece is complete.\<close>

definition v1_only :: "TorrentContext \<Rightarrow> bool" where
  "v1_only tc \<longleftrightarrow> ctx_file_merkle_trees tc = Map.empty \<and> list_all (\<lambda>f. fd_pieces_root f = None) (ctx_files_to_download tc)"

lemma v1_block_passes: "v1_only tc \<Longrightarrow> verify_v2_block H tc p bi d = Inr ()"
proof -
  assume v1: "v1_only tc"
  show ?thesis
  proof (cases "find (\<lambda>(_, f). fd_offset f \<le> unat p * unat (ctx_piece_length tc) + unat bi * BLOCK_SIZE
      \<and> unat p * unat (ctx_piece_length tc) + unat bi * BLOCK_SIZE < fd_offset f + fd_length f)
      (zip [0..<length (ctx_files_to_download tc)] (ctx_files_to_download tc))")
    case None
    then show ?thesis by (simp add: verify_v2_block_def Let_def)
  next
    case (Some a)
    obtain i f where a: "a = (i, f)" by (cases a)
    have "a \<in> set (zip [0..<length (ctx_files_to_download tc)] (ctx_files_to_download tc))"
      using Some unfolding find_Some_iff by (metis nth_mem)
    then have "f \<in> set (ctx_files_to_download tc)" unfolding a by (rule set_zip_rightD)
    then show ?thesis using Some v1 by (auto simp: verify_v2_block_def Let_def a v1_only_def list_all_iff split: option.split)
  qed
qed

definition block_of :: "bytes \<Rightarrow> nat \<Rightarrow> bytes" where
  "block_of piece i = bslice piece (i * BLOCK_SIZE) (i * BLOCK_SIZE + BLOCK_SIZE)"

lemma block_of_fits:
  assumes "i < piece_block_count (length piece)"
  shows "i * BLOCK_SIZE + length (block_of piece i) \<le> length piece" "block_of piece i \<noteq> []"
    "length (block_of piece i) = min BLOCK_SIZE (length piece - i * BLOCK_SIZE)"
proof -
  have "i * BLOCK_SIZE < length piece"
    using assms by (simp add: piece_block_count_def BLOCK_SIZE_def less_eq_div_iff_mult_less_eq flip: Suc_le_eq)
  then show "i * BLOCK_SIZE + length (block_of piece i) \<le> length piece" "block_of piece i \<noteq> []"
    by (simp_all add: block_of_def) (simp add: bslice_def BLOCK_SIZE_def)
  show "length (block_of piece i) = min BLOCK_SIZE (length piece - i * BLOCK_SIZE)" by (simp add: block_of_def)
qed

text \<open>The blocks \<open>js\<close> of the piece are recorded in the buffer and on storage.\<close>

definition assembled :: "TorrentContext \<Rightarrow> bytes \<Rightarrow> u32 \<Rightarrow> bytes \<Rightarrow> nat set \<Rightarrow> bool" where
  "assembled tc data p piece js \<longleftrightarrow> {i. pb_has (piece_buffer_of p tc) i} = js
    \<and> (\<forall>i\<in>js. bslice data (piece_start tc p + i * BLOCK_SIZE) (piece_start tc p + i * BLOCK_SIZE + length (block_of piece i)) =
        block_of piece i)"

lemma assembled_all:
  assumes "assembled tc data p piece {..<piece_block_count (length piece)}" and "piece_start tc p + length piece \<le> length data"
  shows "bslice data (piece_start tc p) (piece_start tc p + length piece) = piece"
proof (rule nth_equalityI)
  show "length (bslice data (piece_start tc p) (piece_start tc p + length piece)) = length piece" using assms(2) by simp
  fix j assume "j < length (bslice data (piece_start tc p) (piece_start tc p + length piece))"
  then have j: "j < length piece" by simp
  let ?i = "j div BLOCK_SIZE" and ?r = "j mod BLOCK_SIZE"
  have split: "j = ?i * BLOCK_SIZE + ?r" by simp
  have i: "?i < piece_block_count (length piece)"
    using j by (simp add: piece_block_count_def BLOCK_SIZE_def less_eq_div_iff_mult_less_eq flip: Suc_le_eq)
  have r: "?r < length (block_of piece ?i)"
  proof -
    have "?r < BLOCK_SIZE" by (simp add: BLOCK_SIZE_def)
    moreover have "?r < length piece - ?i * BLOCK_SIZE" using j split by linarith
    ultimately show ?thesis unfolding block_of_fits(3) [OF i] by simp
  qed
  have "bslice data (piece_start tc p + ?i * BLOCK_SIZE) (piece_start tc p + ?i * BLOCK_SIZE + length (block_of piece ?i)) ! ?r =
      block_of piece ?i ! ?r"
    using assms(1) i by (simp add: assembled_def)
  then have "data ! (piece_start tc p + (?i * BLOCK_SIZE + ?r)) = piece ! (?i * BLOCK_SIZE + ?r)"
    using r assms(2) block_of_fits(1) [OF i] by (simp add: bslice_def block_of_def add.assoc)
  then show "bslice data (piece_start tc p) (piece_start tc p + length piece) ! j = piece ! j"
    using j assms(2) by (simp add: bslice_def flip: split)
qed

lemma put_buffer_twice [simp]: "put_buffer p x (put_buffer p y tc) = put_buffer p x tc"
  by (simp add: put_buffer_def)

lemma put_buffer_fields [simp]:
  "ctx_piece_length (put_buffer p x tc) = ctx_piece_length tc"
  "piece_buffer_of p (put_buffer p (Some pb) tc) = pb"
  "v1_only (put_buffer p x tc) = v1_only tc"
  "ctx_number_of_pieces (put_buffer p x tc) = ctx_number_of_pieces tc"
  "piece_start (put_buffer p x tc) q = piece_start tc q"
  by (simp_all add: put_buffer_def piece_buffer_of_def v1_only_def piece_start_def)

lemma block_offset:
  fixes piece :: bytes
  assumes "i < piece_block_count (length piece)" and "length piece < 2 ^ 32"
  shows "unat (of_nat (i * BLOCK_SIZE) :: u32) = i * BLOCK_SIZE"
    "unat ((of_nat (i * BLOCK_SIZE) :: u32) div of_nat BLOCK_SIZE) = i" "(of_nat (i * BLOCK_SIZE) :: u32) mod of_nat BLOCK_SIZE = 0"
proof -
  have "i * BLOCK_SIZE < 2 ^ 32" using block_of_fits(1,2) [OF assms(1)] assms(2) by (cases "block_of piece i") auto
  then show u: "unat (of_nat (i * BLOCK_SIZE) :: u32) = i * BLOCK_SIZE" by (rule unat_small)
  have B: "unat (of_nat BLOCK_SIZE :: u32) = BLOCK_SIZE" by (rule unat_small) (simp add: BLOCK_SIZE_def)
  show "unat ((of_nat (i * BLOCK_SIZE) :: u32) div of_nat BLOCK_SIZE) = i"
    unfolding unat_div_distrib u B by (simp add: BLOCK_SIZE_def)
  have "unat ((of_nat (i * BLOCK_SIZE) :: u32) mod of_nat BLOCK_SIZE) = 0" unfolding unat_mod_distrib u B by simp
  then show "(of_nat (i * BLOCK_SIZE) :: u32) mod of_nat BLOCK_SIZE = 0" by (metis unat_eq_zero)
qed

context piece_storage
begin

lemma store_new_block:
  assumes "good s" and "buffers_ok tc" and i: "i < piece_block_count (length piece)" "length piece = unat (tc_get_piece_length tc p)"
    and "piece_end tc p \<le> length (content s)" and "check tc' = Inr ()" and tc': "tc' = put_buffer p (Some (piece_buffer_of p tc)) tc"
    and asm: "assembled tc (content s) p piece js" "i \<notin> js" and bi: "unat bi = i"
    and "ok_write (piece_start tc p + i * BLOCK_SIZE) (length (block_of piece i))"
  shows "\<exists>pb s'. store_block check st p bi (block_of piece i) ip tc s = Some (Inr pb, put_buffer p (Some pb) tc, s')
    \<and> good s' \<and> changes_only tc p (content s) (content s') \<and> pb_wf pb \<and> pb_blocks pb = piece_block_count (length piece)
    \<and> assembled (put_buffer p (Some pb) tc) (content s') p piece (insert i js)"
proof -
  let ?pb = "piece_buffer_of p tc" and ?off = "piece_start tc p + i * BLOCK_SIZE" and ?d = "block_of piece i"
  note pb = piece_buffer_of_ok [OF assms(2), of p, folded i(2)]
  have fits: "?off + length ?d \<le> length (content s)"
    using block_of_fits(1) [OF i(1)] assms(5) i(2) by (simp add: piece_end_def)
  obtain s' where w: "st_write st s ?off ?d = (Inr (), s')" "good s'" "content s' = overwrite (content s) ?off ?d"
    using write_slice [OF assms(1) fits assms(11)] .
  obtain pb' where add: "pb_add_block ?pb bi ip = Some pb'" "pb_wf pb'" "pb_blocks pb' = pb_blocks ?pb"
      "{i. pb_has pb' i} = insert (unat bi) {i. pb_has ?pb i}"
    using pb_add_block_ok [OF pb(1), of bi ip] i(1) pb(2) bi by auto
  have new: "\<not> pb_is_block_present ?pb bi" using asm by (auto simp: assembled_def pb_is_block_present_has bi)
  have store: "store_block check st p bi ?d ip tc s = Some (Inr pb', put_buffer p (Some pb') tc, s')"
    using new assms(6) w(1) add(1) bi by (simp add: store_block_def Let_def tc' [symmetric])
      (simp add: tc' piece_start_def)
  have ch: "changes_only tc p (content s) (content s')"
    using fits block_of_fits(1) [OF i(1)] i(2) by (auto simp: changes_only_def w(3) nth_overwrite piece_end_def)
  have start: "piece_start (put_buffer p (Some pb') tc) p = piece_start tc p" by (simp add: piece_start_def)
  have keep: "bslice (content s') (piece_start tc p + j * BLOCK_SIZE) (piece_start tc p + j * BLOCK_SIZE + length (block_of piece j)) =
      block_of piece j" if "j \<in> js" for j
  proof -
    have "j < piece_block_count (length piece)"
      using that asm(1) pb by (auto simp: assembled_def pb_wf_def)
    note j = block_of_fits [OF this]
    have "j \<noteq> i" using that asm(2) by blast
    then have "Suc j * BLOCK_SIZE \<le> i * BLOCK_SIZE \<or> Suc i * BLOCK_SIZE \<le> j * BLOCK_SIZE"
      using mult_le_mono1 [of "Suc j" i BLOCK_SIZE] mult_le_mono1 [of "Suc i" j BLOCK_SIZE] by linarith
    then have "piece_start tc p + j * BLOCK_SIZE + length (block_of piece j) \<le> ?off \<or> ?off + length ?d \<le> piece_start tc p + j * BLOCK_SIZE"
      using j(3) block_of_fits(3) [OF i(1)] by auto
    then have "bslice (content s') (piece_start tc p + j * BLOCK_SIZE) (piece_start tc p + j * BLOCK_SIZE + length (block_of piece j)) =
        bslice (content s) (piece_start tc p + j * BLOCK_SIZE) (piece_start tc p + j * BLOCK_SIZE + length (block_of piece j))"
      unfolding w(3) using j(1) assms(5) i(2) fits by (intro bslice_overwrite_disjoint) (auto simp: piece_end_def)
    then show ?thesis using asm(1) that by (simp add: assembled_def)
  qed
  have "assembled (put_buffer p (Some pb') tc) (content s') p piece (insert i js)"
    unfolding assembled_def start
  proof (intro conjI ballI)
    show "{j. pb_has (piece_buffer_of p (put_buffer p (Some pb') tc)) j} = insert i js"
      using add(4) asm(1) bi by (simp add: assembled_def)
    fix j assume "j \<in> insert i js"
    then show "bslice (content s') (piece_start tc p + j * BLOCK_SIZE) (piece_start tc p + j * BLOCK_SIZE + length (block_of piece j)) =
        block_of piece j"
      using keep fits by (auto simp: w(3) bslice_overwrite_same)
  qed
  then show ?thesis using store w(2) ch add(2,3) pb(2) by auto
qed

end

section \<open>Delivering a piece\<close>

text \<open>What stays the same while a piece is assembled.\<close>

definition plain :: "TorrentContext \<Rightarrow> bool" where
  "plain tc \<longleftrightarrow> v1_only tc \<and> \<not> cfg_enable_adaptive_endgame (ctx_config tc) \<and> \<not> cfg_enable_async_verification (ctx_config tc)"

lemma block_checks_new:
  assumes "unat p < ctx_number_of_pieces tc" "ctx_number_of_pieces tc < 2 ^ 32"
    and "i < piece_block_count (length piece)" and "length piece = unat (tc_get_piece_length tc p)"
  shows "block_checks tc p (of_nat (i * BLOCK_SIZE)) (block_of piece i) = Inr ()"
proof -
  have l: "unat (tc_get_piece_length tc p) < 2 ^ LENGTH(32)" by (rule unsigned_less)
  have len: "length piece < 2 ^ 32" using l assms(4) by simp
  note B = block_of_fits(1) [OF assms(3)]
  have "length (block_of piece i) < 2 ^ 32" using B len by linarith
  then have u: "unat (of_nat (length (block_of piece i)) :: u32) = length (block_of piece i)" by (rule unat_small)
  have "\<not> of_nat (ctx_number_of_pieces tc) \<le> p"
    using assms(1) unat_small [OF assms(2)] by (simp add: word_le_nat_alt)
  moreover have "i * BLOCK_SIZE + length (block_of piece i) < 2 ^ 32" using B len by linarith
  ultimately show ?thesis
    using block_offset [OF assms(3) len] B unfolding block_checks_def Let_def u assms(4) by (simp add: not_le)
qed

context piece_storage
begin

lemma process_new_block:
  assumes inv: "pipe_inv sha1 good content (pl_tc pl) (pl_storage pl)" and sha1: "\<And>x. length (sha1 x) = HASH_LENGTH"
    and p: "unat p < ctx_number_of_pieces (pl_tc pl)" "\<not> tc_is_piece_local (pl_tc pl) p"
    and i: "i < piece_block_count (length piece)" "length piece = unat (tc_get_piece_length (pl_tc pl) p)"
    and plain: "plain (pl_tc pl)" and asm: "assembled (pl_tc pl) (content (pl_storage pl)) p piece js" "i \<notin> js"
    and takes: "storage_takes ok_write ok_discard (pl_tc pl) p (of_nat (i * BLOCK_SIZE)) (length (block_of piece i))"
  shows "\<exists>r pl'. process_piece_block sha1 H st p (of_nat (i * BLOCK_SIZE)) (block_of piece i) ip pl = Some (r, pl')
    \<and> (insert i js \<noteq> {..<piece_block_count (length piece)} \<longrightarrow> r = Inr False \<and> quiet (pl_tc pl) (pl_tc pl') \<and> plain (pl_tc pl')
        \<and> pipe_inv sha1 good content (pl_tc pl') (pl_storage pl')
        \<and> assembled (pl_tc pl') (content (pl_storage pl')) p piece (insert i js))
    \<and> (insert i js = {..<piece_block_count (length piece)} \<and> sha1 piece = piece_hash (pl_tc pl) p \<longrightarrow>
        r = Inr True \<and> tc_is_piece_local (pl_tc pl') = (tc_is_piece_local (pl_tc pl))(p := True)
        \<and> pipe_inv sha1 good content (pl_tc pl') (pl_storage pl'))"
proof -
  let ?tc = "pl_tc pl" and ?b = "of_nat (i * BLOCK_SIZE) :: u32" and ?d = "block_of piece i"
  let ?bi = "?b div of_nat BLOCK_SIZE"
  have I: "good (pl_storage pl)" "buffers_ok ?tc" "piece_end ?tc p \<le> length (content (pl_storage pl))" "ctx_number_of_pieces ?tc < 2 ^ 32"
    using inv p by (simp_all add: pipe_inv_def layout_ok_def tc_inv_def tc_wf_def)
  have l: "unat (tc_get_piece_length ?tc p) < 2 ^ LENGTH(32)" by (rule unsigned_less)
  then have off: "unat ?b = i * BLOCK_SIZE" "unat ?bi = i" using block_offset [OF i(1)] i(2) by simp_all
  have checks: "block_checks ?tc p ?b ?d = Inr ()" by (rule block_checks_new [OF p(1) I(4) i])
  have stage: "stage_arrival p ?bi ip ?tc = (False, ?tc)" using plain by (simp add: stage_arrival_def plain_def)
  have "verify_v2_block H (put_buffer p (Some (piece_buffer_of p ?tc)) ?tc) p ?bi ?d = Inr ()"
    by (rule v1_block_passes) (use plain in \<open>simp add: plain_def\<close>)
  moreover have "ok_write (piece_start ?tc p + i * BLOCK_SIZE) (length ?d)" using takes p(1) off by (simp add: storage_takes_def)
  ultimately obtain pb s where st: "store_block (\<lambda>tc. verify_v2_block H tc p ?bi ?d) st p ?bi ?d ip ?tc (pl_storage pl) =
      Some (Inr pb, put_buffer p (Some pb) ?tc, s)" "good s" "changes_only ?tc p (content (pl_storage pl)) (content s)"
      "pb_wf pb" "pb_blocks pb = piece_block_count (length piece)" "assembled (put_buffer p (Some pb) ?tc) (content s) p piece (insert i js)"
    using store_new_block [of "pl_storage pl" ?tc i piece p "\<lambda>tc. verify_v2_block H tc p ?bi ?d",
        OF I(1,2) i I(3) _ refl asm off(2)] by blast
  have all: "pb_all_blocks_there pb \<longleftrightarrow> insert i js = {..<piece_block_count (length piece)}"
  proof -
    have "{j. pb_has pb j} = insert i js" using st(6) by (simp add: assembled_def)
    moreover have "{j. pb_has pb j} \<subseteq> {..<pb_blocks pb}" using st(4) by (auto simp: pb_wf_def)
    ultimately show ?thesis using pb_complete_iff [OF st(4)] st(5) by auto
  qed
  have buf: "buffers_ok (put_buffer p (Some pb) ?tc)" "buffers_ok (put_buffer p None ?tc)"
    by (rule buffers_put [OF I(2)], use st(4,5) i(2) in auto)+
  note inv' = inv_changed [OF inv st(3,2) p(2) quiet_put_buffer]
  show ?thesis
  proof (cases "pb_all_blocks_there pb")
    case False
    then show ?thesis
      using checks stage st(1,6) p(2) inv' [OF buf(1)] all plain quiet_put_buffer [of ?tc p "Some pb"]
      by (simp add: process_piece_block_def Let_def plain_def quiet_def)
  next
    case True
    let ?pl = "pl\<lparr>pl_tc := put_buffer p None ?tc, pl_storage := s\<rparr>"
    have q: "quiet ?tc (pl_tc ?pl)" using quiet_put_buffer [of ?tc p None] by simp
    then have same: "same_pieces ?tc (pl_tc ?pl)" by (simp add: quiet_def)
    note S = same_piecesD [OF same]
    have eq: "process_piece_block sha1 H st p ?b ?d ip pl =
        piece_complete sha1 st p (tc_get_piece_length (pl_tc ?pl) p) (pb_block_sources pb) ?pl"
      using True checks stage st(1) p(2) by (simp add: process_piece_block_def Let_def)
    have "bslice (content s) (piece_start ?tc p) (piece_start ?tc p + length piece) = piece"
      using assembled_all [of "put_buffer p (Some pb) ?tc" "content s" p piece] st(3,6) True all I(3) i(2)
      by (simp add: piece_start_def piece_end_def changes_only_def)
    then have ver: "piece_verified sha1 (pl_tc ?pl) (content s) p \<longleftrightarrow> sha1 piece = piece_hash ?tc p"
      unfolding S by (simp add: piece_verified_def piece_end_def i(2))
    have "\<exists>r pl'. piece_complete sha1 st p (tc_get_piece_length (pl_tc ?pl) p) (pb_block_sources pb) ?pl = Some (r, pl')
      \<and> pipe_inv sha1 good content (pl_tc pl') (pl_storage pl') \<and> same_pieces (pl_tc ?pl) (pl_tc pl')
      \<and> ctx_config (pl_tc pl') = ctx_config (pl_tc ?pl)
      \<and> (\<not> cfg_enable_async_verification (ctx_config (pl_tc ?pl)) \<longrightarrow>
          (r = Inr True \<longleftrightarrow> piece_verified sha1 (pl_tc ?pl) (content (pl_storage ?pl)) p) \<and> (\<exists>e. r = Inr True \<or> r = Inl e)
          \<and> tc_is_piece_local (pl_tc pl') = (tc_is_piece_local (pl_tc ?pl))(p := (r = Inr True)))"
      by (rule piece_complete_ok [OF _ _ _ sha1])
        (use inv' [OF buf(2)] p q takes in \<open>simp_all add: S storage_takes_def quiet_def\<close>)
    then show ?thesis
      unfolding eq using ver all True plain q by (auto simp: quiet_def plain_def)
  qed
qed

end

definition piece_blocks :: "u32 \<Rightarrow> bytes \<Rightarrow> (nat \<times> string) list \<Rightarrow> (u32 \<times> u32 \<times> bytes \<times> string) list" where
  "piece_blocks p piece arrivals = map (\<lambda>(i, ip). (p, of_nat (i * BLOCK_SIZE), block_of piece i, ip)) arrivals"

context piece_storage
begin

lemma deliver_piece:
  assumes sha1: "\<And>x. length (sha1 x) = HASH_LENGTH" and hash: "sha1 piece = piece_hash (pl_tc pl) p"
    and "pipe_inv sha1 good content (pl_tc pl) (pl_storage pl)"
    and "unat p < ctx_number_of_pieces (pl_tc pl)" "\<not> tc_is_piece_local (pl_tc pl) p"
    and "length piece = unat (tc_get_piece_length (pl_tc pl) p)" and "plain (pl_tc pl)"
    and "assembled (pl_tc pl) (content (pl_storage pl)) p piece js"
    and "arrivals \<noteq> []" "distinct (map fst arrivals)" "set (map fst arrivals) \<inter> js = {}"
      "set (map fst arrivals) \<union> js = {..<piece_block_count (length piece)}"
    and "\<And>i. storage_takes ok_write ok_discard (pl_tc pl) p (of_nat (i * BLOCK_SIZE)) (length (block_of piece i))"
  shows "\<exists>pl'. deliver sha1 H st (piece_blocks p piece arrivals) pl = Some (replicate (length arrivals - 1) (Inr False) @ [Inr True], pl')
    \<and> tc_is_piece_local (pl_tc pl') = (tc_is_piece_local (pl_tc pl))(p := True)
    \<and> pipe_inv sha1 good content (pl_tc pl') (pl_storage pl')"
  using assms(2-)
proof (induction arrivals arbitrary: pl js)
  case (Cons a arrivals)
  obtain i ip where a: "a = (i, ip)" by (cases a)
  have i: "i < piece_block_count (length piece)" "i \<notin> js" using Cons.prems(10,11) by (auto simp: a)
  note step = process_new_block [OF Cons.prems(2) sha1 Cons.prems(3,4) i(1) Cons.prems(5,6,7) i(2) Cons.prems(12), of H ip]
  let ?all = "{..<piece_block_count (length piece)}"
  have rest: "set (map fst arrivals) \<union> insert i js = ?all" "set (map fst arrivals) \<inter> insert i js = {}" "distinct (map fst arrivals)"
    using Cons.prems(9,10,11) by (auto simp: a)
  show ?case
  proof (cases "arrivals = []")
    case True
    then have "insert i js = ?all" using rest(1) by simp
    then show ?thesis using step Cons.prems(1) True by (auto simp: piece_blocks_def a)
  next
    case False
    then have "insert i js \<noteq> ?all" using rest by (cases arrivals) auto
    then obtain pl1 where s: "process_piece_block sha1 H st p (of_nat (i * BLOCK_SIZE)) (block_of piece i) ip pl = Some (Inr False, pl1)"
      "quiet (pl_tc pl) (pl_tc pl1)" "plain (pl_tc pl1)" "pipe_inv sha1 good content (pl_tc pl1) (pl_storage pl1)"
      "assembled (pl_tc pl1) (content (pl_storage pl1)) p piece (insert i js)"
      using step by blast
    have same: "same_pieces (pl_tc pl) (pl_tc pl1)" "tc_is_piece_local (pl_tc pl1) = tc_is_piece_local (pl_tc pl)"
      using s(2) by (simp_all add: quiet_def)
    note S = same_piecesD [OF same(1)]
    have "\<exists>pl'. deliver sha1 H st (piece_blocks p piece arrivals) pl1 = Some (replicate (length arrivals - 1) (Inr False) @ [Inr True], pl')
      \<and> tc_is_piece_local (pl_tc pl') = (tc_is_piece_local (pl_tc pl1))(p := True)
      \<and> pipe_inv sha1 good content (pl_tc pl') (pl_storage pl')"
      by (rule Cons.IH [OF _ s(4) _ _ _ s(3,5) False rest(3,2,1)])
        (use Cons.prems in \<open>simp_all add: S same(2) storage_takes_def\<close>)
    then obtain pl' where d: "deliver sha1 H st (piece_blocks p piece arrivals) pl1 =
        Some (replicate (length arrivals - 1) (Inr False) @ [Inr True], pl')"
      "tc_is_piece_local (pl_tc pl') = (tc_is_piece_local (pl_tc pl))(p := True)"
      "pipe_inv sha1 good content (pl_tc pl') (pl_storage pl')"
      unfolding same(2) by blast
    have "deliver sha1 H st (piece_blocks p piece (a # arrivals)) pl =
        Some (Inr False # replicate (length arrivals - 1) (Inr False) @ [Inr True], pl')"
      using s(1) d(1) by (simp add: piece_blocks_def a)
    moreover have "Inr False # replicate (length arrivals - 1) (Inr False) @ [Inr True] =
        replicate (length (a # arrivals) - 1) (Inr False) @ [Inr True :: bool result]"
      using False by (cases arrivals) simp_all
    ultimately show ?thesis using d(2,3) by (intro exI [of _ pl']) simp
  qed
qed simp

end


definition first_byte_hash :: "bytes \<Rightarrow> bytes" where
  "first_byte_hash d = replicate 20 (hd (d @ [0]))"


end
