(* ===== verification/Pipeline_Limits.thy ===== *)
theory Pipeline_Limits
  imports Pipeline_Progress
begin

text \<open>
  Where the guarantees of the pipeline end: situations, each proved for the model, in which the
  code does something its authors would not want.
\<close>

section \<open>Blocks longer than a block\<close>

text \<open>
  A block may be as long as the rest of its piece. Over the cache such a block hides below a later
  entry: here the second block of a piece is received and flushed, then a first block that runs on
  over the second. Both reads of the verification return the right data, yet the flush that
  follows writes the tail of the long block over the second one.
\<close>

lemma oversized_block_resurfaces:
  assumes "block_storage st good content (\<lambda>_ _ _. True)" and "good s" and "content s = base" and "length base = 2 * n" and "0 < n"
    and len: "length first_block = n" "length second_block = n" "length junk = n"
    and "3 * n \<le> mx" and "2 * n \<le> U64_MAX"
    and c1: "c1 = snd (cache_write_block st 1 (cache_new s mx) n second_block)"
    and c2: "c2 = snd (flush_all st c1)"
    and c3: "c3 = snd (cache_write_block st 2 c2 0 (first_block @ junk))"
    and c4: "(r4, c4) = cache_read_block st 3 (replicate n 0) c3 0"
    and c5: "(r5, c5) = cache_read_block st 4 (replicate n 0) c4 n"
    and c6: "c6 = snd (flush_all st c5)"
  shows "r4 = Inr first_block \<and> r5 = Inr second_block \<and> content (cs_inner c6) = first_block @ junk"
proof -
  have ne: "second_block \<noteq> []" "first_block \<noteq> []" "first_block @ junk \<noteq> []" using len \<open>0 < n\<close> by auto
  have C1: "c1 = (cache_put 1 n second_block (cache_new s mx))" "cs_inner c1 = s"
    "cs_blocks c1 = [(n, \<lparr>cb_data = second_block, cb_dirty = True, cb_last_accessed = 1\<rparr>)]"
    "current_cached_bytes c1 = n" "max_cache_bytes c1 = mx"
    using ne len assms(9,10)
    by (simp_all add: c1 cache_write_block_def checked_add_def evict_if_needed_def cache_put_def cache_new_def Let_def)
  obtain s1 where w1: "st_write st s n second_block = (Inr (), s1)" "good s1" "content s1 = overwrite base n second_block"
    using block_storage.write_ok [OF assms(1,2), of n second_block] assms(3,4) len(2) by auto
  have C2: "cs_inner c2 = s1" "cs_blocks c2 = [(n, \<lparr>cb_data = second_block, cb_dirty = False, cb_last_accessed = 1\<rparr>)]"
    "current_cached_bytes c2 = n" "max_cache_bytes c2 = mx"
    using C1(2-5) w1(1)
    by (simp_all add: c2 flush_all_def flush_internal_def Let_def flushable_def in_range_filter_def coalesce_def coalesce_step_def
        mark_clean_def)
  have C3: "cs_inner c3 = s1" "cs_blocks c3 = [(0, \<lparr>cb_data = first_block @ junk, cb_dirty = True, cb_last_accessed = 2\<rparr>),
      (n, \<lparr>cb_data = second_block, cb_dirty = False, cb_last_accessed = 1\<rparr>)]"
    using C2 ne(3) len assms(5,9,10)
    by (simp_all add: c3 cache_write_block_def checked_add_def evict_if_needed_def cache_put_def Let_def)
  have C4: "r4 = Inr first_block" "cs_inner c4 = s1" "cs_blocks c4 = [(0, \<lparr>cb_data = first_block @ junk, cb_dirty = True, cb_last_accessed = 3\<rparr>),
      (n, \<lparr>cb_data = second_block, cb_dirty = False, cb_last_accessed = 1\<rparr>)]"
    using c4 C3 len assms(5,10) by (simp_all add: cache_read_block_def cache_read_exact_def checked_add_def)
  have C5: "r5 = Inr second_block" "cs_inner c5 = s1" "cs_blocks c5 = [(0, \<lparr>cb_data = first_block @ junk, cb_dirty = True, cb_last_accessed = 3\<rparr>),
      (n, \<lparr>cb_data = second_block, cb_dirty = False, cb_last_accessed = 4\<rparr>)]"
    using c5 C4(2,3) len assms(5,10) by (simp_all add: cache_read_block_def cache_read_exact_def checked_add_def)
  obtain s2 where w2: "st_write st s1 0 (first_block @ junk) = (Inr (), s2)" "content s2 = overwrite (content s1) 0 (first_block @ junk)"
    using block_storage.write_ok [OF assms(1) w1(2), of 0 "first_block @ junk"] w1(3) assms(4) len by auto
  have "cs_inner c6 = s2"
    using C5(2,3) w2(1) by (simp add: c6 flush_all_def flush_internal_def Let_def flushable_def in_range_filter_def coalesce_def
        coalesce_step_def)
  moreover have "content s2 = first_block @ junk" using w2(2) w1(3) assms(4) len by (simp add: overwrite_def)
  ultimately show ?thesis using C4(1) C5(1) by simp
qed

section \<open>Empty blocks\<close>

text \<open>
  An empty block at the end of a piece of whole blocks passes the bounds check, and recording it
  indexes the buffer out of range.
\<close>

lemma empty_block_panics:
  assumes "unat p < ctx_number_of_pieces (pl_tc pl)" and "ctx_number_of_pieces (pl_tc pl) < 2 ^ 32"
    and "\<not> tc_is_piece_local (pl_tc pl) p" and plain: "plain (pl_tc pl)" and "buffers_ok (pl_tc pl)"
    and whole: "unat (tc_get_piece_length (pl_tc pl) p) mod BLOCK_SIZE = 0"
    and "\<And>s off. fst (st_write st s off []) = Inr ()"
  shows "process_piece_block sha1 H st p (tc_get_piece_length (pl_tc pl) p) [] ip pl = None"
proof -
  let ?tc = "pl_tc pl" and ?len = "tc_get_piece_length (pl_tc pl) p"
  let ?bi = "?len div of_nat BLOCK_SIZE" and ?pb = "piece_buffer_of p (pl_tc pl)"
  have B: "unat (of_nat BLOCK_SIZE :: u32) = BLOCK_SIZE" by (rule unat_small) (simp add: BLOCK_SIZE_def)
  have "unat (?len mod of_nat BLOCK_SIZE) = 0" unfolding unat_mod_distrib B by (rule whole)
  then have al: "?len mod of_nat BLOCK_SIZE = 0" by (metis unat_eq_zero)
  have "unat ?len < 2 ^ LENGTH(32)" by (rule unsigned_less)
  moreover have "\<not> of_nat (ctx_number_of_pieces ?tc) \<le> p"
    using assms(1) unat_small [OF assms(2)] by (simp add: word_le_nat_alt)
  ultimately have checks: "block_checks ?tc p ?len [] = Inr ()" using al by (simp add: block_checks_def Let_def)
  note pb = piece_buffer_of_ok [OF assms(5), of p]
  have "piece_block_count (unat ?len) = unat ?len div BLOCK_SIZE"
  proof -
    have l: "unat ?len = unat ?len div BLOCK_SIZE * BLOCK_SIZE" using div_mult_mod_eq [of "unat ?len" BLOCK_SIZE] whole by simp
    have "0 < BLOCK_SIZE" by (simp add: BLOCK_SIZE_def)
    then have "(k * BLOCK_SIZE + BLOCK_SIZE - 1) div BLOCK_SIZE = k" for k
    proof -
      assume B: "0 < BLOCK_SIZE"
      then have "k * BLOCK_SIZE + BLOCK_SIZE - 1 = BLOCK_SIZE - 1 + k * BLOCK_SIZE" by simp
      then show ?thesis using B by (simp only: div_mult_self1) simp
    qed
    from this [of "unat ?len div BLOCK_SIZE"] show ?thesis unfolding piece_block_count_def l [symmetric] .
  qed
  then have out: "pb_blocks ?pb \<le> unat ?bi" by (simp only: pb(2) unat_div_distrib B)
  have none: "pb_add_block ?pb ?bi ip = None" by (rule pb_add_block_panics [OF pb(1) out])
  have absent: "\<not> pb_is_block_present ?pb ?bi" using none by (auto simp: pb_add_block_def)
  have v2: "verify_v2_block H (put_buffer p (Some ?pb) ?tc) p ?bi [] = Inr ()"
    by (rule v1_block_passes) (use plain in \<open>simp add: plain_def\<close>)
  obtain s' where "st_write st (pl_storage pl) (unat p * unat (ctx_piece_length ?tc) + unat ?bi * BLOCK_SIZE) [] = (Inr (), s')"
    using assms(7) by (metis prod.collapse)
  then have "store_block (\<lambda>tc. verify_v2_block H tc p ?bi []) st p ?bi [] ip ?tc (pl_storage pl) = None"
    using absent none v2 by (simp add: store_block_def Let_def)
  moreover have "stage_arrival p ?bi ip ?tc = (False, ?tc)" using plain by (simp add: stage_arrival_def plain_def)
  ultimately show ?thesis using checks assms(3) by (simp add: process_piece_block_def Let_def)
qed

section \<open>Blocks that failed once\<close>

text \<open>
  With the endgame staging on, a block is marked as committed before it is checked and written.
  When that fails, every later copy of the block is taken for a duplicate: the piece can never be
  completed.
\<close>

lemma failed_block_absorbs_retries:
  assumes cfg: "cfg_enable_adaptive_endgame (ctx_config (pl_tc pl))"
    and first: "process_piece_block sha1 H st p b d ip pl = Some (Inl e, pl')"
    and passed: "block_checks (pl_tc pl) p b d = Inr ()" "\<not> tc_is_piece_local (pl_tc pl) p"
    and incomplete: "\<And>r tc s. store_block (\<lambda>tc. verify_v2_block H tc p (b div of_nat BLOCK_SIZE) d) st p (b div of_nat BLOCK_SIZE) d ip
        (snd (stage_arrival p (b div of_nat BLOCK_SIZE) ip (pl_tc pl))) (pl_storage pl) = Some (r, tc, s) \<Longrightarrow> isl r"
    and again: "block_checks (pl_tc pl') p b d' = Inr ()"
  shows "\<exists>pl''. process_piece_block sha1 H st p b d' ip' pl' = Some (Inr False, pl'') \<and> pl_storage pl'' = pl_storage pl'
    \<and> ctx_assembler (pl_tc pl'') = ctx_assembler (pl_tc pl')"
proof -
  let ?bi = "b div of_nat BLOCK_SIZE :: u32"
  obtain absorbed tc1 where stage: "stage_arrival p ?bi ip (pl_tc pl) = (absorbed, tc1)" by fastforce
  have na: "\<not> absorbed" using first passed stage by (auto simp: process_piece_block_def Let_def)
  have com: "(p, ?bi) \<in> es_committed (ctx_endgame_staging tc1)"
    using stage cfg na by (auto simp: stage_arrival_def on_block_arrived_def Let_def split: prod.splits BlockArrivalOutcome.splits if_splits option.splits)
  have q1: "quiet (pl_tc pl) tc1" using quiet_stage [of "pl_tc pl" p ?bi ip] stage by simp
  obtain tc2 s2 where store: "store_block (\<lambda>tc. verify_v2_block H tc p ?bi d) st p ?bi d ip tc1 (pl_storage pl) = Some (Inl e, tc2, s2)"
    and pl': "pl' = pl\<lparr>pl_tc := tc2, pl_storage := s2\<rparr>"
    using first passed stage na incomplete
    by (auto simp: process_piece_block_def Let_def split: option.splits prod.splits sum.splits if_splits)
  have "tc2 = put_buffer p (Some (piece_buffer_of p tc1)) tc1"
    using store by (auto simp: store_block_def Let_def split: if_splits sum.splits prod.splits)
  then have tc2: "ctx_endgame_staging tc2 = ctx_endgame_staging tc1" "quiet (pl_tc pl) tc2"
    using quiet_trans [OF q1 quiet_put_buffer] by (simp_all add: put_buffer_def)
  have "\<not> tc_is_piece_local tc2 p" "cfg_enable_adaptive_endgame (ctx_config tc2)"
    using tc2(2) passed(2) cfg by (simp_all add: quiet_def)
  then show ?thesis
    using again com tc2(1) by (simp add: pl' process_piece_block_def Let_def stage_arrival_def on_block_arrived_def)
qed

section \<open>Rechecks\<close>

text \<open>
  A recheck that finds a local piece corrupt marks it missing but leaves it local: it is still
  served, and blocks that would repair it are ignored.
\<close>

lemma corrupt_piece_stays_local:
  assumes "tc_inv tc" and "unat (res_piece_number r) < ctx_number_of_pieces tc"
    and "tc_is_piece_local tc (res_piece_number r)" and "\<not> res_is_valid r"
    and res: "apply_piece_verification_result st r tc s = (ok, tc', s')"
  shows "tc_is_piece_local tc' (res_piece_number r) \<and> tc_is_piece_missing tc' (res_piece_number r)
    \<and> process_piece_block sha1 H st (res_piece_number r) b d ip \<lparr>pl_tc = tc', pl_pool = pool, pl_storage = s'\<rparr>
      \<in> {Some (x, \<lparr>pl_tc = tc', pl_pool = pool, pl_storage = s'\<rparr>) | x. x = Inr False \<or> isl x}"
proof -
  let ?p = "res_piece_number r"
  define tc1 where "tc1 = fold (\<lambda>src tc. case src of Some ip \<Rightarrow> report_bad_peer ip tc | None \<Rightarrow> tc) (res_block_sources r)
    (tc_clear_piece_requests ?p (mark_piece_verifying ?p False tc))"
  have q: "quiet tc tc1"
    unfolding tc1_def using quiet_trans [OF quiet_trans [OF quiet_verifying quiet_clear] quiet_report_all] .
  have tc': "tc' = tc_mark_piece_missing tc1 ?p True"
    using res assms(4) by (simp add: apply_piece_verification_result_def reject_piece_def Let_def tc1_def)
  then have q': "quiet tc tc'" using quiet_trans [OF q quiet_mark_missing] by simp
  then have loc: "tc_is_piece_local tc' ?p" and inv: "tc_inv tc'" and n: "ctx_number_of_pieces tc' = ctx_number_of_pieces tc"
    using assms(1,3) by (simp_all add: quiet_def same_pieces_def)
  have "bf_get (ctx_pieces_missing tc') ?p"
  proof -
    have "bf_range (ctx_pieces_missing tc') ?p" using inv assms(2) n by (simp add: tc_inv_def tc_wf_def bf_range_def)
    then show ?thesis by (simp add: tc' tc_mark_piece_missing_simp bf_get_put bf_range_def)
  qed
  then have "tc_is_piece_missing tc' ?p" using tc_is_piece_missing_get [OF tc_invD(2) [OF inv]] by simp
  then show ?thesis using loc by (auto simp: process_piece_block_def Let_def split: sum.split)
qed

text \<open>The parallel scan replaces the context's bitfields only.\<close>

lemma parallel_scan_leaves_copies:
  assumes "create_torrent_bitfield_parallel piece_length events tc = Some tc'"
  shows "ctx_piece_store tc' = ctx_piece_store tc \<and> ctx_piece_manager tc' = ctx_piece_manager tc"
proof -
  have "ctx_piece_store (fst (fold (count_piece piece_length) ps x)) = ctx_piece_store (fst x)
      \<and> ctx_piece_manager (fst (fold (count_piece piece_length) ps x)) = ctx_piece_manager (fst x)" for ps x
    by (induction ps arbitrary: x) (auto simp: count_piece_def Let_def tc_set_piece_length_def split: prod.split)
  then show ?thesis using assms by (auto simp: create_torrent_bitfield_parallel_def Let_def case_prod_beta)
qed

section \<open>Blocks that arrive after the verification\<close>

lemma accept_marks_local:
  assumes "tc_inv tc" and "unat p < ctx_number_of_pieces tc"
  shows "tc_is_piece_local (fst (accept_piece st p len tc s)) p" "snd (accept_piece st p len tc s) = snd (st_flush st s)"
proof -
  let ?tc1 = "tc_update_bitfield_status tc p True len"
  have "quiet ?tc1 (fst (accept_piece st p len tc s))"
    using quiet_trans [OF quiet_trans [OF quiet_broadcast quiet_try_complete] quiet_clear] by (simp add: accept_piece_def Let_def)
  then show "tc_is_piece_local (fst (accept_piece st p len tc s)) p"
    using local_after_update [OF assms, of True len p] by (simp add: quiet_def)
  show "snd (accept_piece st p len tc s) = snd (st_flush st s)" by (simp add: accept_piece_def Let_def)
qed

text \<open>
  With background verification a piece whose job has succeeded still takes blocks until the result
  is applied. Such a block is written, and the piece then counts as local with that block in it,
  whatever it contains.
\<close>

lemma late_block_corrupts_piece:
  assumes inv: "pipe_inv sha1 dbs_good dbs_content (pl_tc pl) (pl_storage pl)"
    and p: "unat p < ctx_number_of_pieces (pl_tc pl)" "\<not> tc_is_piece_local (pl_tc pl) p"
    and buf: "piece_buffers (ctx_assembler (pl_tc pl)) p = None"
    and cfg: "v1_only (pl_tc pl)" "\<not> cfg_enable_adaptive_endgame (ctx_config (pl_tc pl))"
    and evil: "length evil = unat (tc_get_piece_length (pl_tc pl) p)" "i < piece_block_count (length evil)" "2 \<le> piece_block_count (length evil)"
    and pool: "vp_results (pl_pool pl) = [r]" "res_is_valid r" "res_piece_number r = p"
  shows "\<exists>pl'. process_piece_block sha1 H disk_block_storage p (of_nat (i * BLOCK_SIZE)) (block_of evil i) ip pl = Some (Inr False, pl')
    \<and> tc_is_piece_local (pl_tc (snd (drain_verification_results disk_block_storage pl'))) p
    \<and> bslice (dbs_content (pl_storage (snd (drain_verification_results disk_block_storage pl')))) (piece_start (pl_tc pl) p + i * BLOCK_SIZE)
        (piece_start (pl_tc pl) p + i * BLOCK_SIZE + length (block_of evil i)) = block_of evil i"
proof -
  let ?tc = "pl_tc pl" and ?b = "of_nat (i * BLOCK_SIZE) :: u32" and ?d = "block_of evil i"
  let ?bi = "?b div of_nat BLOCK_SIZE"
  have I: "dbs_good (pl_storage pl)" "buffers_ok ?tc" "piece_end ?tc p \<le> length (dbs_content (pl_storage pl))"
      "ctx_number_of_pieces ?tc < 2 ^ 32" "tc_inv ?tc"
    using inv p by (simp_all add: pipe_inv_def layout_ok_def tc_inv_def tc_wf_def)
  have l: "unat (tc_get_piece_length ?tc p) < 2 ^ LENGTH(32)" by (rule unsigned_less)
  then have bi: "unat ?bi = i" using block_offset [OF evil(2)] evil(1) by simp
  have empty: "assembled ?tc (dbs_content (pl_storage pl)) p evil {}" by (simp add: assembled_def piece_buffer_of_def buf)
  have v2: "verify_v2_block H (put_buffer p (Some (piece_buffer_of p ?tc)) ?tc) p ?bi ?d = Inr ()"
    by (rule v1_block_passes) (use cfg in simp)
  obtain pb s where st: "store_block (\<lambda>tc. verify_v2_block H tc p ?bi ?d) disk_block_storage p ?bi ?d ip ?tc (pl_storage pl) =
      Some (Inr pb, put_buffer p (Some pb) ?tc, s)" "pb_wf pb" "pb_blocks pb = piece_block_count (length evil)"
      "assembled (put_buffer p (Some pb) ?tc) (dbs_content s) p evil {i}"
    using disk_pieces.store_new_block [of "pl_storage pl" ?tc i evil p "\<lambda>tc. verify_v2_block H tc p ?bi ?d",
        OF I(1,2) evil(2,1) I(3) v2 refl empty _ bi, of ip] by auto
  have "{j. pb_has pb j} = {i}" using st(4) by (simp add: assembled_def)
  then have "\<not> pb_all_blocks_there pb"
    unfolding pb_complete_iff [OF st(2)] st(3) using evil(3)
    by (intro notI) (metis One_nat_def mem_Collect_eq n_not_Suc_n numeral_2_eq_2 order_less_le_trans singletonD zero_less_Suc lessI)
  then have step: "process_piece_block sha1 H disk_block_storage p ?b ?d ip pl =
      Some (Inr False, pl\<lparr>pl_tc := put_buffer p (Some pb) ?tc, pl_storage := s\<rparr>)"
    using block_checks_new [OF p(1) I(4) evil(2,1)] p(2) cfg(2) st(1) by (simp add: process_piece_block_def Let_def stage_arrival_def)
  let ?pl = "pl\<lparr>pl_tc := put_buffer p (Some pb) ?tc, pl_storage := s\<rparr>"
  let ?t = "mark_piece_verifying p False (put_buffer p (Some pb) ?tc)"
  have "quiet ?tc ?t" using quiet_trans [OF quiet_put_buffer quiet_verifying] .
  then have t: "tc_inv ?t" "unat p < ctx_number_of_pieces ?t" using I(5) p(1) by (simp_all add: quiet_def same_pieces_def)
  have drain: "pl_tc (snd (drain_verification_results disk_block_storage ?pl)) = fst (accept_piece disk_block_storage p (res_piece_length r) ?t s)"
    "pl_storage (snd (drain_verification_results disk_block_storage ?pl)) = snd (accept_piece disk_block_storage p (res_piece_length r) ?t s)"
    using pool by (simp_all add: drain_verification_results_def poll_results_def apply_piece_verification_result_def Let_def case_prod_beta)
  have "snd (accept_piece disk_block_storage p (res_piece_length r) ?t s) = s"
    unfolding accept_marks_local(2) [OF t] by (simp add: disk_block_storage_def)
  then show ?thesis
    using step drain accept_marks_local(1) [OF t] st(4) by (simp add: assembled_def)
qed

end
