(* ===== verification/Utp_Packet.thy ===== *)
theory Utp_Packet
  imports Bitfield
begin

text \<open>
  Packets of the uTP transport (\<open>network/utp.rs\<close>): the header with its chain of extensions, the
  selective acknowledgement bitmask, the gaps of a receiver and the circular comparison of
  sequence numbers. Headers survive encoding and decoding with any payload behind them, a
  decoded header is re-encoded byte for byte, the bitmask names exactly the packets it was built
  from, and the gaps are exactly the numbers that are missing.
\<close>

section \<open>Header and extensions\<close>

definition UTP_EXT_SACK :: u8 where "UTP_EXT_SACK = 1"

datatype UtpExtension = SelectiveAck bytes | UnknownExtension u8 bytes

fun extension_type :: "UtpExtension \<Rightarrow> u8" where
  "extension_type (SelectiveAck _) = UTP_EXT_SACK"
| "extension_type (UnknownExtension t _) = t"

fun extension_data :: "UtpExtension \<Rightarrow> bytes" where
  "extension_data (SelectiveAck d) = d"
| "extension_data (UnknownExtension _ d) = d"

datatype UtpPacketType = UtpData | UtpAck | UtpSyn | UtpReset | UtpState

fun packet_type_code :: "UtpPacketType \<Rightarrow> u8" where
  "packet_type_code UtpData = 0"
| "packet_type_code UtpAck = 1"
| "packet_type_code UtpSyn = 2"
| "packet_type_code UtpReset = 3"
| "packet_type_code UtpState = 4"

definition packet_type_of :: "u8 \<Rightarrow> UtpPacketType option" where
  "packet_type_of val = (if val = 0 then Some UtpData else if val = 1 then Some UtpAck
     else if val = 2 then Some UtpSyn else if val = 3 then Some UtpReset
     else if val = 4 then Some UtpState else None)"

record UtpHeader =
  hd_packet_type :: UtpPacketType
  hd_version :: u8
  hd_extension :: u8
  hd_connection_id :: u16
  hd_timestamp_us :: u32
  hd_timestamp_difference_us :: u32
  hd_wnd_size :: u32
  hd_seq_nr :: u16
  hd_ack_nr :: u16
  hd_extensions :: "UtpExtension list"

text \<open>The loop over the extensions of \<open>UtpHeader::decode\<close>; every round consumes two bytes.\<close>

function decode_extensions :: "bytes \<Rightarrow> u8 \<Rightarrow> nat \<Rightarrow> UtpExtension list result" where
  "decode_extensions buf ext_type offset =
    (if ext_type = 0 then Inr []
     else if length buf < offset + 2 then Inl (Parse ''uTP extension header truncated'')
     else
       let next_ext = buf ! offset; ext_len = unat (buf ! (offset + 1)); offset = offset + 2 in
       if length buf < offset + ext_len then Inl (Parse ''uTP extension data truncated'')
       else
         let ext_data = bslice buf offset (offset + ext_len);
             ext = (if ext_type = UTP_EXT_SACK then SelectiveAck ext_data else UnknownExtension ext_type ext_data)
         in rbind (decode_extensions buf next_ext (offset + ext_len)) (\<lambda>exts. Inr (ext # exts)))"
  by auto
termination decode_extensions
  by (relation "measure (\<lambda>(buf, t, offset). length buf - offset)") auto

declare decode_extensions.simps [simp del]

definition utp_decode :: "bytes \<Rightarrow> UtpHeader result" where
  "utp_decode buf =
    (if length buf < 20 then Inl (Parse ''uTP header too short'')
     else
       let type_ver = buf ! 0 in
       case packet_type_of (drop_bit 4 type_ver) of
         None \<Rightarrow> Inl (Parse ''Invalid uTP packet type'')
       | Some packet_type \<Rightarrow>
           let extension = buf ! 1 in
           rbind (decode_extensions buf extension 20) (\<lambda>exts. Inr
             \<lparr>hd_packet_type = packet_type, hd_version = type_ver AND 0x0F, hd_extension = extension,
              hd_connection_id = from_be (bslice buf 2 4), hd_timestamp_us = from_be (bslice buf 4 8),
              hd_timestamp_difference_us = from_be (bslice buf 8 12), hd_wnd_size = from_be (bslice buf 12 16),
              hd_seq_nr = from_be (bslice buf 16 18), hd_ack_nr = from_be (bslice buf 18 20),
              hd_extensions = exts\<rparr>))"

fun encode_extensions :: "UtpExtension list \<Rightarrow> bytes" where
  "encode_extensions [] = []"
| "encode_extensions (e # es) =
    (case es of [] \<Rightarrow> 0 | e' # _ \<Rightarrow> extension_type e') # of_nat (length (extension_data e)) # extension_data e
      @ encode_extensions es"

definition utp_encode :: "UtpHeader \<Rightarrow> bytes" where
  "utp_encode h =
    (let first_ext = (case hd_extensions h of [] \<Rightarrow> hd_extension h | e # _ \<Rightarrow> extension_type e) in
     [push_bit 4 (packet_type_code (hd_packet_type h)) OR (hd_version h AND 0x0F), first_ext]
       @ u16_to_be_bytes (hd_connection_id h) @ u32_to_be_bytes (hd_timestamp_us h)
       @ u32_to_be_bytes (hd_timestamp_difference_us h) @ u32_to_be_bytes (hd_wnd_size h)
       @ u16_to_be_bytes (hd_seq_nr h) @ u16_to_be_bytes (hd_ack_nr h)
       @ encode_extensions (hd_extensions h))"

definition total_header_len :: "UtpHeader \<Rightarrow> nat" where
  "total_header_len h = 20 + sum_list (map (\<lambda>e. 2 + length (extension_data e)) (hd_extensions h))"

fun sack_bitmask_of :: "UtpExtension list \<Rightarrow> bytes option" where
  "sack_bitmask_of [] = None"
| "sack_bitmask_of (SelectiveAck m # es) = Some m"
| "sack_bitmask_of (UnknownExtension _ _ # es) = sack_bitmask_of es"

definition sack_bitmask :: "UtpHeader \<Rightarrow> bytes option" where
  "sack_bitmask h = sack_bitmask_of (hd_extensions h)"

definition with_sack :: "bytes \<Rightarrow> UtpHeader \<Rightarrow> UtpHeader" where
  "with_sack bitmask h = h\<lparr>hd_extension := UTP_EXT_SACK, hd_extensions := hd_extensions h @ [SelectiveAck bitmask]\<rparr>"

section \<open>Selective acknowledgements\<close>

text \<open>\<open>seq \<le> ack\<close> in the circular space of 16-bit sequence numbers.\<close>

definition seq_acked :: "u16 \<Rightarrow> u16 \<Rightarrow> bool" where
  "seq_acked seq ack \<longleftrightarrow> ack - seq < 32768"

definition sack_offset :: "u16 \<Rightarrow> u16 \<Rightarrow> nat option" where
  "sack_offset ack_nr seq =
    (let diff = seq - ack_nr in if 2 \<le> diff \<and> diff < 32768 then Some (unat (diff - 2)) else None)"

definition max_bit_offset :: "u16 \<Rightarrow> u16 list \<Rightarrow> nat option" where
  "max_bit_offset ack_nr received_seqs = foldl (\<lambda>m seq. case sack_offset ack_nr seq of None \<Rightarrow> m
     | Some bit_offset \<Rightarrow> Some (case m of None \<Rightarrow> bit_offset | Some k \<Rightarrow> max k bit_offset)) None received_seqs"

definition sack_set_bit :: "u16 \<Rightarrow> nat \<Rightarrow> bytes \<Rightarrow> u16 \<Rightarrow> bytes" where
  "sack_set_bit ack_nr num_bytes bitmask seq = (case sack_offset ack_nr seq of None \<Rightarrow> bitmask
     | Some bit_offset \<Rightarrow>
         let byte_idx = bit_offset div 8; bit_idx = bit_offset mod 8 in
         if byte_idx < num_bytes then bitmask[byte_idx := bitmask ! byte_idx OR push_bit bit_idx 1] else bitmask)"

definition build_sack_bitmask :: "u16 \<Rightarrow> u16 list \<Rightarrow> bytes" where
  "build_sack_bitmask ack_nr received_seqs = (case max_bit_offset ack_nr received_seqs of
     None \<Rightarrow> []
   | Some max_offset \<Rightarrow>
       let min_bytes = max_offset div 8 + 1;
           num_bytes = max ((min_bytes + 3) div 4) 1 * 4
       in if num_bytes \<le> 32
          then take num_bytes (foldl (sack_set_bit ack_nr num_bytes) (replicate 32 0) received_seqs)
          else foldl (sack_set_bit ack_nr num_bytes) (replicate num_bytes 0) received_seqs)"

definition is_seq_sacked :: "u16 \<Rightarrow> bytes \<Rightarrow> u16 \<Rightarrow> bool" where
  "is_seq_sacked ack_nr bitmask seq = (case sack_offset ack_nr seq of None \<Rightarrow> False
     | Some bit_offset \<Rightarrow>
         let byte_idx = bit_offset div 8; bit_idx = bit_offset mod 8 in
         if byte_idx < length bitmask then bitmask ! byte_idx AND push_bit bit_idx 1 \<noteq> 0 else False)"

definition parse_sacked_seqs :: "u16 \<Rightarrow> bytes \<Rightarrow> u16 list" where
  "parse_sacked_seqs ack_nr bitmask = concat (map (\<lambda>(byte_idx, byte).
     if byte = 0 then []
     else map (\<lambda>bit_idx. ack_nr + of_nat (byte_idx * 8 + bit_idx + 2))
       (filter (\<lambda>bit_idx. byte AND push_bit bit_idx 1 \<noteq> 0) [0..<8])) (enumerate 0 bitmask))"

section \<open>Gaps of the receiver\<close>

fun gaps_loop :: "u16 \<Rightarrow> u16 list \<Rightarrow> (u16 \<times> u16) list" where
  "gaps_loop expected [] = []"
| "gaps_loop expected (seq # seqs) =
    (let diff = seq - expected in
     (if 0 < diff \<and> diff < 32768 then [(expected, seq - 1)] else []) @ gaps_loop (seq + 1) seqs)"

definition detect_receive_gaps :: "u16 \<Rightarrow> u16 list \<Rightarrow> (u16 \<times> u16) list" where
  "detect_receive_gaps ack_nr ooo_seqs =
    (if ooo_seqs = [] then [] else gaps_loop (ack_nr + 1) (sort_key (\<lambda>a. a - ack_nr) ooo_seqs))"

section \<open>Headers survive the wire\<close>

definition first_extension :: "UtpExtension list \<Rightarrow> u8" where
  "first_extension es = (case es of [] \<Rightarrow> 0 | e # _ \<Rightarrow> extension_type e)"

text \<open>The type 0 ends the chain and the type 1 is the selective acknowledgement; lengths are one byte.\<close>

fun valid_extension :: "UtpExtension \<Rightarrow> bool" where
  "valid_extension (SelectiveAck d) \<longleftrightarrow> length d < 256"
| "valid_extension (UnknownExtension t d) \<longleftrightarrow> t \<noteq> 0 \<and> t \<noteq> UTP_EXT_SACK \<and> length d < 256"

definition valid_header :: "UtpHeader \<Rightarrow> bool" where
  "valid_header h \<longleftrightarrow> hd_version h < 16 \<and> list_all valid_extension (hd_extensions h)
     \<and> hd_extension h = first_extension (hd_extensions h)"

lemma valid_extension_length: "valid_extension e \<Longrightarrow> unat (of_nat (length (extension_data e)) :: u8) = length (extension_data e)"
  by (cases e) (simp_all add: unat_of_nat)

lemma valid_extension_type: "valid_extension e \<Longrightarrow> extension_type e \<noteq> 0"
  by (cases e) (simp_all add: UTP_EXT_SACK_def)

lemma valid_extension_rebuild:
  "valid_extension e \<Longrightarrow> (if extension_type e = UTP_EXT_SACK then SelectiveAck (extension_data e)
     else UnknownExtension (extension_type e) (extension_data e)) = e"
  by (cases e) auto

lemma decode_encode_extensions:
  "list_all valid_extension es \<Longrightarrow>
    decode_extensions (pre @ encode_extensions es @ payload) (first_extension es) (length pre) = Inr es"
proof (induction es arbitrary: pre)
  case Nil
  then show ?case by (subst decode_extensions.simps) (simp add: first_extension_def)
next
  case (Cons e es)
  let ?nx = "first_extension es" and ?l = "length (extension_data e)"
  let ?n = "of_nat ?l :: u8"
  have e: "valid_extension e" using Cons.prems by simp
  have buf: "pre @ encode_extensions (e # es) @ payload =
      (pre @ ?nx # ?n # extension_data e) @ encode_extensions es @ payload"
    by (simp add: first_extension_def)
  have rest: "decode_extensions (pre @ encode_extensions (e # es) @ payload) ?nx (length pre + 2 + ?l) = Inr es"
    using Cons.IH [of "pre @ ?nx # ?n # extension_data e"] Cons.prems unfolding buf by (simp add: ac_simps)
  have "(pre @ encode_extensions (e # es) @ payload) ! length pre = ?nx"
    and "(pre @ encode_extensions (e # es) @ payload) ! (length pre + 1) = ?n"
    unfolding buf by (simp_all add: nth_append)
  moreover have "bslice (pre @ encode_extensions (e # es) @ payload) (length pre + 2) (length pre + 2 + ?l) = extension_data e"
    unfolding buf by (simp add: bslice_def)
  moreover have "length pre + 2 + ?l \<le> length (pre @ encode_extensions (e # es) @ payload)" by simp
  moreover have "first_extension (e # es) = extension_type e" by (simp add: first_extension_def)
  ultimately show ?case
    using rest valid_extension_type [OF e] valid_extension_length [OF e] valid_extension_rebuild [OF e]
    by (subst decode_extensions.simps) (simp only: Let_def, simp)
qed

lemma nibble:
  fixes v :: u8
  assumes "v < 16"
  shows "take_bit 4 v = v" and "drop_bit 4 v = 0"
  using assms by (simp_all add: take_bit_eq_mod mod_word_less drop_bit_eq_div div_word_less)

lemma low_nibble: "v AND 0x0F = take_bit 4 v" for v :: u8
  by (simp add: take_bit_eq_mask mask_eq_exp_minus_1)

lemma type_version_byte:
  fixes v :: u8
  assumes "v < 16"
  shows "drop_bit 4 (push_bit 4 (packet_type_code t) OR (v AND 0x0F)) = packet_type_code t"
    and "(push_bit 4 (packet_type_code t) OR (v AND 0x0F)) AND 0x0F = v"
proof -
  have "drop_bit 4 (push_bit 4 (packet_type_code t)) = packet_type_code t"
    and "take_bit 4 (push_bit 4 (packet_type_code t)) = 0"
    by (cases t; simp)+
  then show "drop_bit 4 (push_bit 4 (packet_type_code t) OR (v AND 0x0F)) = packet_type_code t"
    and "(push_bit 4 (packet_type_code t) OR (v AND 0x0F)) AND 0x0F = v"
    unfolding low_nibble by (simp_all add: nibble [OF assms])
qed

lemma packet_type_code_of [simp]: "packet_type_of (packet_type_code t) = Some t"
  by (cases t) (simp_all add: packet_type_of_def)

lemma length_encode_extensions:
  "length (encode_extensions es) = sum_list (map (\<lambda>e. 2 + length (extension_data e)) es)"
  by (induction es rule: encode_extensions.induct) simp_all

lemma length_utp_encode: "length (utp_encode h) = total_header_len h"
  by (simp add: utp_encode_def total_header_len_def length_encode_extensions Let_def)

lemma utp_decode_encode:
  assumes "valid_header h"
  shows "utp_decode (utp_encode h @ payload) = Inr h"
proof -
  note V = assms [unfolded valid_header_def]
  let ?b0 = "push_bit 4 (packet_type_code (hd_packet_type h)) OR (hd_version h AND 0x0F)"
  let ?pre = "[?b0, hd_extension h] @ u16_to_be_bytes (hd_connection_id h) @ u32_to_be_bytes (hd_timestamp_us h)
       @ u32_to_be_bytes (hd_timestamp_difference_us h) @ u32_to_be_bytes (hd_wnd_size h)
       @ u16_to_be_bytes (hd_seq_nr h) @ u16_to_be_bytes (hd_ack_nr h)"
  have buf: "utp_encode h @ payload = ?pre @ encode_extensions (hd_extensions h) @ payload"
    using V by (simp only: utp_encode_def Let_def first_extension_def append_assoc append_Cons append_Nil) (cases "hd_extensions h"; simp)
  have len: "length ?pre = 20" by simp
  have exts: "decode_extensions (utp_encode h @ payload) (hd_extension h) 20 = Inr (hd_extensions h)"
    using decode_encode_extensions [of "hd_extensions h" ?pre payload] V unfolding buf len by simp
  have b: "(utp_encode h @ payload) ! 0 = ?b0" "(utp_encode h @ payload) ! 1 = hd_extension h"
    "bslice (utp_encode h @ payload) 2 4 = u16_to_be_bytes (hd_connection_id h)"
    "bslice (utp_encode h @ payload) 4 8 = u32_to_be_bytes (hd_timestamp_us h)"
    "bslice (utp_encode h @ payload) 8 12 = u32_to_be_bytes (hd_timestamp_difference_us h)"
    "bslice (utp_encode h @ payload) 12 16 = u32_to_be_bytes (hd_wnd_size h)"
    "bslice (utp_encode h @ payload) 16 18 = u16_to_be_bytes (hd_seq_nr h)"
    "bslice (utp_encode h @ payload) 18 20 = u16_to_be_bytes (hd_ack_nr h)"
    unfolding buf by (simp_all add: bslice_def)
  have "20 \<le> length (utp_encode h @ payload)" by (simp add: length_utp_encode total_header_len_def)
  then show ?thesis
    using exts V type_version_byte [of "hd_version h" "hd_packet_type h"]
    by (simp add: utp_decode_def b b(2) [unfolded One_nat_def] Let_def)
qed

lemma decode_extensions_canonical:
  assumes "decode_extensions buf t off = Inr es" and "off \<le> length buf"
  shows "list_all valid_extension es \<and> first_extension es = t
    \<and> off + length (encode_extensions es) \<le> length buf
    \<and> encode_extensions es = bslice buf off (off + length (encode_extensions es))"
  using assms
proof (induction buf t off arbitrary: es rule: decode_extensions.induct)
  case (1 buf t off)
  show ?case
  proof (cases "t = 0")
    case True
    then have "es = []" using 1(2) by (simp add: decode_extensions.simps)
    with True 1(3) show ?thesis by (simp add: first_extension_def)
  next
    case False
    let ?l = "unat (buf ! (off + 1))"
    let ?d = "bslice buf (off + 2) (off + 2 + ?l)"
    let ?e = "if t = UTP_EXT_SACK then SelectiveAck ?d else UnknownExtension t ?d"
    from 1(2) False obtain es' where ge: "off + 2 \<le> length buf" "off + 2 + ?l \<le> length buf"
        and rest: "decode_extensions buf (buf ! off) (off + 2 + ?l) = Inr es'" and es: "es = ?e # es'"
      by (subst (asm) decode_extensions.simps) (auto simp: Let_def rbind_eq_Inr split: if_splits)
    have IH: "list_all valid_extension es'" "first_extension es' = buf ! off"
        "off + 2 + ?l + length (encode_extensions es') \<le> length buf"
        "encode_extensions es' = bslice buf (off + 2 + ?l) (off + 2 + ?l + length (encode_extensions es'))"
      using 1(1) [OF False _ refl refl refl _ refl refl rest] ge by simp_all
    have l: "?l < 256" using unsigned_less [of "buf ! (off + 1)"] by simp
    have d: "extension_data ?e = ?d" "length ?d = ?l" "extension_type ?e = t" using ge by simp_all
    have "valid_extension ?e" using l False ge by simp
    moreover have len: "length (encode_extensions es) = 2 + ?l + length (encode_extensions es')"
      unfolding es encode_extensions.simps length_append list.size d(1) using d(2) by simp
    moreover have "encode_extensions es = bslice buf off (off + length (encode_extensions es))"
    proof -
      have "encode_extensions es = [buf ! off, buf ! (off + 1)] @ ?d @ encode_extensions es'"
        using d IH(2) by (simp add: es first_extension_def)
      also have "[buf ! off, buf ! (off + 1)] = bslice buf off (off + 2)"
        using ge by (simp add: bslice_Cons)
      also have "bslice buf off (off + 2) @ ?d @ encode_extensions es' =
          bslice buf off (off + 2 + ?l + length (encode_extensions es'))"
        using bslice_split [of off "off + 2" "off + 2 + ?l + length (encode_extensions es')" buf]
          bslice_split [of "off + 2" "off + 2 + ?l" "off + 2 + ?l + length (encode_extensions es')" buf] IH(4) by simp
      finally show ?thesis using len by (simp add: ac_simps)
    qed
    ultimately show ?thesis using IH(1,3) d(3) len by (simp add: es first_extension_def)
  qed
qed

lemma packet_type_of_code: "packet_type_of v = Some t \<Longrightarrow> packet_type_code t = v"
  by (auto simp: packet_type_of_def split: if_splits)

lemma byte_from_nibbles: "push_bit 4 (drop_bit 4 v) OR (v AND 0x0F) = v" for v :: u8
  unfolding low_nibble by (rule bit_word_eqI) (auto simp: bit_simps)

lemma take_2: "2 \<le> length xs \<Longrightarrow> take 2 xs = [xs ! 0, xs ! 1]"
  by (cases xs; cases "tl xs") (auto simp: numeral_2_eq_2)

lemma decode_canonical:
  assumes "utp_decode buf = Inr h"
  shows "valid_header h \<and> total_header_len h \<le> length buf \<and> utp_encode h = take (total_header_len h) buf"
proof -
  from assms obtain t exts where len: "20 \<le> length buf" and t: "packet_type_of (drop_bit 4 (buf ! 0)) = Some t"
      and exts: "decode_extensions buf (buf ! 1) 20 = Inr exts"
      and h: "h = \<lparr>hd_packet_type = t, hd_version = buf ! 0 AND 0x0F, hd_extension = buf ! 1,
              hd_connection_id = from_be (bslice buf 2 4), hd_timestamp_us = from_be (bslice buf 4 8),
              hd_timestamp_difference_us = from_be (bslice buf 8 12), hd_wnd_size = from_be (bslice buf 12 16),
              hd_seq_nr = from_be (bslice buf 16 18), hd_ack_nr = from_be (bslice buf 18 20),
              hd_extensions = exts\<rparr>"
    by (auto simp: utp_decode_def Let_def rbind_eq_Inr split: if_splits option.splits)
  note X = decode_extensions_canonical [OF exts len]
  let ?n = "20 + length (encode_extensions exts)"
  have tl: "total_header_len h = ?n" by (simp add: total_header_len_def h length_encode_extensions)
  have "valid_header h"
    using X by (simp add: valid_header_def h low_nibble take_bit_eq_mod word_mod_less_divisor)
  moreover have "utp_encode h = take ?n buf"
  proof -
    have f: "(case hd_extensions h of [] \<Rightarrow> hd_extension h | e # _ \<Rightarrow> extension_type e) = buf ! 1"
      using X by (auto simp: h first_extension_def split: list.splits)
    have "utp_encode h = [buf ! 0, buf ! 1] @ bslice buf 2 4 @ bslice buf 4 8 @ bslice buf 8 12
        @ bslice buf 12 16 @ bslice buf 16 18 @ bslice buf 18 20 @ encode_extensions exts"
      using len packet_type_of_code [OF t] byte_from_nibbles [of "buf ! 0"]
      unfolding utp_encode_def Let_def f by (simp add: h to_be_from_be)
    also have "[buf ! 0, buf ! 1] = bslice buf 0 2"
      using len take_2 [of buf] by simp
    also have "encode_extensions exts = bslice buf 20 ?n" using X by simp
    finally show ?thesis
      using bslice_split [of 0 2 ?n buf] bslice_split [of 2 4 ?n buf] bslice_split [of 4 8 ?n buf]
        bslice_split [of 8 12 ?n buf] bslice_split [of 12 16 ?n buf] bslice_split [of 16 18 ?n buf]
        bslice_split [of 18 20 ?n buf] by (simp only: bslice_0 append_assoc)
  qed
  ultimately show ?thesis using X tl by simp
qed

text \<open>
  C33 (\<open>UtpHeader::encode\<close>, \<open>UtpHeader::decode\<close>, \<open>total_header_len\<close>). A header whose extensions fit their
  length bytes is decoded back from its encoding, whatever payload follows; and whatever the
  decoder accepts is a header of that kind, whose encoding is exactly the bytes that were read.
\<close>

theorem utp_header_exact:
  "(valid_header h \<longrightarrow> utp_decode (utp_encode h @ payload) = Inr h \<and> length (utp_encode h) = total_header_len h)
   \<and> (utp_decode buf = Inr h \<longrightarrow> valid_header h \<and> total_header_len h \<le> length buf
        \<and> utp_encode h = take (total_header_len h) buf)"
  using utp_decode_encode [of h payload] decode_canonical [of buf h] length_utp_encode [of h] by blast

definition sample_header :: UtpHeader where
  "sample_header = \<lparr>hd_packet_type = UtpState, hd_version = 1, hd_extension = 1, hd_connection_id = 7,
     hd_timestamp_us = 5, hd_timestamp_difference_us = 0, hd_wnd_size = 1048576, hd_seq_nr = 65535, hd_ack_nr = 3,
     hd_extensions = [SelectiveAck [1, 0, 0, 128], UnknownExtension 2 []]\<rparr>"

lemma utp_header_exact_witness:
  "utp_decode (utp_encode sample_header @ [9, 9]) = Inr sample_header \<and> total_header_len sample_header = 28"
  using utp_header_exact [of sample_header "[9, 9]" "[]"]
  by (simp add: sample_header_def valid_header_def first_extension_def UTP_EXT_SACK_def total_header_len_def)

section \<open>The bitmask names the packets that were received\<close>

lemma unat_of_nat_u16: "k < 65536 \<Longrightarrow> unat (of_nat k :: u16) = k"
  by (simp add: unat_of_nat)

lemma sack_offset_Some:
  "sack_offset ack seq = Some k \<longleftrightarrow> k < 32766 \<and> seq = ack + of_nat (k + 2)"
proof -
  have "2 \<le> seq - ack \<and> seq - ack < 32768 \<and> k = unat (seq - ack - 2) \<longleftrightarrow>
      k < 32766 \<and> unat (seq - ack) = k + 2"
    by (auto simp: word_le_nat_alt word_less_nat_alt unat_sub)
  also have "\<dots> \<longleftrightarrow> k < 32766 \<and> seq - ack = of_nat (k + 2)"
    using unat_of_nat_u16 [of "k + 2"] by (auto simp only: word_unat_eq_iff)
  also have "\<dots> \<longleftrightarrow> k < 32766 \<and> seq = ack + of_nat (k + 2)" by (auto simp: algebra_simps)
  finally show ?thesis by (auto simp: sack_offset_def Let_def)
qed

lemma bit_single_u8: "k < 8 \<Longrightarrow> bit (2 ^ k :: u8) j \<longleftrightarrow> j = k"
  by (auto simp: bit_exp_iff)

lemma bit_mask_test: "k < 8 \<Longrightarrow> (b :: u8) AND 2 ^ k \<noteq> 0 \<longleftrightarrow> bit b k"
  by (rule single_bit_test) (auto simp: bit_single_u8)

text \<open>Bit \<open>k\<close> of a mask, counted across its bytes.\<close>

definition mask_bit :: "bytes \<Rightarrow> nat \<Rightarrow> bool" where
  "mask_bit m k \<longleftrightarrow> k div 8 < length m \<and> bit (m ! (k div 8)) (k mod 8)"

lemma mask_bit_set:
  "n \<le> length m \<Longrightarrow> mask_bit (sack_set_bit ack n m seq) k \<longleftrightarrow>
     mask_bit m k \<or> sack_offset ack seq = Some k \<and> k div 8 < n"
proof (cases "sack_offset ack seq")
  case (Some j)
  assume n: "n \<le> length m"
  have "j = k" if "j div 8 = k div 8" "j mod 8 = k mod 8" using that by (metis div_mult_mod_eq)
  then show ?thesis using Some n
    by (auto simp: sack_set_bit_def mask_bit_def Let_def nth_list_update bit_or_iff bit_single_u8)
qed (simp add: sack_set_bit_def)

lemma length_sack_set_bit [simp]: "length (sack_set_bit ack n m seq) = length m"
  by (simp add: sack_set_bit_def Let_def split: option.split)

lemma mask_bit_fold:
  "n \<le> length m \<Longrightarrow> mask_bit (foldl (sack_set_bit ack n) m seqs) k \<longleftrightarrow>
     mask_bit m k \<or> k div 8 < n \<and> (\<exists>seq\<in>set seqs. sack_offset ack seq = Some k)"
  by (induction seqs arbitrary: m) (auto simp: mask_bit_set)

lemma length_sack_fold [simp]: "length (foldl (sack_set_bit ack n) m seqs) = length m"
  by (induction seqs arbitrary: m) simp_all

lemma sack_fold_Nil [simp]: "foldl (sack_set_bit ack n) m seqs = [] \<longleftrightarrow> m = []"
  by (metis length_0_conv length_sack_fold)

lemma max_bit_offset_fold:
  assumes "foldl (\<lambda>m seq. case sack_offset ack seq of None \<Rightarrow> m
     | Some b \<Rightarrow> Some (case m of None \<Rightarrow> b | Some a \<Rightarrow> max a b)) m seqs = r"
  shows "(r = None \<longrightarrow> m = None \<and> (\<forall>s\<in>set seqs. sack_offset ack s = None))
    \<and> (\<forall>x. r = Some x \<longrightarrow> (\<forall>k. m = Some k \<or> (\<exists>s\<in>set seqs. sack_offset ack s = Some k) \<longrightarrow> k \<le> x))"
  using assms
proof (induction seqs arbitrary: m)
  case (Cons s seqs)
  show ?case
    using Cons.IH [OF Cons.prems [simplified]]
    by (cases "sack_offset ack s"; cases m) (auto simp: max_def split: if_splits)
qed auto

lemma max_bit_offset_None: "max_bit_offset ack seqs = None \<Longrightarrow> s \<in> set seqs \<Longrightarrow> sack_offset ack s = None"
  using max_bit_offset_fold [OF refl, of ack None seqs] by (auto simp: max_bit_offset_def)

lemma max_bit_offset_ge:
  "max_bit_offset ack seqs = Some x \<Longrightarrow> s \<in> set seqs \<Longrightarrow> sack_offset ack s = Some k \<Longrightarrow> k \<le> x"
  using max_bit_offset_fold [OF refl, of ack None seqs] by (auto simp: max_bit_offset_def)

lemma foldl_None:
  assumes "\<forall>s\<in>set seqs. sack_offset ack s = None"
  shows "foldl (\<lambda>m seq. case sack_offset ack seq of None \<Rightarrow> m
     | Some b \<Rightarrow> Some (case m of None \<Rightarrow> b | Some a \<Rightarrow> max a b)) None seqs = None"
  using assms by (induction seqs) simp_all

lemma mask_bit_zeros [simp]: "\<not> mask_bit (replicate n 0) k"
  by (simp add: mask_bit_def)

lemma mask_bit_take: "mask_bit (take n m) k \<longleftrightarrow> k div 8 < n \<and> mask_bit m k"
  by (auto simp: mask_bit_def)

lemma build_mask_bit:
  "mask_bit (build_sack_bitmask ack seqs) k \<longleftrightarrow> (\<exists>s\<in>set seqs. sack_offset ack s = Some k)"
proof (cases "max_bit_offset ack seqs")
  case None
  then show ?thesis using max_bit_offset_None by (fastforce simp: build_sack_bitmask_def mask_bit_def)
next
  case (Some x)
  let ?n = "max ((x div 8 + 1 + 3) div 4) 1 * 4"
  have "x div 8 < ?n" by (simp add: max_def) linarith
  then have "k div 8 < ?n" if "s \<in> set seqs" "sack_offset ack s = Some k" for s
    using max_bit_offset_ge [OF Some that] div_le_mono [of k x 8] by simp
  then show ?thesis
    unfolding build_sack_bitmask_def Some option.case Let_def
    by (auto simp: mask_bit_fold mask_bit_take simp del: max.absorb1 max.absorb2)
qed

lemma sacked_mask_bit:
  "is_seq_sacked ack m seq \<longleftrightarrow> (\<exists>k. sack_offset ack seq = Some k \<and> mask_bit m k)"
  by (auto simp: is_seq_sacked_def mask_bit_def bit_mask_test Let_def split: option.split)

lemma build_length:
  "length (build_sack_bitmask ack seqs) mod 4 = 0"
  "build_sack_bitmask ack seqs = [] \<longleftrightarrow> (\<forall>s\<in>set seqs. sack_offset ack s = None)"
proof -
  show "length (build_sack_bitmask ack seqs) mod 4 = 0"
    by (simp add: build_sack_bitmask_def Let_def min_def split: option.split)
  have "build_sack_bitmask ack seqs = [] \<longleftrightarrow> max_bit_offset ack seqs = None"
    by (auto simp: build_sack_bitmask_def Let_def max_def split: option.split)
  moreover have "max_bit_offset ack seqs = None \<longleftrightarrow> (\<forall>s\<in>set seqs. sack_offset ack s = None)"
    using max_bit_offset_None [of ack seqs] by (auto simp: max_bit_offset_def intro: foldl_None)
  ultimately show "build_sack_bitmask ack seqs = [] \<longleftrightarrow> (\<forall>s\<in>set seqs. sack_offset ack s = None)" by simp
qed

lemma parse_mask:
  "parse_sacked_seqs ack m = map (\<lambda>k. ack + of_nat (k + 2)) (filter (mask_bit m) [0..<8 * length m])"
proof (induction m rule: rev_induct)
  case Nil
  then show ?case by (simp add: parse_sacked_seqs_def)
next
  case (snoc b m)
  let ?n = "length m"
  have old: "filter (mask_bit (m @ [b])) [0..<8 * ?n] = filter (mask_bit m) [0..<8 * ?n]"
    by (rule filter_cong) (auto simp: mask_bit_def nth_append)
  define I where "I = [0..<8::nat]"
  have I: "[8 * ?n..<8 * ?n + 8] = map (\<lambda>i. ?n * 8 + i) I" "\<And>i. i \<in> set I \<Longrightarrow> i < 8"
    using map_add_upt [of "8 * ?n" 8] by (simp_all add: I_def ac_simps)
  have "mask_bit (m @ [b]) (?n * 8 + i) \<longleftrightarrow> b AND push_bit i 1 \<noteq> 0" if "i \<in> set I" for i
    using I(2) [OF that] by (simp add: mask_bit_def bit_mask_test)
  then have "filter (\<lambda>i. mask_bit (m @ [b]) (?n * 8 + i)) I = filter (\<lambda>i. b AND push_bit i 1 \<noteq> 0) I"
    by (rule filter_cong [OF refl])
  then have new: "filter (mask_bit (m @ [b])) (map (\<lambda>i. ?n * 8 + i) I) =
      map (\<lambda>i. ?n * 8 + i) (filter (\<lambda>i. b AND push_bit i 1 \<noteq> 0) I)"
    by (simp only: filter_map o_def)
  have "filter (\<lambda>i. b AND push_bit i 1 \<noteq> 0) I = []" if "b = 0" using that by simp
  then have step: "parse_sacked_seqs ack (m @ [b]) = parse_sacked_seqs ack m
      @ map (\<lambda>i. ack + of_nat (?n * 8 + i + 2)) (filter (\<lambda>i. b AND push_bit i 1 \<noteq> 0) I)"
    by (simp add: parse_sacked_seqs_def enumerate_append_eq flip: I_def)
  have l: "8 * length (m @ [b]) = 8 * ?n + 8" by simp
  have "[0..<8 * length (m @ [b])] = [0..<8 * ?n] @ map (\<lambda>i. ?n * 8 + i) I"
    unfolding I(1) [symmetric] l by (rule upt_add_eq_append) simp
  then show ?case by (simp only: step snoc.IH old new filter_append map_append map_map o_def)
qed

text \<open>
  C34 (\<open>build_sack_bitmask\<close>, \<open>is_seq_sacked\<close>, \<open>parse_sacked_seqs\<close>). The bitmask that a receiver builds
  acknowledges exactly the packets it was built from that lie in the half window after the gap,
  whatever the position in the circular sequence space; reading it lists them in sending order,
  without repetition; and its length is a multiple of four.
\<close>

theorem sack_exact:
  "(\<forall>seq. is_seq_sacked ack (build_sack_bitmask ack seqs) seq \<longleftrightarrow> seq \<in> set seqs \<and> 2 \<le> seq - ack \<and> seq - ack < 32768)
   \<and> set (parse_sacked_seqs ack (build_sack_bitmask ack seqs)) = {seq \<in> set seqs. 2 \<le> seq - ack \<and> seq - ack < 32768}
   \<and> sorted_wrt (\<lambda>a b. a - ack < b - ack) (parse_sacked_seqs ack (build_sack_bitmask ack seqs))
   \<and> length (build_sack_bitmask ack seqs) mod 4 = 0"
proof -
  let ?m = "build_sack_bitmask ack seqs"
  have ok: "sack_offset ack seq \<noteq> None \<longleftrightarrow> 2 \<le> seq - ack \<and> seq - ack < 32768" for seq
    by (simp add: sack_offset_def Let_def)
  have inj: "s = t" if "sack_offset ack s = Some k" "sack_offset ack t = Some k" for s t k
    using that by (simp add: sack_offset_Some)
  have "is_seq_sacked ack ?m seq \<longleftrightarrow> seq \<in> set seqs \<and> sack_offset ack seq \<noteq> None" for seq
    unfolding sacked_mask_bit build_mask_bit by (metis inj not_None_eq)
  moreover have bits: "k < 8 * length ?m \<and> mask_bit ?m k \<longleftrightarrow> mask_bit ?m k" for k
    by (auto simp: mask_bit_def)
  then have "set (parse_sacked_seqs ack ?m) = {seq \<in> set seqs. sack_offset ack seq \<noteq> None}"
    unfolding parse_mask by (auto simp: build_mask_bit sack_offset_Some image_iff)
  moreover have "sorted_wrt (\<lambda>a b. a - ack < b - ack) (parse_sacked_seqs ack ?m)"
  proof -
    have "sorted_wrt (<) (filter (mask_bit ?m) [0..<8 * length ?m])" by (simp add: sorted_wrt_filter)
    moreover have "(of_nat (j + 2) :: u16) < of_nat (k + 2)" if "j < k" "mask_bit ?m k" for j k
    proof -
      have "k < 32766" using that(2) by (auto simp: build_mask_bit sack_offset_Some)
      then show ?thesis
        using that(1) unat_of_nat_u16 [of "j + 2"] unat_of_nat_u16 [of "k + 2"] by (simp only: word_less_nat_alt)
    qed
    ultimately show ?thesis
      unfolding parse_mask sorted_wrt_map by (elim sorted_wrt_mono_rel [rotated]) simp
  qed
  ultimately show ?thesis using build_length(1) [of ack seqs] unfolding ok [symmetric] by blast
qed

section \<open>The gaps are what is missing\<close>

text \<open>Distances from \<open>ack\<close> turn the circular space into an interval.\<close>

lemma distance_less: "a - ack < b - ack \<longleftrightarrow> unat (a - ack) < unat (b - ack)" for a b ack :: u16
  by (simp add: word_less_nat_alt)

lemma in_gap:
  fixes x ack :: u16
  assumes "e < d" and "d < 32768"
  shows "x - (ack + of_nat e) \<le> (ack + of_nat d - 1) - (ack + of_nat e) \<longleftrightarrow>
    e \<le> unat (x - ack) \<and> unat (x - ack) < d"
proof -
  have "ack + of_nat d - 1 - (ack + of_nat e) = (of_nat (d - 1 - e) :: u16)" using assms by (simp add: of_nat_diff)
  then have width: "unat (ack + of_nat d - 1 - (ack + of_nat e)) = d - 1 - e"
    using assms by (simp only:) (rule unat_of_nat_u16, simp)
  define y where "y = x - ack"
  have y: "x - (ack + of_nat e) = y - of_nat e" by (simp add: y_def)
  have small: "unat y < 65536" "unat (of_nat e :: u16) = e"
    using assms unsigned_less [of y] unat_of_nat_u16 [of e] by simp_all
  have "unat (y - of_nat e) = (if e \<le> unat y then unat y - e else unat y + 65536 - e)"
    using small by (simp add: unat_sub_if')
  then show ?thesis
    unfolding word_le_nat_alt width y y_def [symmetric] using assms small by (cases "e \<le> unat y") (simp_all, linarith)
qed

lemma gaps_loop_exact:
  assumes "sorted (map (\<lambda>s. unat (s - ack)) seqs)" and "\<forall>s\<in>set seqs. unat (s - ack) < 32768 \<and> e \<le> unat (s - ack) + 1"
    and "e \<le> 32768"
  shows "(\<exists>(a, b)\<in>set (gaps_loop (ack + of_nat e) seqs). x - a \<le> b - a) \<longleftrightarrow>
    x \<notin> set seqs \<and> e \<le> unat (x - ack) \<and> (\<exists>s\<in>set seqs. unat (x - ack) < unat (s - ack))"
  using assms
proof (induction seqs arbitrary: e)
  case (Cons s seqs)
  let ?d = "unat (s - ack)" and ?x = "unat (x - ack)"
  have s: "s = ack + of_nat ?d" by simp
  have d: "?d < 32768" "e \<le> ?d + 1" and after: "\<forall>t\<in>set seqs. ?d \<le> unat (t - ack)" using Cons.prems by auto
  have IH: "(\<exists>(a, b)\<in>set (gaps_loop (s + 1) seqs). x - a \<le> b - a) \<longleftrightarrow>
      x \<notin> set seqs \<and> ?d + 1 \<le> ?x \<and> (\<exists>t\<in>set seqs. ?x < unat (t - ack))"
    using Cons.IH [of "?d + 1"] Cons.prems after d s by (simp add: ac_simps)
  have gap: "0 < s - (ack + of_nat e) \<and> s - (ack + of_nat e) < 32768 \<longleftrightarrow> e < ?d"
  proof (cases "e \<le> ?d")
    case True
    then have "s - (ack + of_nat e) = of_nat (?d - e)" by (simp add: of_nat_diff)
    moreover have "unat (of_nat (?d - e) :: u16) = ?d - e" using d by (intro unat_of_nat_u16) simp
    ultimately show ?thesis using d by (simp add: word_less_nat_alt) linarith
  next
    case False
    then have "e = ?d + 1" using d by simp
    then have "s - (ack + of_nat e) = 65535" by simp
    then show ?thesis using False by simp
  qed
  have same: "x = s \<longleftrightarrow> ?x = ?d" by (metis unsigned_word_eqI diff_add_cancel)
  have here: "(\<exists>(a, b)\<in>set (if e < ?d then [(ack + of_nat e, s - 1)] else []). x - a \<le> b - a) \<longleftrightarrow> e \<le> ?x \<and> ?x < ?d"
    using in_gap [of e ?d x ack] d by (simp add: s [symmetric]) linarith
  have "x \<notin> set (s # seqs) \<and> e \<le> ?x \<and> (\<exists>t\<in>set (s # seqs). ?x < unat (t - ack)) \<longleftrightarrow>
      e \<le> ?x \<and> ?x < ?d \<or> x \<notin> set seqs \<and> ?d + 1 \<le> ?x \<and> (\<exists>t\<in>set seqs. ?x < unat (t - ack))"
    using after d same by auto
  then show ?case using IH here by (simp add: gap Let_def bex_Un)
qed simp

text \<open>
  \<open>detect_receive_gaps\<close>: For packets buffered ahead of the acknowledged one, the reported ranges cover
  exactly the sequence numbers that are still missing below the highest buffered packet.
\<close>

theorem receive_gaps_exact:
  assumes "\<forall>s\<in>set ooo. s - ack < 32768"
  shows "(\<exists>(a, b)\<in>set (detect_receive_gaps ack ooo). x - a \<le> b - a) \<longleftrightarrow>
    x \<notin> set ooo \<and> 0 < x - ack \<and> (\<exists>s\<in>set ooo. x - ack < s - ack)"
proof -
  have "sorted (map (\<lambda>s. unat (s - ack)) (sort_key (\<lambda>a. a - ack) ooo))"
    using sorted_sort_key [of "\<lambda>a. a - ack" ooo] by (simp add: sorted_wrt_map word_le_nat_alt)
  from gaps_loop_exact [OF this, of 1 x] assms show ?thesis
    by (auto simp: detect_receive_gaps_def word_less_nat_alt Suc_le_eq)
qed

lemma receive_gaps_exact_witness:
  "(\<exists>(a, b)\<in>set (detect_receive_gaps 65534 [3, 0]). 2 - a \<le> b - a)"
  by (subst receive_gaps_exact) code_simp+

text \<open>
  The length byte of an extension wraps at 256, while the bitmask grows with the distance of the
  buffered packets: a packet 2050 ahead gives a mask of 260 bytes, of which the peer reads four.
\<close>

lemma long_sack_lost:
  "length (build_sack_bitmask 0 [2050]) = 260"
  "length m = 260 \<Longrightarrow> decode_extensions (encode_extensions [SelectiveAck m]) UTP_EXT_SACK 0 = Inr [SelectiveAck (take 4 m)]"
  "is_seq_sacked 0 (build_sack_bitmask 0 [2050]) 2050"
  "\<not> is_seq_sacked 0 (take 4 (build_sack_bitmask 0 [2050])) 2050"
proof -
  have off: "sack_offset 0 2050 = Some 2048" by code_simp
  show "length (build_sack_bitmask 0 [2050]) = 260" by (simp add: build_sack_bitmask_def max_bit_offset_def off)
  show "decode_extensions (encode_extensions [SelectiveAck m]) UTP_EXT_SACK 0 = Inr [SelectiveAck (take 4 m)]"
    if "length m = 260"
  proof -
    have "unat (of_nat 260 :: u8) = 4" by simp
    then show ?thesis using that
      by (subst decode_extensions.simps) (simp add: decode_extensions.simps [of _ 0] bslice_def UTP_EXT_SACK_def)
  qed
  show "is_seq_sacked 0 (build_sack_bitmask 0 [2050]) 2050"
    unfolding sacked_mask_bit build_mask_bit using off by simp
  show "\<not> is_seq_sacked 0 (take 4 (build_sack_bitmask 0 [2050])) 2050"
    by (simp add: is_seq_sacked_def off)
qed

end
