(* ===== verification/Float64.thy ===== *)
theory Float64
  imports BT_Prelude "HOL-Library.Log_Nat"
begin

text \<open>
  The \<open>f64\<close> arithmetic of the code. A value is a rational; each operation is the exact one followed
  by \<open>f64\<close>, rounding to the nearest number with a significand of 53 bits, ties to even. The
  exponent range is left out: no computation modelled here comes near its ends. The locale
  \<open>float_rounding\<close> holds what the proofs use of rounding; it is interpreted by \<open>f64\<close>.
\<close>

section \<open>What the code relies on\<close>

text \<open>The integers up to this bound are represented exactly.\<close>

definition F64_EXACT :: nat where "F64_EXACT = 2 ^ 53"

locale float_rounding =
  fixes fl :: "rat \<Rightarrow> rat"
  assumes fl_mono: "x \<le> y \<Longrightarrow> fl x \<le> fl y"
    and fl_fl: "fl (fl x) = fl x"
    and fl_int: "\<bar>n\<bar> \<le> int F64_EXACT \<Longrightarrow> fl (of_int n) = of_int n"
begin

lemma fl_nat: "n \<le> F64_EXACT \<Longrightarrow> fl (of_nat n) = of_nat n"
  using fl_int [of "int n"] by simp

lemma fl_0 [simp]: "fl 0 = 0" and fl_1 [simp]: "fl 1 = 1"
  using fl_int [of 0] fl_int [of 1] by (simp_all add: F64_EXACT_def)

lemma fl_nonneg: "0 \<le> x \<Longrightarrow> 0 \<le> fl x"
  using fl_mono [of 0 x] by simp

lemma fl_nonpos: "x \<le> 0 \<Longrightarrow> fl x \<le> 0"
  using fl_mono [of x 0] by simp

lemma fl_add_nonneg: "fl x = x \<Longrightarrow> 0 \<le> d \<Longrightarrow> x \<le> fl (x + d)"
  using fl_mono [of x "x + d"] by simp

lemma fl_add_nonpos: "fl x = x \<Longrightarrow> d \<le> 0 \<Longrightarrow> fl (x + d) \<le> x"
  using fl_mono [of "x + d" x] by simp

lemma fl_le_nat: "x \<le> of_nat n \<Longrightarrow> n \<le> F64_EXACT \<Longrightarrow> fl x \<le> of_nat n"
  using fl_mono [of x "of_nat n"] fl_nat by simp

end

section \<open>Rounding to nearest, ties to even\<close>

definition round_half_even :: "rat \<Rightarrow> int" where
  "round_half_even x =
    (let n = \<lfloor>x\<rfloor>; f = x - of_int n in if f < 1 / 2 \<or> f = 1 / 2 \<and> even n then n else n + 1)"

lemma round_half_even_int [simp]: "round_half_even (of_int n) = n"
  by (simp add: round_half_even_def)

lemma round_half_even_mono:
  assumes "x \<le> y"
  shows "round_half_even x \<le> round_half_even y"
proof (cases "\<lfloor>x\<rfloor> = \<lfloor>y\<rfloor>")
  case True
  then show ?thesis using assms by (auto simp: round_half_even_def Let_def)
next
  case False
  then have "\<lfloor>x\<rfloor> + 1 \<le> \<lfloor>y\<rfloor>" using floor_mono [OF assms] by simp
  then show ?thesis by (auto simp: round_half_even_def Let_def)
qed

text \<open>The exponent \<open>e\<close> with \<open>2\<^sup>e \<le> x < 2\<^sup>e\<^sup>+\<^sup>1\<close>.\<close>

definition binary_exponent :: "rat \<Rightarrow> int" where
  "binary_exponent x = (let (p, q) = quotient_of x; e = bitlen p - bitlen q in if 2 powi e \<le> x then e else e - 1)"

lemma binary_exponent:
  assumes "0 < x"
  shows "2 powi binary_exponent x \<le> x" and "x < 2 powi (binary_exponent x + 1)"
proof -
  obtain p q where pq: "quotient_of x = (p, q)" by force
  then have q: "0 < q" "x = of_int p / of_int q"
    using quotient_of_denom_pos quotient_of_div by blast+
  then have p: "0 < p" using assms by (simp add: zero_less_divide_iff)
  let ?e = "bitlen p - bitlen q"
  have P: "1 \<le> bitlen p" and Q: "1 \<le> bitlen q"
    using p q(1) by (simp_all add: bitlen_def floorlog_def)
  have ge: "(2 :: rat) powi (bitlen n - 1) \<le> of_int n" and lt: "of_int n < (2 :: rat) powi bitlen n"
    if "0 < n" "1 \<le> bitlen n" for n
  proof -
    have "of_int (2 ^ nat (bitlen n - 1)) \<le> (of_int n :: rat)" "of_int n < (of_int (2 ^ nat (bitlen n)) :: rat)"
      using bitlen_bounds [OF that(1)] by (simp_all only: of_int_le_iff of_int_less_iff)
    then show "(2 :: rat) powi (bitlen n - 1) \<le> of_int n" "of_int n < (2 :: rat) powi bitlen n"
      using that(2) by (simp_all add: power_int_def)
  qed
  have q': "0 < (of_int q :: rat)" using q(1) by simp
  have lower: "2 powi (?e - 1) < x"
  proof -
    have "(2 :: rat) powi (?e - 1) * of_int q < 2 powi (?e - 1) * 2 powi bitlen q"
      using lt [OF q(1) Q] by simp
    also have "\<dots> = 2 powi (bitlen p - 1)" by (simp flip: power_int_add)
    also have "\<dots> \<le> of_int p" by (rule ge [OF p P])
    finally show ?thesis using q' by (simp add: q(2) pos_less_divide_eq)
  qed
  have upper: "x < 2 powi (?e + 1)"
  proof -
    have "of_int p < (2 :: rat) powi bitlen p" by (rule lt [OF p P])
    also have "\<dots> = 2 powi (?e + 1) * 2 powi (bitlen q - 1)" by (simp flip: power_int_add)
    also have "\<dots> \<le> 2 powi (?e + 1) * of_int q" using ge [OF q(1) Q] by simp
    finally show ?thesis using q' by (simp add: q(2) pos_divide_less_eq)
  qed
  show "2 powi binary_exponent x \<le> x" and "x < 2 powi (binary_exponent x + 1)"
    using lower upper by (auto simp: binary_exponent_def pq Let_def)
qed

definition f64_pos :: "rat \<Rightarrow> rat" where
  "f64_pos x = (let ulp = 2 powi (binary_exponent x - 52) in of_int (round_half_even (x / ulp)) * ulp)"

definition f64 :: "rat \<Rightarrow> rat" where
  "f64 x = (if x = 0 then 0 else if 0 < x then f64_pos x else - f64_pos (- x))"

lemma round_half_even_bounds: "of_int m \<le> x \<Longrightarrow> m \<le> round_half_even x" "x \<le> of_int m \<Longrightarrow> round_half_even x \<le> m"
  using round_half_even_mono [of "of_int m" x] round_half_even_mono [of x "of_int m"] by simp_all

lemma f64_pos_bounds:
  assumes "0 < x"
  shows "2 powi binary_exponent x \<le> f64_pos x" and "f64_pos x \<le> 2 powi (binary_exponent x + 1)"
proof -
  let ?e = "binary_exponent x"
  let ?u = "2 powi (?e - 52) :: rat"
  have u: "0 < ?u" by simp
  have "of_int (2 ^ 52) \<le> x / ?u" "x / ?u \<le> of_int (2 ^ 53)"
  proof -
    have "of_int (2 ^ 52) * ?u = 2 powi ?e" "of_int (2 ^ 53) * ?u = 2 powi (?e + 1)"
      by (simp_all add: power_int_diff power_int_add)
    then show "of_int (2 ^ 52) \<le> x / ?u" "x / ?u \<le> of_int (2 ^ 53)"
      using binary_exponent [OF assms] u by (simp_all add: pos_le_divide_eq pos_divide_le_eq)
  qed
  then have "2 ^ 52 \<le> round_half_even (x / ?u)" "round_half_even (x / ?u) \<le> 2 ^ 53"
    using round_half_even_bounds by blast+
  then have "of_int (2 ^ 52) * ?u \<le> f64_pos x" "f64_pos x \<le> of_int (2 ^ 53) * ?u"
    unfolding f64_pos_def Let_def using u by (simp_all only: mult_le_cancel_right_pos of_int_le_iff)
  moreover have "of_int (2 ^ 52) * ?u = 2 powi ?e" "of_int (2 ^ 53) * ?u = 2 powi (?e + 1)"
    by (simp_all add: power_int_diff power_int_add)
  ultimately show "2 powi ?e \<le> f64_pos x" and "f64_pos x \<le> 2 powi (?e + 1)" by simp_all
qed

lemma binary_exponent_mono: "0 < x \<Longrightarrow> x \<le> y \<Longrightarrow> binary_exponent x \<le> binary_exponent y"
proof (rule ccontr)
  assume x: "0 < x" "x \<le> y" and "\<not> binary_exponent x \<le> binary_exponent y"
  then have "binary_exponent y + 1 \<le> binary_exponent x" by simp
  then have "(2 :: rat) powi (binary_exponent y + 1) \<le> 2 powi binary_exponent x" by (simp add: power_int_increasing)
  then show False using binary_exponent [OF x(1)] binary_exponent [of y] x by simp
qed

lemma f64_pos_mono:
  assumes "0 < x" and "x \<le> y"
  shows "f64_pos x \<le> f64_pos y"
proof (cases "binary_exponent x = binary_exponent y")
  case True
  have "x / 2 powi (binary_exponent y - 52) \<le> y / 2 powi (binary_exponent y - 52)"
    using assms by (simp add: divide_right_mono)
  from round_half_even_mono [OF this] show ?thesis by (simp add: f64_pos_def Let_def True)
next
  case False
  then have "binary_exponent x + 1 \<le> binary_exponent y" using binary_exponent_mono [OF assms] by simp
  then have "(2 :: rat) powi (binary_exponent x + 1) \<le> 2 powi binary_exponent y" by (simp add: power_int_increasing)
  then show ?thesis using f64_pos_bounds [OF assms(1)] f64_pos_bounds [of y] assms by simp
qed

text \<open>Every number with a 53-bit significand is kept.\<close>

lemma f64_pos_exact:
  assumes "0 < x" and "x = of_int n * 2 powi k" and "n \<le> 2 ^ 53"
  shows "f64_pos x = x"
proof -
  let ?u = "2 powi (binary_exponent x - 52) :: rat"
  have "\<exists>m. x = of_int m * ?u"
  proof (cases "binary_exponent x - 52 \<le> k")
    case True
    have "(2 :: rat) powi k = of_int (2 ^ nat (k - (binary_exponent x - 52))) * ?u"
    proof -
      have "(2 :: rat) powi k = 2 powi (k - (binary_exponent x - 52)) * ?u" by (simp flip: power_int_add)
      then show ?thesis using True by (simp add: power_int_def)
    qed
    then show ?thesis by (metis assms(2) mult.assoc of_int_mult)
  next
    case False
    then have "k + 53 \<le> binary_exponent x" by simp
    then have le: "(2 :: rat) powi (k + 53) \<le> 2 powi binary_exponent x" by (simp add: power_int_increasing)
    also have "\<dots> \<le> x" by (rule binary_exponent(1) [OF assms(1)])
    finally have ge: "2 powi (k + 53) \<le> x" .
    have "of_int n \<le> (of_int (2 ^ 53) :: rat)" using assms(3) by (simp only: of_int_le_iff)
    then have "x \<le> of_int (2 ^ 53) * 2 powi k" unfolding assms(2) by (rule mult_right_mono) simp
    also have "\<dots> = 2 powi (k + 53)" by (simp add: power_int_add)
    finally have "x = 2 powi binary_exponent x"
      using ge le binary_exponent(1) [OF assms(1)] by simp
    then have "x = of_int (2 ^ 52) * ?u" by (simp add: power_int_diff)
    then show ?thesis by blast
  qed
  then obtain m where m: "x = of_int m * ?u" by blast
  define u where "u = ?u"
  have u: "u \<noteq> 0" by (simp add: u_def)
  have x: "x = of_int m * u" unfolding u_def by (rule m)
  have "round_half_even (x / u) = m" unfolding x using u by simp
  then show ?thesis unfolding f64_pos_def Let_def u_def [symmetric] by (simp only: x [symmetric])
qed

lemma f64_pos_shape:
  assumes "0 < x"
  obtains n k where "f64_pos x = of_int n * 2 powi k" and "n \<le> 2 ^ 53"
proof
  let ?k = "binary_exponent x - 52"
  show "f64_pos x = of_int (round_half_even (x / 2 powi ?k)) * 2 powi ?k" by (simp add: f64_pos_def Let_def)
  have "x \<le> of_int (2 ^ 53) * 2 powi ?k"
    using binary_exponent(2) [OF assms] by (simp add: power_int_diff power_int_add)
  then show "round_half_even (x / 2 powi ?k) \<le> 2 ^ 53"
    by (intro round_half_even_bounds) (simp add: pos_divide_le_eq)
qed

lemma f64_pos_pos: "0 < x \<Longrightarrow> 0 < f64_pos x"
  using f64_pos_bounds(1) [of x] zero_less_power_int [of "2 :: rat" "binary_exponent x"] by linarith

lemma f64_pos_idem:
  assumes "0 < x"
  shows "f64_pos (f64_pos x) = f64_pos x"
proof -
  obtain n k where "f64_pos x = of_int n * 2 powi k" "n \<le> 2 ^ 53" by (rule f64_pos_shape [OF assms])
  then show ?thesis by (rule f64_pos_exact [OF f64_pos_pos [OF assms]])
qed

lemma f64_pos_int:
  assumes "0 < n" and "n \<le> int F64_EXACT"
  shows "f64_pos (of_int n) = of_int n"
proof (rule f64_pos_exact [where k = 0])
  show "n \<le> 2 ^ 53" using assms(2) by (simp only: F64_EXACT_def of_nat_power of_nat_numeral)
qed (use assms(1) in simp_all)

interpretation f64: float_rounding f64
proof
  show "f64 x \<le> f64 y" if "x \<le> y" for x y
    using that f64_pos_mono [of x y] f64_pos_mono [of "- y" "- x"] f64_pos_pos [of y] f64_pos_pos [of "- x"]
    by (auto simp: f64_def)
  show "f64 (f64 x) = f64 x" for x
    using f64_pos_idem [of x] f64_pos_idem [of "- x"] f64_pos_pos [of x] f64_pos_pos [of "- x"] by (auto simp: f64_def)
  show "f64 (of_int n) = of_int n" if "\<bar>n\<bar> \<le> int F64_EXACT" for n
    using that f64_pos_int [of n] f64_pos_int [of "- n"] by (auto simp: f64_def)
qed

section \<open>Conversions\<close>

text \<open>\<open>f64::round\<close> (halves away from zero) and the saturating cast \<open>as u32\<close> (towards zero).\<close>

definition f64_round :: "rat \<Rightarrow> rat" where
  "f64_round x = (if 0 \<le> x then of_int \<lfloor>x + 1 / 2\<rfloor> else - of_int \<lfloor>1 / 2 - x\<rfloor>)"

definition f64_to_u32 :: "rat \<Rightarrow> u32" where
  "f64_to_u32 x = (if x \<le> 0 then 0 else if of_nat U32_MAX \<le> x then - 1 else of_int \<lfloor>x\<rfloor>)"

definition u32_to_f64 :: "u32 \<Rightarrow> rat" where
  "u32_to_f64 w = of_nat (unat w)"

lemma unat_f64_to_u32: "of_nat k = x \<Longrightarrow> k < 2 ^ 32 \<Longrightarrow> unat (f64_to_u32 x) = k"
  by (cases "k = U32_MAX") (auto simp: f64_to_u32_def U32_MAX_def unat_of_nat unsigned_minus_1_eq_mask mask_eq_exp_minus_1)

lemma f64_round_nonneg: "0 \<le> x \<Longrightarrow> f64_round x = of_nat (nat \<lfloor>x + 1 / 2\<rfloor>)"
  by (simp add: f64_round_def)

lemma unat_f64_to_u32_round:
  assumes "of_nat a \<le> x" and "x \<le> of_nat b" and "b < 2 ^ 32"
  shows "unat (f64_to_u32 (f64_round x)) = nat \<lfloor>x + 1 / 2\<rfloor>"
    and "a \<le> unat (f64_to_u32 (f64_round x))" and "unat (f64_to_u32 (f64_round x)) \<le> b"
proof -
  have x: "0 \<le> x" using assms(1) of_nat_0_le_iff [of a, where 'a = rat] by linarith
  have "\<lfloor>x + 1 / 2\<rfloor> < int b + 1" unfolding floor_less_iff using assms(2) by simp
  then have b: "nat \<lfloor>x + 1 / 2\<rfloor> \<le> b" by simp
  have "int a \<le> \<lfloor>x + 1 / 2\<rfloor>" unfolding le_floor_iff using assms(1) by simp
  then have a: "a \<le> nat \<lfloor>x + 1 / 2\<rfloor>" by simp
  show *: "unat (f64_to_u32 (f64_round x)) = nat \<lfloor>x + 1 / 2\<rfloor>"
    using b assms(3) by (intro unat_f64_to_u32) (simp_all add: f64_round_nonneg [OF x])
  show "a \<le> unat (f64_to_u32 (f64_round x))" "unat (f64_to_u32 (f64_round x)) \<le> b" using a b * by simp_all
qed

end
