(* ===== verification/Utp_Congestion.thy ===== *)
theory Utp_Congestion
  imports Utp_Packet Float64
begin

text \<open>
  The congestion controller of the uTP transport (\<open>network/utp.rs\<close>): the base delay filter
  \<open>DelayTracker\<close> and \<open>LedbatCongestionController\<close> with its loss recovery and its retransmission timer.
  Window and timer keep their limits in every run, the window moves with the queueing delay in
  the direction of the target, and a recovery epoch shrinks it once.

  Integers are words and wrap as in the release profile; \<open>f64\<close> values are rounded rationals. A
  target delay of zero, which no caller sets, would divide by zero and is excluded.
\<close>

section \<open>Base delay\<close>

record DelayBucket =
  min_delay :: u32
  start_time_us :: u64

definition bucket_new :: "u64 \<Rightarrow> DelayBucket" where
  "bucket_new start = \<lparr>min_delay = - 1, start_time_us = start\<rparr>"

record DelayTracker =
  dt_buckets :: "DelayBucket list"
  dt_current_idx :: nat
  dt_bucket_duration_us :: u64
  dt_last_sample_us :: u32

definition dt_new :: "u64 \<Rightarrow> DelayTracker" where
  "dt_new bucket_duration_us = \<lparr>dt_buckets = [bucket_new 0, bucket_new 0, bucket_new 0, bucket_new 0],
     dt_current_idx = 0, dt_bucket_duration_us = bucket_duration_us, dt_last_sample_us = 0\<rparr>"

definition dt_default :: DelayTracker where
  "dt_default = dt_new 60000000"

definition add_sample :: "u32 \<Rightarrow> u64 \<Rightarrow> DelayTracker \<Rightarrow> DelayTracker" where
  "add_sample delay_us now_us dt =
    (if delay_us = 0 then dt
     else
       let dt = dt\<lparr>dt_last_sample_us := delay_us\<rparr>;
           idx = dt_current_idx dt;
           cur = dt_buckets dt ! idx
       in if start_time_us cur = 0
          then dt\<lparr>dt_buckets := (dt_buckets dt)[idx := \<lparr>min_delay = delay_us, start_time_us = now_us\<rparr>]\<rparr>
          else if dt_bucket_duration_us dt \<le> word_saturating_sub now_us (start_time_us cur)
          then let idx' = (idx + 1) mod length (dt_buckets dt)
               in dt\<lparr>dt_current_idx := idx',
                     dt_buckets := (dt_buckets dt)[idx' := \<lparr>min_delay = delay_us, start_time_us = now_us\<rparr>]\<rparr>
          else dt\<lparr>dt_buckets := (dt_buckets dt)[idx := cur\<lparr>min_delay := min (min_delay cur) delay_us\<rparr>]\<rparr>)"

definition base_delay :: "DelayTracker \<Rightarrow> u32" where
  "base_delay dt = foldl (\<lambda>m b. if 0 < start_time_us b \<and> min_delay b < m then min_delay b else m) (- 1) (dt_buckets dt)"

section \<open>The controller\<close>

datatype LossRecoveryState = NormalOperation | Recovery u16 u32

record LedbatCongestionController =
  lc_target_delay_us :: u32
  lc_cwnd :: u32
  lc_cwnd_float :: rat
  lc_min_cwnd :: u32
  lc_max_cwnd :: u32
  lc_mss :: u32
  lc_delay_tracker :: DelayTracker
  lc_last_queuing_delay_us :: u32
  lc_last_ack_nr :: u16
  lc_duplicate_acks :: nat
  lc_remote_wnd_size :: u32
  lc_loss_recovery :: LossRecoveryState
  lc_srtt_us :: "u32 option"
  lc_rttvar_us :: u32
  lc_rto_us :: u32

definition DEFAULT_TARGET_DELAY_US :: u32 where "DEFAULT_TARGET_DELAY_US = 100000"
definition DEFAULT_MSS :: u32 where "DEFAULT_MSS = 1460"
definition DEFAULT_MIN_CWND :: u32 where "DEFAULT_MIN_CWND = 2 * 1460"
definition DEFAULT_MAX_CWND :: u32 where "DEFAULT_MAX_CWND = 1048576"
definition DEFAULT_INITIAL_RTO_US :: u32 where "DEFAULT_INITIAL_RTO_US = 1000000"
definition MIN_RTO_US :: u32 where "MIN_RTO_US = 500000"
definition MAX_RTO_US :: u32 where "MAX_RTO_US = 3000000"

definition with_target :: "u32 \<Rightarrow> LedbatCongestionController" where
  "with_target target_delay_us = \<lparr>lc_target_delay_us = target_delay_us, lc_cwnd = DEFAULT_MIN_CWND,
     lc_cwnd_float = u32_to_f64 DEFAULT_MIN_CWND, lc_min_cwnd = DEFAULT_MIN_CWND, lc_max_cwnd = DEFAULT_MAX_CWND,
     lc_mss = DEFAULT_MSS, lc_delay_tracker = dt_default, lc_last_queuing_delay_us = 0, lc_last_ack_nr = 0,
     lc_duplicate_acks = 0, lc_remote_wnd_size = DEFAULT_MAX_CWND, lc_loss_recovery = NormalOperation,
     lc_srtt_us = None, lc_rttvar_us = 250000, lc_rto_us = DEFAULT_INITIAL_RTO_US\<rparr>"

definition ledbat_new :: LedbatCongestionController where
  "ledbat_new = with_target DEFAULT_TARGET_DELAY_US"

definition set_remote_window :: "u32 \<Rightarrow> LedbatCongestionController \<Rightarrow> LedbatCongestionController" where
  "set_remote_window wnd_size c = (if 0 < wnd_size then c\<lparr>lc_remote_wnd_size := wnd_size\<rparr> else c)"

definition enter_recovery :: "u16 \<Rightarrow> bool \<Rightarrow> LedbatCongestionController \<Rightarrow> bool \<times> LedbatCongestionController" where
  "enter_recovery recovery_seq is_burst_loss c =
    (let covered = (case lc_loss_recovery c of Recovery curr_seq _ \<Rightarrow> seq_acked recovery_seq curr_seq | NormalOperation \<Rightarrow> False)
     in if covered then (False, c)
        else
          let factor = (if is_burst_loss then f64 (65 / 100) else f64 (1 / 2));
              new_cwnd = max (f64_to_u32 (f64_round (f64 (lc_cwnd_float c * factor)))) (lc_min_cwnd c)
          in (True, c\<lparr>lc_cwnd := new_cwnd, lc_cwnd_float := u32_to_f64 new_cwnd,
                lc_loss_recovery := Recovery recovery_seq new_cwnd\<rparr>))"

definition exit_recovery :: "LedbatCongestionController \<Rightarrow> LedbatCongestionController" where
  "exit_recovery c = c\<lparr>lc_loss_recovery := NormalOperation\<rparr>"

definition clamp_u32 :: "u32 \<Rightarrow> u32 \<Rightarrow> u32 \<Rightarrow> u32" where
  "clamp_u32 lo hi x = (if x < lo then lo else if hi < x then hi else x)"

definition abs_diff_u32 :: "u32 \<Rightarrow> u32 \<Rightarrow> u32" where
  "abs_diff_u32 a b = of_nat (nat \<bar>int (unat a) - int (unat b)\<bar>)"

definition update_rtt :: "u32 \<Rightarrow> LedbatCongestionController \<Rightarrow> LedbatCongestionController" where
  "update_rtt rtt_sample_us c =
    (if rtt_sample_us = 0 then c
     else case lc_srtt_us c of
       None \<Rightarrow>
         let rttvar = rtt_sample_us div 2 in
         c\<lparr>lc_srtt_us := Some rtt_sample_us, lc_rttvar_us := rttvar,
           lc_rto_us := clamp_u32 MIN_RTO_US MAX_RTO_US (rtt_sample_us + 4 * rttvar)\<rparr>
     | Some srtt \<Rightarrow>
         let diff = abs_diff_u32 srtt rtt_sample_us;
             rttvar = (3 * lc_rttvar_us c + diff) div 4;
             new_srtt = (7 * srtt + rtt_sample_us) div 8
         in c\<lparr>lc_rttvar_us := rttvar, lc_srtt_us := Some new_srtt,
              lc_rto_us := clamp_u32 MIN_RTO_US MAX_RTO_US (new_srtt + 4 * rttvar)\<rparr>)"

definition on_loss :: "LedbatCongestionController \<Rightarrow> LedbatCongestionController" where
  "on_loss c =
    (let cwnd_float = max (f64 (lc_cwnd_float c / 2)) (u32_to_f64 (lc_min_cwnd c))
     in c\<lparr>lc_cwnd_float := cwnd_float, lc_cwnd := f64_to_u32 (f64_round cwnd_float)\<rparr>)"

definition saturating_mul2 :: "u32 \<Rightarrow> u32" where
  "saturating_mul2 w = (if 2 * unat w \<le> U32_MAX then 2 * w else - 1)"

definition on_rto_timeout :: "LedbatCongestionController \<Rightarrow> LedbatCongestionController" where
  "on_rto_timeout c = on_loss (c\<lparr>lc_rto_us := min (saturating_mul2 (lc_rto_us c)) MAX_RTO_US\<rparr>)"

definition f64_clamp :: "rat \<Rightarrow> rat \<Rightarrow> rat \<Rightarrow> rat" where
  "f64_clamp lo hi x = (if x < lo then lo else if hi < x then hi else x)"

definition on_ack :: "u32 \<Rightarrow> u32 \<Rightarrow> u64 \<Rightarrow> LedbatCongestionController \<Rightarrow> LedbatCongestionController" where
  "on_ack bytes_acked delay_sample_us now_us c =
    (if 0 < delay_sample_us then
       let dt = add_sample delay_sample_us now_us (lc_delay_tracker c);
           queuing_delay = word_saturating_sub delay_sample_us (base_delay dt);
           target = u32_to_f64 (lc_target_delay_us c);
           off_target = f64 (f64 (target - u32_to_f64 queuing_delay) / target);
           off_target = f64_clamp (- 1) 1 off_target;
           delta = f64 (f64 (f64 (off_target * u32_to_f64 bytes_acked) * u32_to_f64 (lc_mss c)) / lc_cwnd_float c);
           cwnd_float = f64_clamp (u32_to_f64 (lc_min_cwnd c)) (u32_to_f64 (lc_max_cwnd c)) (f64 (lc_cwnd_float c + delta))
       in c\<lparr>lc_delay_tracker := dt, lc_last_queuing_delay_us := queuing_delay,
            lc_cwnd_float := cwnd_float, lc_cwnd := f64_to_u32 (f64_round cwnd_float)\<rparr>
     else c)"

definition handle_ack :: "u16 \<Rightarrow> u32 \<Rightarrow> u32 \<Rightarrow> u64 \<Rightarrow> LedbatCongestionController \<Rightarrow> bool \<times> LedbatCongestionController" where
  "handle_ack ack_nr bytes_acked delay_sample_us now_us c =
    (let c = (case lc_loss_recovery c of
           Recovery rseq _ \<Rightarrow> if seq_acked rseq ack_nr then c\<lparr>lc_loss_recovery := NormalOperation\<rparr> else c
         | NormalOperation \<Rightarrow> c)
     in if 0 < bytes_acked then
          let c = c\<lparr>lc_duplicate_acks := 0, lc_last_ack_nr := ack_nr\<rparr> in
          if lc_loss_recovery c = NormalOperation then (False, on_ack bytes_acked delay_sample_us now_us c)
          else if 0 < delay_sample_us then
            let dt = add_sample delay_sample_us now_us (lc_delay_tracker c)
            in (False, c\<lparr>lc_delay_tracker := dt,
                 lc_last_queuing_delay_us := word_saturating_sub delay_sample_us (base_delay dt)\<rparr>)
          else (False, c)
        else if ack_nr = lc_last_ack_nr c then
          let c = c\<lparr>lc_duplicate_acks := lc_duplicate_acks c + 1\<rparr> in
          if lc_duplicate_acks c = 3 then (True, on_loss c) else (False, c)
        else
          let c = c\<lparr>lc_duplicate_acks := 0, lc_last_ack_nr := ack_nr\<rparr> in
          if 0 < delay_sample_us
          then (False, c\<lparr>lc_delay_tracker := add_sample delay_sample_us now_us (lc_delay_tracker c)\<rparr>)
          else (False, c))"

definition effective_window :: "LedbatCongestionController \<Rightarrow> u32" where
  "effective_window c = min (lc_cwnd c) (lc_remote_wnd_size c)"

definition can_send :: "u32 \<Rightarrow> LedbatCongestionController \<Rightarrow> bool" where
  "can_send bytes_in_flight c \<longleftrightarrow> bytes_in_flight < effective_window c"

definition available_window :: "u32 \<Rightarrow> LedbatCongestionController \<Rightarrow> u32" where
  "available_window bytes_in_flight c = word_saturating_sub (effective_window c) bytes_in_flight"

definition set_cwnd :: "u32 \<Rightarrow> LedbatCongestionController \<Rightarrow> LedbatCongestionController" where
  "set_cwnd cwnd c =
    (let w = clamp_u32 (lc_min_cwnd c) (lc_max_cwnd c) cwnd in c\<lparr>lc_cwnd := w, lc_cwnd_float := u32_to_f64 w\<rparr>)"

section \<open>Limits\<close>

text \<open>The cs a transport makes on its controller.\<close>

datatype LedbatCall =
    HandleAck u16 u32 u32 u64
  | OnAck u32 u32 u64
  | RemoteWindow u32
  | EnterRecovery u16 bool
  | ExitRecovery
  | RttSample u32
  | RtoTimeout
  | PacketLoss
  | SetCwnd u32

fun ledbat_call :: "LedbatCall \<Rightarrow> LedbatCongestionController \<Rightarrow> LedbatCongestionController" where
  "ledbat_call (HandleAck a b d t) c = snd (handle_ack a b d t c)"
| "ledbat_call (OnAck b d t) c = on_ack b d t c"
| "ledbat_call (RemoteWindow w) c = set_remote_window w c"
| "ledbat_call (EnterRecovery s b) c = snd (enter_recovery s b c)"
| "ledbat_call ExitRecovery c = exit_recovery c"
| "ledbat_call (RttSample r) c = update_rtt r c"
| "ledbat_call RtoTimeout c = on_rto_timeout c"
| "ledbat_call PacketLoss c = on_loss c"
| "ledbat_call (SetCwnd w) c = set_cwnd w c"

definition ledbat_inv :: "LedbatCongestionController \<Rightarrow> bool" where
  "ledbat_inv c \<longleftrightarrow> lc_min_cwnd c = DEFAULT_MIN_CWND \<and> lc_max_cwnd c = DEFAULT_MAX_CWND
    \<and> u32_to_f64 DEFAULT_MIN_CWND \<le> lc_cwnd_float c \<and> lc_cwnd_float c \<le> u32_to_f64 DEFAULT_MAX_CWND
    \<and> f64 (lc_cwnd_float c) = lc_cwnd_float c
    \<and> lc_cwnd c = f64_to_u32 (f64_round (lc_cwnd_float c))
    \<and> MIN_RTO_US \<le> lc_rto_us c \<and> lc_rto_us c \<le> MAX_RTO_US"

lemma u32_exact: "unat (w :: u32) \<le> F64_EXACT"
proof -
  have "unat w < 2 ^ LENGTH(32)" by (rule unsigned_less)
  then show ?thesis by (simp add: F64_EXACT_def)
qed

lemma f64_u32 [simp]: "f64 (u32_to_f64 w) = u32_to_f64 w"
  unfolding u32_to_f64_def by (rule f64.fl_nat [OF u32_exact])

lemma u32_of_f64 [simp]: "f64_to_u32 (f64_round (u32_to_f64 w)) = w"
proof -
  have small: "unat w < 2 ^ 32" using unsigned_less [of w] by simp
  have "\<lfloor>(of_nat (unat w) :: rat) + 1 / 2\<rfloor> = int (unat w)" by (simp add: floor_unique)
  then have "unat (f64_to_u32 (f64_round (u32_to_f64 w))) = unat w"
    unfolding u32_to_f64_def
    using unat_f64_to_u32_round(1) [of "unat w" "of_nat (unat w)" "unat w"] small by simp
  then show ?thesis by (simp only: word_unat_eq_iff)
qed

lemma u32_to_f64_le [simp]: "u32_to_f64 a \<le> u32_to_f64 b \<longleftrightarrow> a \<le> b"
  by (simp only: u32_to_f64_def of_nat_le_iff word_le_nat_alt)

lemma u32_to_f64_pos: "0 < u32_to_f64 w \<longleftrightarrow> 0 < w" and u32_to_f64_nonneg [simp]: "0 \<le> u32_to_f64 w"
  unfolding u32_to_f64_def by (simp_all only: of_nat_0_less_iff unat_gt_0 word_neq_0_conv of_nat_0_le_iff)

lemma clamp_u32_bounds: "lo \<le> hi \<Longrightarrow> lo \<le> clamp_u32 lo hi x" "lo \<le> hi \<Longrightarrow> clamp_u32 lo hi x \<le> hi"
  by (auto simp: clamp_u32_def)

lemma f64_clamp_bounds: "lo \<le> hi \<Longrightarrow> lo \<le> f64_clamp lo hi x" "lo \<le> hi \<Longrightarrow> f64_clamp lo hi x \<le> hi"
  by (auto simp: f64_clamp_def)

lemma f64_clamp_sign: "0 \<le> x \<Longrightarrow> 0 \<le> f64_clamp (- 1) 1 x" "x \<le> 0 \<Longrightarrow> f64_clamp (- 1) 1 x \<le> 0"
  by (auto simp: f64_clamp_def)

lemma f64_clamp_repr: "f64 lo = lo \<Longrightarrow> f64 hi = hi \<Longrightarrow> f64 x = x \<Longrightarrow> f64 (f64_clamp lo hi x) = f64_clamp lo hi x"
  by (simp add: f64_clamp_def)

lemma f64_clamp_mono: "x \<le> y \<Longrightarrow> lo \<le> hi \<Longrightarrow> f64_clamp lo hi x \<le> f64_clamp lo hi y"
  by (simp add: f64_clamp_def)

lemma f64_clamp_id: "lo \<le> x \<Longrightarrow> x \<le> hi \<Longrightarrow> f64_clamp lo hi x = x"
  by (simp add: f64_clamp_def)

lemma f64_round_mono: "0 \<le> x \<Longrightarrow> x \<le> y \<Longrightarrow> f64_round x \<le> f64_round y"
  by (simp add: f64_round_def floor_mono)

lemma f64_to_u32_mono: "x \<le> y \<Longrightarrow> f64_to_u32 x \<le> f64_to_u32 y"
proof -
  assume le: "x \<le> y"
  have "of_int \<lfloor>x\<rfloor> \<le> (of_int \<lfloor>y\<rfloor> :: u32)" if "0 < x" "y < of_nat U32_MAX"
  proof -
    have *: "0 \<le> \<lfloor>x\<rfloor>" "\<lfloor>x\<rfloor> \<le> \<lfloor>y\<rfloor>" "\<lfloor>y\<rfloor> < 2 ^ 32"
      using that le by (simp_all add: floor_mono U32_MAX_def floor_less_iff)
    then have "take_bit 32 \<lfloor>x\<rfloor> = \<lfloor>x\<rfloor>" "take_bit 32 \<lfloor>y\<rfloor> = \<lfloor>y\<rfloor>"
      by (intro take_bit_int_eq_self; linarith)+
    then show ?thesis using *(2) by (simp add: word_of_int_less_eq_iff)
  qed
  then show ?thesis using le by (auto simp: f64_to_u32_def word_order.extremum)
qed

lemma limits [simp]: "DEFAULT_MIN_CWND \<le> DEFAULT_MAX_CWND" "MIN_RTO_US \<le> MAX_RTO_US" "0 < u32_to_f64 DEFAULT_MIN_CWND"
  by (simp_all add: DEFAULT_MIN_CWND_def DEFAULT_MAX_CWND_def MIN_RTO_US_def MAX_RTO_US_def u32_to_f64_def)

lemma window_pos: "ledbat_inv c \<Longrightarrow> 0 < lc_cwnd_float c"
  using limits(3) unfolding ledbat_inv_def by linarith

lemma ledbat_inv_window:
  assumes "ledbat_inv c" and "u32_to_f64 DEFAULT_MIN_CWND \<le> w" and "w \<le> u32_to_f64 DEFAULT_MAX_CWND" and "f64 w = w"
  shows "ledbat_inv (c\<lparr>lc_cwnd_float := w, lc_cwnd := f64_to_u32 (f64_round w)\<rparr>)"
  using assms by (simp add: ledbat_inv_def)

lemma on_loss_inv: "ledbat_inv c \<Longrightarrow> ledbat_inv (on_loss c)"
proof -
  assume inv: "ledbat_inv c"
  let ?w = "max (f64 (lc_cwnd_float c / 2)) (u32_to_f64 DEFAULT_MIN_CWND)"
  have "lc_cwnd_float c / 2 \<le> u32_to_f64 DEFAULT_MAX_CWND"
    using inv window_pos [OF inv] unfolding ledbat_inv_def by linarith
  then have "?w \<le> u32_to_f64 DEFAULT_MAX_CWND" using f64.fl_mono [of _ "u32_to_f64 DEFAULT_MAX_CWND"] by simp
  moreover have "f64 ?w = ?w" by (simp add: max_def f64.fl_fl)
  moreover have "on_loss c = c\<lparr>lc_cwnd_float := ?w, lc_cwnd := f64_to_u32 (f64_round ?w)\<rparr>"
    using inv by (simp add: on_loss_def ledbat_inv_def Let_def)
  ultimately show ?thesis using ledbat_inv_window [OF inv, of ?w] by simp
qed

lemma on_ack_inv: "ledbat_inv c \<Longrightarrow> ledbat_inv (on_ack b d t c)"
proof (cases "0 < d")
  case True
  assume inv: "ledbat_inv c"
  then show ?thesis using True
    by (simp add: on_ack_def Let_def ledbat_inv_def f64_clamp_bounds f64_clamp_repr f64.fl_fl)
qed (simp add: on_ack_def)

lemma enter_recovery_inv:
  assumes inv: "ledbat_inv c"
  shows "ledbat_inv (snd (enter_recovery s b c))" and "lc_cwnd (snd (enter_recovery s b c)) \<le> lc_cwnd c"
proof -
  let ?f = "if b then f64 (65 / 100) else f64 (1 / 2)"
  let ?x = "f64 (lc_cwnd_float c * ?f)"
  let ?w = "max (f64_to_u32 (f64_round ?x)) DEFAULT_MIN_CWND"
  have f: "0 \<le> ?f" "?f \<le> 1" using f64.fl_mono [of "65 / 100" 1] f64.fl_mono [of "1 / 2" 1] by (simp_all add: f64.fl_nonneg)
  have pos: "0 \<le> lc_cwnd_float c" and I: "lc_cwnd_float c \<le> u32_to_f64 DEFAULT_MAX_CWND" "f64 (lc_cwnd_float c) = lc_cwnd_float c"
    using inv window_pos [OF inv] by (simp_all add: ledbat_inv_def)
  have "lc_cwnd_float c * ?f \<le> lc_cwnd_float c" using mult_left_mono [OF f(2) pos] by simp
  then have x: "?x \<le> lc_cwnd_float c" "0 \<le> ?x" using f64.fl_mono I(2) pos f(1) by (force intro: f64.fl_nonneg)+
  have le: "f64_to_u32 (f64_round ?x) \<le> lc_cwnd c"
    using f64_to_u32_mono [OF f64_round_mono [OF x(2,1)]] inv by (simp add: ledbat_inv_def)
  have min: "DEFAULT_MIN_CWND \<le> lc_cwnd c" "lc_cwnd c \<le> DEFAULT_MAX_CWND"
    using f64_to_u32_mono [OF f64_round_mono, of "u32_to_f64 DEFAULT_MIN_CWND" "lc_cwnd_float c"]
      f64_to_u32_mono [OF f64_round_mono [OF pos I(1)]] inv limits(3)
    by (simp_all add: ledbat_inv_def)
  have e: "snd (enter_recovery s b c) = c \<or> snd (enter_recovery s b c) =
      c\<lparr>lc_cwnd := ?w, lc_cwnd_float := u32_to_f64 ?w, lc_loss_recovery := Recovery s ?w\<rparr>"
    using inv by (simp add: enter_recovery_def ledbat_inv_def Let_def)
  have "?w \<le> lc_cwnd c" using le min by simp
  then show "lc_cwnd (snd (enter_recovery s b c)) \<le> lc_cwnd c" using e by auto
  show "ledbat_inv (snd (enter_recovery s b c))"
    using e inv \<open>?w \<le> lc_cwnd c\<close> min by (auto simp: ledbat_inv_def)
qed

lemma cwnd_bounds:
  assumes "ledbat_inv c"
  shows "DEFAULT_MIN_CWND \<le> lc_cwnd c" and "lc_cwnd c \<le> DEFAULT_MAX_CWND"
  using f64_to_u32_mono [OF f64_round_mono, of "u32_to_f64 DEFAULT_MIN_CWND" "lc_cwnd_float c"]
    f64_to_u32_mono [OF f64_round_mono, of "lc_cwnd_float c" "u32_to_f64 DEFAULT_MAX_CWND"] assms window_pos [OF assms] limits(3)
  by (simp_all add: ledbat_inv_def)

lemma update_rtt_inv: "ledbat_inv c \<Longrightarrow> ledbat_inv (update_rtt r c)"
  by (simp add: update_rtt_def ledbat_inv_def Let_def clamp_u32_bounds split: option.split)

lemma rto_backoff: "MIN_RTO_US \<le> w \<Longrightarrow> w \<le> MAX_RTO_US \<Longrightarrow> MIN_RTO_US \<le> saturating_mul2 w"
proof -
  assume w: "MIN_RTO_US \<le> w" "w \<le> MAX_RTO_US"
  then have n: "500000 \<le> unat w" "unat w \<le> 3000000"
    by (simp_all add: MIN_RTO_US_def MAX_RTO_US_def word_le_nat_alt)
  then have "unat (2 * w) = 2 * unat w" by (simp add: unat_word_ariths)
  then show ?thesis using n by (simp add: saturating_mul2_def U32_MAX_def MIN_RTO_US_def MAX_RTO_US_def word_le_nat_alt)
qed

lemma rto_timeout_inv: "ledbat_inv c \<Longrightarrow> ledbat_inv (on_rto_timeout c)"
  unfolding on_rto_timeout_def by (rule on_loss_inv) (simp add: ledbat_inv_def rto_backoff)

lemma handle_ack_inv: "ledbat_inv c \<Longrightarrow> ledbat_inv (snd (handle_ack a b d t c))"
proof -
  let ?leave = "\<lambda>c. case lc_loss_recovery c of
      Recovery rseq _ \<Rightarrow> if seq_acked rseq a then c\<lparr>lc_loss_recovery := NormalOperation\<rparr> else c | NormalOperation \<Rightarrow> c"
  assume "ledbat_inv c"
  then have inv: "ledbat_inv (?leave c)" by (auto simp: ledbat_inv_def split: LossRecoveryState.split)
  have frame: "ledbat_inv (c\<lparr>lc_duplicate_acks := n, lc_last_ack_nr := m\<rparr>) \<longleftrightarrow> ledbat_inv c"
    "ledbat_inv (c\<lparr>lc_duplicate_acks := n\<rparr>) \<longleftrightarrow> ledbat_inv c"
    "ledbat_inv (c\<lparr>lc_delay_tracker := dt\<rparr>) \<longleftrightarrow> ledbat_inv c"
    "ledbat_inv (c\<lparr>lc_last_queuing_delay_us := q\<rparr>) \<longleftrightarrow> ledbat_inv c" for c n m dt q
    by (simp_all add: ledbat_inv_def)
  show ?thesis
    unfolding handle_ack_def Let_def by (simp add: inv frame on_ack_inv on_loss_inv del: LossRecoveryState.case)
qed

lemma ledbat_call_inv: "ledbat_inv c \<Longrightarrow> ledbat_inv (ledbat_call call c)"
proof (cases call)
  case (SetCwnd w)
  moreover assume "ledbat_inv c"
  ultimately show ?thesis by (simp add: set_cwnd_def ledbat_inv_def Let_def clamp_u32_bounds)
qed (simp_all add: handle_ack_inv on_ack_inv enter_recovery_inv update_rtt_inv rto_timeout_inv on_loss_inv,
  simp_all add: set_remote_window_def exit_recovery_def ledbat_inv_def)

lemma ledbat_inv_new: "ledbat_inv (with_target t)"
  by (simp add: ledbat_inv_def with_target_def DEFAULT_INITIAL_RTO_US_def MIN_RTO_US_def MAX_RTO_US_def)

lemma ledbat_inv_run: "ledbat_inv (fold ledbat_call cs (with_target t))"
proof -
  have "ledbat_inv c \<Longrightarrow> ledbat_inv (fold ledbat_call cs c)" for c
    by (induction cs arbitrary: c) (simp_all add: ledbat_call_inv)
  then show ?thesis using ledbat_inv_new by blast
qed

lemma target_run: "lc_target_delay_us (fold ledbat_call cs (with_target t)) = t"
proof -
  have call: "lc_target_delay_us (ledbat_call call c) = lc_target_delay_us c" for call c
    by (cases call)
      (simp_all add: handle_ack_def on_ack_def on_loss_def on_rto_timeout_def enter_recovery_def update_rtt_def
        set_remote_window_def exit_recovery_def set_cwnd_def Let_def split: LossRecoveryState.split option.split)
  have "lc_target_delay_us (fold ledbat_call cs c) = lc_target_delay_us c" for c
    by (induction cs arbitrary: c) (simp_all add: call)
  then show ?thesis by (simp add: with_target_def)
qed



section \<open>Direction of the window\<close>

definition least_delay :: "u32 \<Rightarrow> DelayBucket \<Rightarrow> u32" where
  "least_delay m b = (if 0 < start_time_us b \<and> min_delay b < m then min_delay b else m)"

lemma least_delay_le: "foldl least_delay m bs \<le> m"
proof (induction bs arbitrary: m)
  case (Cons b bs)
  have "least_delay m b \<le> m" by (auto simp: least_delay_def)
  then show ?case using Cons.IH [of "least_delay m b"] by simp
qed simp

lemma least_delay_bucket: "b \<in> set bs \<Longrightarrow> 0 < start_time_us b \<Longrightarrow> foldl least_delay m bs \<le> min_delay b"
proof (induction bs arbitrary: m)
  case (Cons a bs)
  show ?case
  proof (cases "b = a")
    case True
    have "least_delay m a \<le> min_delay a" using Cons.prems(2) True by (auto simp: least_delay_def)
    then show ?thesis using least_delay_le [of "least_delay m a" bs] True by simp
  qed (use Cons in simp)
qed simp

lemma base_delay_fold: "base_delay dt = foldl least_delay (- 1) (dt_buckets dt)"
  by (simp add: base_delay_def least_delay_def [abs_def])

definition tracker_wf :: "DelayTracker \<Rightarrow> bool" where
  "tracker_wf dt \<longleftrightarrow> length (dt_buckets dt) = 4 \<and> dt_current_idx dt < 4"

lemma base_delay_sample:
  assumes "tracker_wf dt" and "0 < d" and "0 < now"
  shows "tracker_wf (add_sample d now dt)" and "base_delay (add_sample d now dt) \<le> d"
proof -
  have wf: "length (dt_buckets dt) = 4" "dt_current_idx dt < 4" using assms(1) by (simp_all add: tracker_wf_def)
  show "tracker_wf (add_sample d now dt)" using wf by (simp add: tracker_wf_def add_sample_def Let_def)
  let ?dt = "add_sample d now dt"
  let ?b = "dt_buckets ?dt ! dt_current_idx ?dt"
  have "?b \<in> set (dt_buckets ?dt)" using \<open>tracker_wf ?dt\<close> by (simp add: tracker_wf_def)
  moreover have "0 < start_time_us ?b \<and> min_delay ?b \<le> d"
    using wf assms(2,3) by (auto simp: add_sample_def Let_def word_neq_0_conv)
  ultimately show "base_delay ?dt \<le> d" using least_delay_bucket order_trans unfolding base_delay_fold by blast
qed

lemma tracker_wf_add: "tracker_wf dt \<Longrightarrow> tracker_wf (add_sample d now dt)"
  by (simp add: tracker_wf_def add_sample_def Let_def)

lemma tracker_wf_run: "tracker_wf (lc_delay_tracker (fold ledbat_call cs (with_target t)))"
proof -
  have call: "tracker_wf (lc_delay_tracker c) \<Longrightarrow> tracker_wf (lc_delay_tracker (ledbat_call call c))" for call c
    by (cases call)
      (simp_all add: handle_ack_def on_ack_def on_loss_def on_rto_timeout_def enter_recovery_def update_rtt_def
        set_remote_window_def exit_recovery_def set_cwnd_def Let_def tracker_wf_add split: LossRecoveryState.split option.split)
  have "tracker_wf (lc_delay_tracker c) \<Longrightarrow> tracker_wf (lc_delay_tracker (fold ledbat_call cs c))" for c
    by (induction cs arbitrary: c) (simp_all add: call)
  moreover have "tracker_wf (lc_delay_tracker (with_target t))"
    by (simp add: with_target_def dt_default_def dt_new_def tracker_wf_def)
  ultimately show ?thesis by blast
qed

text \<open>
  C32 (\<open>on_ack\<close>). Below the target delay an acknowledgement never shrinks the congestion window, above it
  never grows it; and the queueing delay is measured against a base delay that is at most the
  sample, so it never wraps around.
\<close>

theorem window_follows_target:
  assumes "0 < target" and c: "c = fold ledbat_call cs (with_target target)"
    and "0 < delay" and "0 < now" and c': "c' = on_ack bytes_acked delay now c"
  shows "(lc_last_queuing_delay_us c' \<le> target \<longrightarrow> lc_cwnd c \<le> lc_cwnd c')
    \<and> (target \<le> lc_last_queuing_delay_us c' \<longrightarrow> lc_cwnd c' \<le> lc_cwnd c)
    \<and> unat (lc_last_queuing_delay_us c') + unat (base_delay (lc_delay_tracker c')) = unat delay"
proof -
  have inv: "ledbat_inv c" unfolding c by (rule ledbat_inv_run)
  have t: "lc_target_delay_us c = target" unfolding c by (rule target_run)
  let ?dt = "add_sample delay now (lc_delay_tracker c)"
  let ?q = "word_saturating_sub delay (base_delay ?dt)"
  let ?off = "f64_clamp (- 1) 1 (f64 (f64 (u32_to_f64 target - u32_to_f64 ?q) / u32_to_f64 target))"
  let ?delta = "f64 (f64 (f64 (?off * u32_to_f64 bytes_acked) * u32_to_f64 (lc_mss c)) / lc_cwnd_float c)"
  let ?w = "f64_clamp (u32_to_f64 (lc_min_cwnd c)) (u32_to_f64 (lc_max_cwnd c)) (f64 (lc_cwnd_float c + ?delta))"
  have q: "lc_last_queuing_delay_us c' = ?q" and dt: "lc_delay_tracker c' = ?dt"
    and cw: "lc_cwnd c' = f64_to_u32 (f64_round ?w)"
    using assms(3) by (simp_all add: c' on_ack_def t Let_def)
  have pos: "0 < u32_to_f64 target" "0 \<le> u32_to_f64 bytes_acked" "0 \<le> u32_to_f64 (lc_mss c)" "0 < lc_cwnd_float c"
    using assms(1) window_pos [OF inv] by (simp_all add: u32_to_f64_pos)
  have W: "lc_cwnd c = f64_to_u32 (f64_round (lc_cwnd_float c))" "f64 (lc_cwnd_float c) = lc_cwnd_float c"
    and keep: "f64_clamp (u32_to_f64 (lc_min_cwnd c)) (u32_to_f64 (lc_max_cwnd c)) (lc_cwnd_float c) = lc_cwnd_float c"
    using inv by (simp_all add: ledbat_inv_def f64_clamp_id)
  have lim: "u32_to_f64 (lc_min_cwnd c) \<le> u32_to_f64 (lc_max_cwnd c)" using inv by (simp add: ledbat_inv_def)
  have w: "0 \<le> ?w" by (rule order_trans [OF u32_to_f64_nonneg f64_clamp_bounds(1) [OF lim]])
  have "lc_cwnd c \<le> lc_cwnd c'" if "?q \<le> target"
  proof -
    have "0 \<le> u32_to_f64 target - u32_to_f64 ?q" using that by simp
    then have "0 \<le> ?off" using pos by (intro f64_clamp_sign f64.fl_nonneg divide_nonneg_pos)
    then have "0 \<le> ?delta" using pos by (intro f64.fl_nonneg divide_nonneg_pos mult_nonneg_nonneg)
    from f64_clamp_mono [OF f64.fl_add_nonneg [OF W(2) this] lim] have "lc_cwnd_float c \<le> ?w" by (simp only: keep)
    then show ?thesis unfolding cw W(1) using pos(4) by (intro f64_to_u32_mono f64_round_mono) simp_all
  qed
  moreover have "lc_cwnd c' \<le> lc_cwnd c" if "target \<le> ?q"
  proof -
    have "u32_to_f64 target - u32_to_f64 ?q \<le> 0" using that by simp
    then have "?off \<le> 0" using pos by (intro f64_clamp_sign f64.fl_nonpos divide_nonpos_pos)
    then have "?delta \<le> 0" using pos by (intro f64.fl_nonpos divide_nonpos_pos mult_nonpos_nonneg)
    from f64_clamp_mono [OF f64.fl_add_nonpos [OF W(2) this] lim] have "?w \<le> lc_cwnd_float c" by (simp only: keep)
    then show ?thesis unfolding cw W(1) using w by (intro f64_to_u32_mono f64_round_mono)
  qed
  moreover have "base_delay ?dt \<le> delay"
    using base_delay_sample(2) [OF _ assms(3,4)] tracker_wf_run c by blast
  ultimately show ?thesis by (simp add: q dt unat_word_saturating_sub word_le_nat_alt)
qed

lemma window_follows_target_witness:
  "let c = fold ledbat_call [SetCwnd 10000] (with_target 100000); c' = on_ack 1460 5000 7 c
   in lc_last_queuing_delay_us c' \<le> 100000 \<and> lc_cwnd c \<le> lc_cwnd c'"
  using window_follows_target [OF _ refl _ _ refl, where target = 100000 and delay = 5000 and now = 7 and cs = "[SetCwnd 10000]" and bytes_acked = 1460]
  unfolding Let_def word_le_nat_alt by simp

section \<open>Recovery epochs\<close>



text \<open>
  Three duplicate acknowledgements halve the window even inside a recovery epoch, against the
  comment on \<open>LossRecoveryState::Recovery\<close>.
\<close>

lemma duplicates_halve_in_recovery:
  assumes c: "lc_loss_recovery c = Recovery rseq w" "lc_cwnd_float c = 50000" "lc_min_cwnd c = DEFAULT_MIN_CWND"
      "lc_duplicate_acks c = 0" "\<not> seq_acked rseq (lc_last_ack_nr c)"
    and "c' = (snd \<circ> handle_ack (lc_last_ack_nr c) 0 d t \<circ> snd \<circ> handle_ack (lc_last_ack_nr c) 0 d t
      \<circ> snd \<circ> handle_ack (lc_last_ack_nr c) 0 d t) c"
  shows "lc_loss_recovery c' = Recovery rseq w" and "lc_cwnd_float c' = 25000"
proof -
  have "f64 25000 = 25000" using f64.fl_nat [of 25000] by (simp add: F64_EXACT_def)
  moreover have "u32_to_f64 DEFAULT_MIN_CWND = 2920" by (simp add: u32_to_f64_def DEFAULT_MIN_CWND_def)
  ultimately show "lc_loss_recovery c' = Recovery rseq w" "lc_cwnd_float c' = 25000"
    unfolding assms(6) using c by (simp_all add: handle_ack_def on_loss_def Let_def)
qed

end
