(* ===== verification/Utp_Socket.thy ===== *)
theory Utp_Socket
  imports Utp_Congestion Ordered_Map "HOL-Library.Code_Target_Numeral"
begin

text \<open>
  The uTP connection (\<open>UtpSocketAdapter\<close> of \<open>network/utp.rs\<close>): sending, retransmission on timeouts and on
  selective acknowledgements, reassembly of packets that arrive out of order, and the socket
  operations on top. The datagrams that were sent are recorded in \<open>us_outbox\<close>; a socket that is
  down fails every send; what the network delivers is a list of timed events. The clock is an
  argument, in microseconds. Packets that are numbered in sequence are delivered in order and
  without loss, whatever the network reorders and repeats; the last section holds the cases in
  which the numbering or the size of packets breaks that.
\<close>

section \<open>State\<close>

record UtpPipelineMetrics =
  packets_sent :: nat
  packets_recv :: nat
  bytes_sent :: nat
  bytes_recv :: nat
  retransmits_fast :: nat
  retransmits_timeout :: nat
  duplicate_acks_count :: nat
  sack_packets_sent :: nat
  sack_packets_recv :: nat
  loss_recovery_events :: nat
  burst_loss_events :: nat
  out_of_order_buffered :: nat
  max_out_of_order_depth :: nat

record SentPacket =
  sp_seq :: u16
  sp_timestamp :: nat
  sp_payload :: bytes
  sp_sacked :: bool
  sp_retransmit_count :: nat
  sp_last_sent_time :: nat

record UtpSocketAdapter =
  us_outbox :: "bytes list"
  us_down :: "BitTorrentError option"
  us_connection_id :: u16
  us_seq_nr :: u16
  us_ack_nr :: u16
  us_closed :: bool
  us_controller :: LedbatCongestionController
  us_last_remote_timestamp_us :: u32
  us_last_remote_recv_us :: u32
  us_sent_packets :: "SentPacket list"
  us_out_of_order_received :: "(u16 \<times> bytes) list"
  us_recv_buffer :: bytes
  us_metrics :: UtpPipelineMetrics
  us_max_out_of_order_packets :: nat

definition metrics_default :: UtpPipelineMetrics where
  "metrics_default = \<lparr>packets_sent = 0, packets_recv = 0, bytes_sent = 0, bytes_recv = 0, retransmits_fast = 0,
     retransmits_timeout = 0, duplicate_acks_count = 0, sack_packets_sent = 0, sack_packets_recv = 0,
     loss_recovery_events = 0, burst_loss_events = 0, out_of_order_buffered = 0, max_out_of_order_depth = 0\<rparr>"

definition from_raw_socket :: "u16 \<Rightarrow> UtpSocketAdapter" where
  "from_raw_socket connection_id = \<lparr>us_outbox = [], us_down = None, us_connection_id = connection_id, us_seq_nr = 1,
     us_ack_nr = 0, us_closed = False, us_controller = ledbat_new, us_last_remote_timestamp_us = 0,
     us_last_remote_recv_us = 0, us_sent_packets = [], us_out_of_order_received = [], us_recv_buffer = [],
     us_metrics = metrics_default, us_max_out_of_order_packets = 512\<rparr>"

section \<open>Sending\<close>

definition timestamp_difference :: "UtpSocketAdapter \<Rightarrow> u32" where
  "timestamp_difference us = (if 0 < us_last_remote_timestamp_us us
     then us_last_remote_recv_us us - us_last_remote_timestamp_us us else 0)"

definition udp_send :: "bytes \<Rightarrow> UtpSocketAdapter \<Rightarrow> unit result \<times> UtpSocketAdapter" where
  "udp_send packet us = (case us_down us of
     Some e \<Rightarrow> (Inl e, us) | None \<Rightarrow> (Inr (), us\<lparr>us_outbox := us_outbox us @ [packet]\<rparr>))"

definition retransmit_data_packet :: "nat \<Rightarrow> u16 \<Rightarrow> bytes \<Rightarrow> UtpSocketAdapter \<Rightarrow> unit result \<times> UtpSocketAdapter" where
  "retransmit_data_packet now seq payload us =
    (let header = \<lparr>hd_packet_type = UtpData, hd_version = 1, hd_extension = 0, hd_connection_id = us_connection_id us,
           hd_timestamp_us = of_nat now, hd_timestamp_difference_us = timestamp_difference us, hd_wnd_size = 1048576,
           hd_seq_nr = seq, hd_ack_nr = us_ack_nr us, hd_extensions = []\<rparr>
     in case udp_send (utp_encode header @ payload) us of
          (Inl e, us) \<Rightarrow> (Inl e, us)
        | (Inr _, us) \<Rightarrow> (Inr (), us\<lparr>us_metrics := (us_metrics us)\<lparr>packets_sent := packets_sent (us_metrics us) + 1,
              bytes_sent := bytes_sent (us_metrics us) + length payload\<rparr>\<rparr>))"

text \<open>The first packet whose timer has expired, with the queue in which it is stamped as sent again.\<close>

fun take_expired :: "nat \<Rightarrow> nat \<Rightarrow> SentPacket list \<Rightarrow> (u16 \<times> bytes) option \<times> SentPacket list" where
  "take_expired now rto [] = (None, [])"
| "take_expired now rto (pkt # pkts) =
    (if \<not> sp_sacked pkt \<and> rto \<le> now - sp_last_sent_time pkt
     then (Some (sp_seq pkt, sp_payload pkt),
           pkt\<lparr>sp_last_sent_time := now, sp_retransmit_count := sp_retransmit_count pkt + 1\<rparr> # pkts)
     else apsnd ((#) pkt) (take_expired now rto pkts))"

definition check_timeouts :: "nat \<Rightarrow> UtpSocketAdapter \<Rightarrow> UtpSocketAdapter" where
  "check_timeouts now us =
    (case take_expired now (unat (lc_rto_us (us_controller us))) (us_sent_packets us) of
       (None, pkts) \<Rightarrow> us\<lparr>us_sent_packets := pkts\<rparr>
     | (Some (seq, payload), pkts) \<Rightarrow>
         let us = snd (retransmit_data_packet now seq payload (us\<lparr>us_sent_packets := pkts\<rparr>))
         in us\<lparr>us_controller := on_rto_timeout (us_controller us),
               us_metrics := (us_metrics us)\<lparr>retransmits_timeout := retransmits_timeout (us_metrics us) + 1,
                 loss_recovery_events := loss_recovery_events (us_metrics us) + 1\<rparr>\<rparr>)"

definition send_packet_with_extensions ::
  "nat \<Rightarrow> UtpPacketType \<Rightarrow> bytes \<Rightarrow> UtpExtension list \<Rightarrow> UtpSocketAdapter \<Rightarrow> unit result \<times> UtpSocketAdapter" where
  "send_packet_with_extensions now packet_type payload extensions us =
    (let seq = us_seq_nr us;
         first_ext = (case extensions of [] \<Rightarrow> 0 | e # _ \<Rightarrow> extension_type e);
         header = \<lparr>hd_packet_type = packet_type, hd_version = 1, hd_extension = first_ext,
           hd_connection_id = us_connection_id us, hd_timestamp_us = of_nat now,
           hd_timestamp_difference_us = timestamp_difference us, hd_wnd_size = 1048576,
           hd_seq_nr = seq, hd_ack_nr = us_ack_nr us, hd_extensions = extensions\<rparr>
     in case udp_send (utp_encode header @ payload) us of
          (Inl e, us) \<Rightarrow> (Inl e, us)
        | (Inr _, us) \<Rightarrow>
            let m = us_metrics us;
                m = m\<lparr>packets_sent := packets_sent m + 1\<rparr>;
                m = (if packet_type = UtpData then m\<lparr>bytes_sent := bytes_sent m + length payload\<rparr> else m);
                m = (if \<exists>e\<in>set extensions. extension_type e = UTP_EXT_SACK
                     then m\<lparr>sack_packets_sent := sack_packets_sent m + 1\<rparr> else m);
                sent = us_sent_packets us;
                sent = (if packet_type = UtpData then
                    let sent = sent @ [\<lparr>sp_seq = seq, sp_timestamp = now, sp_payload = payload, sp_sacked = False,
                          sp_retransmit_count = 0, sp_last_sent_time = now\<rparr>]
                    in if 256 < length sent then tl sent else sent
                  else sent)
            in (Inr (), us\<lparr>us_metrics := m, us_sent_packets := sent, us_seq_nr := seq + 1\<rparr>))"

definition send_packet :: "nat \<Rightarrow> UtpPacketType \<Rightarrow> bytes \<Rightarrow> UtpSocketAdapter \<Rightarrow> unit result \<times> UtpSocketAdapter" where
  "send_packet now packet_type payload us = send_packet_with_extensions now packet_type payload [] us"

text \<open>
  \<open>connect\<close>, after the UDP socket has been bound and connected, and \<open>write\<close>. The waiting loop of \<open>write\<close>
  changes nothing; it ends at \<open>sent_at\<close>, when the window has opened or half a second has passed.
\<close>

definition utp_connect :: "nat \<Rightarrow> u16 \<Rightarrow> UtpSocketAdapter result" where
  "utp_connect now connection_id = (case send_packet now UtpSyn [] (from_raw_socket connection_id) of
     (Inl e, _) \<Rightarrow> Inl e | (Inr _, us) \<Rightarrow> Inr us)"

definition set_max_out_of_order_packets :: "nat \<Rightarrow> UtpSocketAdapter \<Rightarrow> UtpSocketAdapter" where
  "set_max_out_of_order_packets m us = us\<lparr>us_max_out_of_order_packets := m\<rparr>"

definition set_seq_nr :: "u16 \<Rightarrow> UtpSocketAdapter \<Rightarrow> UtpSocketAdapter" where
  "set_seq_nr seq us = us\<lparr>us_seq_nr := seq\<rparr>"

definition record_sent_packet :: "nat \<Rightarrow> u16 \<Rightarrow> bytes \<Rightarrow> UtpSocketAdapter \<Rightarrow> UtpSocketAdapter" where
  "record_sent_packet now seq payload us = us\<lparr>us_sent_packets := us_sent_packets us @
     [\<lparr>sp_seq = seq, sp_timestamp = now, sp_payload = payload, sp_sacked = False, sp_retransmit_count = 0,
       sp_last_sent_time = now\<rparr>]\<rparr>"

definition bytes_in_flight :: "UtpSocketAdapter \<Rightarrow> u32" where
  "bytes_in_flight us = sum_list (map (\<lambda>p. of_nat (length (sp_payload p))) (filter (\<lambda>p. \<not> sp_sacked p) (us_sent_packets us)))"

definition utp_write :: "nat \<Rightarrow> nat \<Rightarrow> bytes \<Rightarrow> UtpSocketAdapter \<Rightarrow> nat result \<times> UtpSocketAdapter" where
  "utp_write now sent_at buf us =
    (if us_closed us then (Inl (Io OtherKind ''Socket closed''), us)
     else case send_packet sent_at UtpData buf (check_timeouts now us) of
       (Inl e, us) \<Rightarrow> (Inl e, us) | (Inr _, us) \<Rightarrow> (Inr (length buf), us))"

definition utp_close :: "nat \<Rightarrow> UtpSocketAdapter \<Rightarrow> UtpSocketAdapter" where
  "utp_close now us = (if us_closed us then us else snd (send_packet now UtpReset [] (us\<lparr>us_closed := True\<rparr>)))"

section \<open>Acknowledgements\<close>

definition u32_saturating_add :: "u32 \<Rightarrow> u32 \<Rightarrow> u32" where
  "u32_saturating_add a b = of_nat (saturating_add U32_MAX (unat a) (unat b))"

text \<open>
  One pass over the packets in flight: what the header acknowledges leaves the queue, what it
  acknowledges selectively is marked. The result holds the bytes that were acknowledged, the
  highest packet that was marked, the remaining queue and the controller with its round trip samples.
\<close>

fun ack_packets :: "nat \<Rightarrow> UtpHeader \<Rightarrow> SentPacket list \<Rightarrow> u32 \<Rightarrow> u16 option \<Rightarrow> LedbatCongestionController \<Rightarrow>
    u32 \<times> u16 option \<times> SentPacket list \<times> LedbatCongestionController" where
  "ack_packets now h [] acked highest c = (acked, highest, [], c)"
| "ack_packets now h (pkt # pkts) acked highest c =
    (let len = of_nat (length (sp_payload pkt)) in
     if seq_acked (sp_seq pkt) (hd_ack_nr h) then
       (if \<not> sp_sacked pkt
        then ack_packets now h pkts (u32_saturating_add acked len) highest
          (if sp_retransmit_count pkt = 0 then update_rtt (of_nat (now - sp_timestamp pkt)) c else c)
        else ack_packets now h pkts acked highest c)
     else
       let hit = (case sack_bitmask h of None \<Rightarrow> False
             | Some msk \<Rightarrow> is_seq_sacked (hd_ack_nr h) msk (sp_seq pkt) \<and> \<not> sp_sacked pkt);
           pkt = (if hit then pkt\<lparr>sp_sacked := True\<rparr> else pkt);
           acked = (if hit then u32_saturating_add acked len else acked);
           highest = (if hit then Some (case highest of None \<Rightarrow> sp_seq pkt
             | Some m \<Rightarrow> if seq_acked m (sp_seq pkt) then sp_seq pkt else m) else highest);
           (a, hi, unacked, c) = ack_packets now h pkts acked highest c
       in (a, hi, pkt # unacked, c))"

text \<open>A packet is lost when at least three marked packets are ahead of it and it was not resent just now.\<close>

definition is_lost :: "nat \<Rightarrow> u16 \<Rightarrow> u16 list \<Rightarrow> SentPacket \<Rightarrow> bool" where
  "is_lost now highest_sacked sacked_seqs pkt \<longleftrightarrow>
    \<not> sp_sacked pkt \<and> seq_acked (sp_seq pkt) highest_sacked \<and> sp_seq pkt \<noteq> highest_sacked
    \<and> 3 \<le> length (filter (\<lambda>s. seq_acked (sp_seq pkt) s \<and> s \<noteq> sp_seq pkt) sacked_seqs)
    \<and> 15000 \<le> now - sp_last_sent_time pkt"

definition detect_losses :: "nat \<Rightarrow> u16 option \<Rightarrow> SentPacket list \<Rightarrow> (u16 \<times> bytes) list \<times> SentPacket list" where
  "detect_losses now highest unacked = (case highest of None \<Rightarrow> ([], unacked)
     | Some hs \<Rightarrow>
         let sacked_seqs = map sp_seq (filter sp_sacked unacked);
             lost = is_lost now hs sacked_seqs
         in (map (\<lambda>p. (sp_seq p, sp_payload p)) (filter lost unacked),
             map (\<lambda>p. if lost p then p\<lparr>sp_last_sent_time := now, sp_retransmit_count := sp_retransmit_count p + 1\<rparr> else p) unacked))"

definition fast_retransmit :: "nat \<Rightarrow> (u16 \<times> bytes) list \<Rightarrow> UtpSocketAdapter \<Rightarrow> UtpSocketAdapter" where
  "fast_retransmit now lost us =
    (if lost = [] then us
     else
       let is_burst = 2 \<le> length lost;
           (new, c) = enter_recovery (us_seq_nr us) is_burst (us_controller us);
           m = us_metrics us;
           m = (if new then m\<lparr>loss_recovery_events := loss_recovery_events m + 1,
                 burst_loss_events := burst_loss_events m + (if is_burst then 1 else 0)\<rparr> else m)
       in foldl (\<lambda>us (seq, payload).
            let us = snd (retransmit_data_packet now seq payload us)
            in us\<lparr>us_metrics := (us_metrics us)\<lparr>retransmits_fast := retransmits_fast (us_metrics us) + 1\<rparr>\<rparr>)
          (us\<lparr>us_controller := c, us_metrics := m\<rparr>) lost)"

definition process_acks :: "nat \<Rightarrow> UtpHeader \<Rightarrow> UtpSocketAdapter \<Rightarrow> UtpSocketAdapter" where
  "process_acks now h us =
    (let us = (if 0 < hd_timestamp_us h
           then us\<lparr>us_last_remote_timestamp_us := hd_timestamp_us h, us_last_remote_recv_us := of_nat now\<rparr> else us);
         us = (if sack_bitmask h \<noteq> None
           then us\<lparr>us_metrics := (us_metrics us)\<lparr>sack_packets_recv := sack_packets_recv (us_metrics us) + 1\<rparr>\<rparr> else us);
         (acked, highest, unacked, c) = ack_packets now h (us_sent_packets us) 0 None (us_controller us);
         (lost, unacked) = detect_losses now highest unacked;
         (dup, c) = handle_ack (hd_ack_nr h) acked (hd_timestamp_difference_us h) (of_nat now) (set_remote_window (hd_wnd_size h) c);
         m = us_metrics us;
         m = (if dup then m\<lparr>duplicate_acks_count := duplicate_acks_count m + 3\<rparr> else m)
     in fast_retransmit now lost (us\<lparr>us_sent_packets := unacked, us_controller := c, us_metrics := m\<rparr>))"

section \<open>Receiving\<close>

function stitch :: "u16 \<Rightarrow> bytes \<Rightarrow> (u16 \<times> bytes) list \<Rightarrow> u16 \<times> bytes \<times> (u16 \<times> bytes) list" where
  "stitch ack recv ooo = (case map_of ooo (ack + 1) of
     None \<Rightarrow> (ack, recv, ooo)
   | Some next_p \<Rightarrow> stitch (ack + 1) (recv @ next_p) (bt_remove (ack + 1) ooo))"
  by auto

lemma bt_remove_shorter: "map_of m k = Some v \<Longrightarrow> length (bt_remove k m) < length m"
  unfolding bt_remove_def by (induction m) (auto simp: less_Suc_eq_le split: if_splits)

termination stitch
  by (relation "measure (\<lambda>(ack, recv, ooo). length ooo)") (simp_all add: bt_remove_shorter)

declare stitch.simps [simp del]

definition receive_data :: "u16 \<Rightarrow> bytes \<Rightarrow> UtpSocketAdapter \<Rightarrow> UtpSocketAdapter" where
  "receive_data seq payload us =
    (let m = us_metrics us;
         m = m\<lparr>bytes_recv := bytes_recv m + length payload\<rparr>;
         us = us\<lparr>us_metrics := m\<rparr>;
         current_ack = us_ack_nr us
     in if current_ack = 0 then us\<lparr>us_ack_nr := seq, us_recv_buffer := us_recv_buffer us @ payload\<rparr>
        else if seq = current_ack + 1 then
          let (ack, recv, ooo) = stitch seq (us_recv_buffer us @ payload) (us_out_of_order_received us)
          in us\<lparr>us_ack_nr := ack, us_recv_buffer := recv, us_out_of_order_received := ooo,
                us_metrics := m\<lparr>out_of_order_buffered := length ooo\<rparr>\<rparr>
        else if \<not> seq_acked seq current_ack then
          let ooo = us_out_of_order_received us; distance = seq - current_ack in
          if distance < 32768 \<and> length ooo < us_max_out_of_order_packets us then
            let ooo = bt_insert seq payload ooo
            in us\<lparr>us_out_of_order_received := ooo,
                  us_metrics := m\<lparr>out_of_order_buffered := length ooo,
                    max_out_of_order_depth := max (max_out_of_order_depth m) (length ooo)\<rparr>\<rparr>
          else us
        else us)"

definition send_ack :: "nat \<Rightarrow> UtpSocketAdapter \<Rightarrow> UtpSocketAdapter" where
  "send_ack now us =
    (let ooo_keys = map fst (us_out_of_order_received us) in
     if ooo_keys \<noteq> [] then
       let sack_mask = build_sack_bitmask (us_ack_nr us) ooo_keys in
       if sack_mask \<noteq> [] then snd (send_packet_with_extensions now UtpState [] [SelectiveAck sack_mask] us)
       else snd (send_packet now UtpState [] us)
     else snd (send_packet now UtpState [] us))"

text \<open>What one datagram does; \<open>Some\<close> is what \<open>read\<close> returns at once.\<close>

definition drain_buffer :: "nat \<Rightarrow> UtpSocketAdapter \<Rightarrow> bytes option \<times> UtpSocketAdapter" where
  "drain_buffer n us =
    (if us_recv_buffer us = [] then (None, us)
     else (Some (take n (us_recv_buffer us)), us\<lparr>us_recv_buffer := drop n (us_recv_buffer us)\<rparr>))"

definition handle_datagram :: "nat \<Rightarrow> nat \<Rightarrow> bytes \<Rightarrow> UtpSocketAdapter \<Rightarrow> bytes option \<times> UtpSocketAdapter" where
  "handle_datagram n now datagram us =
    (let packet = take 2048 datagram in
     if length packet < 20 then (None, us)
     else
       let us = us\<lparr>us_metrics := (us_metrics us)\<lparr>packets_recv := packets_recv (us_metrics us) + 1\<rparr>\<rparr> in
       case utp_decode packet of
         Inl _ \<Rightarrow> (None, us)
       | Inr h \<Rightarrow>
           let us = process_acks now h us in
           if hd_packet_type h = UtpReset then (Some [], us)
           else if hd_packet_type h = UtpData then
             let payload = drop (total_header_len h) packet
             in drain_buffer n (send_ack now (receive_data (hd_seq_nr h) payload us))
           else (None, us))"

datatype UdpEvent = Datagram bytes | RecvTimeout | RecvConnReset | RecvError BitTorrentError

text \<open>The loop of \<open>read\<close>. Every round takes one event of the socket; \<open>None\<close> is a read that still waits.\<close>

fun utp_read_loop :: "nat \<Rightarrow> (nat \<times> UdpEvent) list \<Rightarrow> UtpSocketAdapter \<Rightarrow>
    bytes result option \<times> (nat \<times> UdpEvent) list \<times> UtpSocketAdapter" where
  "utp_read_loop n es us =
    (if us_closed us then (Some (Inr []), es, us)
     else case es of
       [] \<Rightarrow> (None, [], us)
     | (now, Datagram d) # es' \<Rightarrow>
         (case handle_datagram n now d us of
            (Some out, us) \<Rightarrow> (Some (Inr out), es', us)
          | (None, us) \<Rightarrow> utp_read_loop n es' us)
     | (now, RecvTimeout) # es' \<Rightarrow> utp_read_loop n es' (check_timeouts now us)
     | (now, RecvConnReset) # es' \<Rightarrow> utp_read_loop n es' us
     | (now, RecvError e) # es' \<Rightarrow> (Some (Inl e), es', us))"

declare utp_read_loop.simps [simp del]

definition utp_read :: "nat \<Rightarrow> (nat \<times> UdpEvent) list \<Rightarrow> UtpSocketAdapter \<Rightarrow>
    bytes result option \<times> (nat \<times> UdpEvent) list \<times> UtpSocketAdapter" where
  "utp_read n es us =
    (if us_closed us then (Some (Inr []), es, us)
     else case drain_buffer n us of
       (Some out, us) \<Rightarrow> (Some (Inr out), es, us)
     | (None, us) \<Rightarrow> utp_read_loop n es us)"

section \<open>The receiving half is independent of the sending half\<close>

definition rx :: "UtpSocketAdapter \<Rightarrow> u16 \<times> bytes \<times> (u16 \<times> bytes) list \<times> nat \<times> bool" where
  "rx us = (us_ack_nr us, us_recv_buffer us, us_out_of_order_received us, us_max_out_of_order_packets us, us_closed us)"

lemma rx_retransmit [simp]: "rx (snd (retransmit_data_packet now seq p us)) = rx us"
  by (simp add: rx_def retransmit_data_packet_def udp_send_def Let_def split: option.split)

lemma rx_send [simp]: "rx (snd (send_packet_with_extensions now t p es us)) = rx us"
  by (simp add: rx_def send_packet_with_extensions_def udp_send_def Let_def split: option.split)

lemma rx_update [simp]:
  "rx (us\<lparr>us_metrics := m\<rparr>) = rx us" "rx (us\<lparr>us_controller := c\<rparr>) = rx us" "rx (us\<lparr>us_sent_packets := ps\<rparr>) = rx us"
  "rx (us\<lparr>us_last_remote_timestamp_us := t\<rparr>) = rx us" "rx (us\<lparr>us_last_remote_recv_us := t\<rparr>) = rx us"
  by (simp_all add: rx_def)

lemma rx_send_packet [simp]: "rx (snd (send_packet now t p us)) = rx us"
  by (simp add: send_packet_def)

lemma rx_check_timeouts [simp]: "rx (check_timeouts now us) = rx us"
  by (simp add: check_timeouts_def Let_def split: prod.split option.split)

lemma rx_send_ack [simp]: "rx (send_ack now us) = rx us"
  by (simp add: send_ack_def Let_def)

lemma rx_fast_retransmit [simp]: "rx (fast_retransmit now lost us) = rx us"
proof -
  have "rx (foldl (\<lambda>us (seq, payload).
      let us = snd (retransmit_data_packet now seq payload us)
      in us\<lparr>us_metrics := (us_metrics us)\<lparr>retransmits_fast := retransmits_fast (us_metrics us) + 1\<rparr>\<rparr>) us lost) = rx us" for us
    by (induction lost arbitrary: us) (simp_all add: Let_def case_prod_beta)
  then show ?thesis by (simp add: fast_retransmit_def Let_def split: prod.split)
qed

lemma rx_process_acks [simp]: "rx (process_acks now h us) = rx us"
  by (simp add: process_acks_def Let_def split: prod.split)

section \<open>Packets are delivered in order\<close>

text \<open>The buffered packets from number \<open>j\<close> on.\<close>

definition later :: "u16 \<Rightarrow> bytes list \<Rightarrow> nat \<Rightarrow> (u16 \<times> bytes) list \<Rightarrow> bool" where
  "later s ps j ooo \<longleftrightarrow> (\<forall>(k, v)\<in>set ooo. \<exists>i\<ge>j. i < length ps \<and> k = s + of_nat i \<and> v = ps ! i)"

text \<open>
  A stream of packets \<open>ps\<close>, numbered from \<open>s\<close>; \<open>rx_inv\<close> says that the first \<open>j\<close> of them have been
  taken over, that what has been read and what waits to be read is their data, and that the
  buffered packets are later ones.
\<close>

definition rx_inv :: "u16 \<Rightarrow> bytes list \<Rightarrow> nat \<Rightarrow> bytes \<Rightarrow> UtpSocketAdapter \<Rightarrow> bool" where
  "rx_inv s ps j out us \<longleftrightarrow> 0 < j \<and> j \<le> length ps \<and> \<not> us_closed us
    \<and> us_ack_nr us = s + of_nat (j - 1) \<and> out @ us_recv_buffer us = concat (take j ps)
    \<and> bt_wf (us_out_of_order_received us)
    \<and> later s ps (Suc j) (us_out_of_order_received us)"

lemma rx_invD:
  assumes "rx us = rx us'"
  shows "rx_inv s ps j out us \<longleftrightarrow> rx_inv s ps j out us'"
  using assms by (simp add: rx_def rx_inv_def)

lemma seq_inj:
  assumes "i < 65536" and "j < 65536"
  shows "(s :: u16) + of_nat i = s + of_nat j \<longleftrightarrow> i = j"
proof -
  have "(of_nat i :: u16) = of_nat j \<longleftrightarrow> i = j"
    using unat_of_nat_u16 [OF assms(1)] unat_of_nat_u16 [OF assms(2)] by metis
  then show ?thesis by simp
qed

lemma stitch_next:
  assumes "0 < j"
  shows "stitch (s + of_nat (j - 1)) recv ooo = (case map_of ooo (s + of_nat j) of
     None \<Rightarrow> (s + of_nat (j - 1), recv, ooo)
   | Some p \<Rightarrow> stitch (s + of_nat j) (recv @ p) (bt_remove (s + of_nat j) ooo))"
proof -
  have "s + of_nat (j - 1) + 1 = s + of_nat j" using assms by (cases j) (simp_all add: ac_simps)
  then show ?thesis by (subst stitch.simps) (simp only:)
qed

lemma later_other:
  assumes "later s ps j ooo" and sub: "\<And>k v. (k, v) \<in> set ooo' \<Longrightarrow> (k, v) \<in> set ooo \<and> k \<noteq> s + of_nat j"
  shows "later s ps (Suc j) ooo'"
proof -
  have "\<exists>i\<ge>Suc j. i < length ps \<and> k = s + of_nat i \<and> v = ps ! i" if "(k, v) \<in> set ooo'" for k v
  proof -
    have m: "(k, v) \<in> set ooo" and ne: "k \<noteq> s + of_nat j" using sub [OF that] by simp_all
    obtain i where i: "j \<le> i" "i < length ps" "k = s + of_nat i" "v = ps ! i"
      using bspec [OF assms(1) [unfolded later_def] m] by auto
    with ne have "i \<noteq> j" by auto
    with i show ?thesis by (intro exI [of _ i]) simp
  qed
  then show ?thesis unfolding later_def by auto
qed

lemma later_remove: "later s ps j ooo \<Longrightarrow> later s ps (Suc j) (bt_remove (s + of_nat j) ooo)"
  by (erule later_other) (simp add: bt_remove_def)

lemma later_absent: "later s ps j ooo \<Longrightarrow> map_of ooo (s + of_nat j) = None \<Longrightarrow> later s ps (Suc j) ooo"
  by (erule later_other) (auto simp: map_of_eq_None_iff image_iff)

lemma stitch_inv:
  assumes "length ps \<le> 32768" and "0 < j" "j \<le> length ps" and "out @ recv = concat (take j ps)" and "bt_wf ooo"
    and "later s ps j ooo" and "stitch (s + of_nat (j - 1)) recv ooo = (ack', recv', ooo')"
  shows "\<exists>j'\<ge>j. j' \<le> length ps \<and> ack' = s + of_nat (j' - 1) \<and> out @ recv' = concat (take j' ps) \<and> bt_wf ooo'
    \<and> later s ps (Suc j') ooo' \<and> (\<forall>i<length ps. s + of_nat i \<in> fst ` set ooo \<longrightarrow> i < j' \<or> s + of_nat i \<in> fst ` set ooo')"
  using assms(2-)
proof (induction ooo arbitrary: j recv rule: measure_induct_rule [of length])
  case (less ooo)
  show ?case
  proof (cases "map_of ooo (s + of_nat j)")
    case None
    then have r: "ack' = s + of_nat (j - 1)" "recv' = recv" "ooo' = ooo"
      using less.prems(6) unfolding stitch_next [OF less.prems(1)] by simp_all
    then show ?thesis using less.prems later_absent [OF less.prems(5) None] by (intro exI [of _ j]) auto
  next
    case (Some p)
    have mem: "(s + of_nat j, p) \<in> set ooo" using Some less.prems(4) by (simp add: map_of_bt)
    then obtain i where i: "j \<le> i" "i < length ps" "s + of_nat j = s + of_nat i" "p = ps ! i"
      using less.prems(5) by (auto simp: later_def)
    then have "i = j" using seq_inj [of i j s] assms(1) by simp
    then have p: "p = ps ! j" and lt: "j < length ps" using i by simp_all
    let ?ooo = "bt_remove (s + of_nat j) ooo"
    have rest: "stitch (s + of_nat (Suc j - 1)) (recv @ p) ?ooo = (ack', recv', ooo')"
      using less.prems(6) Some unfolding stitch_next [OF less.prems(1)] by simp
    have data: "out @ recv @ p = concat (take (Suc j) ps)"
      using less.prems(3) p lt by (simp add: take_Suc_conv_app_nth flip: append_assoc)
    from less.IH [OF bt_remove_shorter [OF Some] _ _ data bt_remove_wf [OF less.prems(4)] later_remove [OF less.prems(5)] rest]
    obtain j' where j': "j' \<ge> Suc j" "j' \<le> length ps" "ack' = s + of_nat (j' - 1)" "out @ recv' = concat (take j' ps)" "bt_wf ooo'"
      "later s ps (Suc j') ooo'" "\<forall>i<length ps. s + of_nat i \<in> fst ` set ?ooo \<longrightarrow> i < j' \<or> s + of_nat i \<in> fst ` set ooo'"
      using lt by auto
    have "i < j' \<or> s + of_nat i \<in> fst ` set ooo'" if "s + of_nat i \<in> fst ` set ooo" "i < length ps" for i
    proof (cases "i = j")
      case False
      then have "s + of_nat i \<noteq> s + of_nat j" using seq_inj [of i j s] that(2) lt assms(1) by simp
      then have "s + of_nat i \<in> fst ` set ?ooo" using that(1) by (auto simp: bt_remove_def)
      then show ?thesis using j'(7) that(2) by blast
    qed (use j'(1) in simp)
    then show ?thesis using j' by (intro exI [of _ j']) auto
  qed
qed

lemma seq_distance:
  assumes "i < 65536" and "j \<le> i" and "i - j < 32768"
  shows "(s :: u16) + of_nat i - (s + of_nat j) < 32768" and "\<not> i = j \<Longrightarrow> \<not> seq_acked (s + of_nat i) (s + of_nat j)"
proof -
  have d: "s + of_nat i - (s + of_nat j) = of_nat (i - j)" using assms by (simp add: of_nat_diff)
  have u: "unat (of_nat (i - j) :: u16) = i - j" using assms by (intro unat_of_nat_u16) simp
  show "s + of_nat i - (s + of_nat j) < 32768" unfolding d using u assms by (simp add: word_less_nat_alt)
  assume "i \<noteq> j"
  have "s + of_nat j - (s + of_nat i) = 0 - of_nat (i - j)" using assms by (simp add: of_nat_diff)
  moreover have "unat (0 - (of_nat (i - j) :: u16)) = 65536 - (i - j)"
    using u assms \<open>i \<noteq> j\<close> by (simp only: unat_sub_if') simp
  ultimately show "\<not> seq_acked (s + of_nat i) (s + of_nat j)"
    using assms by (simp add: seq_acked_def word_less_nat_alt)
qed

lemma seq_behind:
  assumes "i \<le> j" and "j - i < 32768"
  shows "seq_acked ((s :: u16) + of_nat i) (s + of_nat j)"
proof -
  have "s + of_nat j - (s + of_nat i) = of_nat (j - i)" using assms by (simp add: of_nat_diff)
  then show ?thesis using unat_of_nat_u16 [of "j - i"] assms by (simp add: seq_acked_def word_less_nat_alt)
qed

text \<open>
  What a packet of the stream does to the receiver: nothing for a packet that was taken over,
  progress for the next one, buffering for a later one.
\<close>

lemma receive_old:
  "us_ack_nr us \<noteq> 0 \<Longrightarrow> seq \<noteq> us_ack_nr us + 1 \<Longrightarrow> seq_acked seq (us_ack_nr us) \<Longrightarrow> rx (receive_data seq p us) = rx us"
  by (simp add: receive_data_def Let_def)

lemma receive_next:
  "us_ack_nr us \<noteq> 0 \<Longrightarrow> seq = us_ack_nr us + 1 \<Longrightarrow> stitch seq (us_recv_buffer us @ p) (us_out_of_order_received us) = (a, r, m)
    \<Longrightarrow> rx (receive_data seq p us) = (a, r, m, us_max_out_of_order_packets us, us_closed us)"
  by (simp add: receive_data_def Let_def rx_def)

lemma receive_ahead:
  "us_ack_nr us \<noteq> 0 \<Longrightarrow> seq \<noteq> us_ack_nr us + 1 \<Longrightarrow> \<not> seq_acked seq (us_ack_nr us) \<Longrightarrow> seq - us_ack_nr us < 32768
    \<Longrightarrow> rx (receive_data seq p us) = (if length (us_out_of_order_received us) < us_max_out_of_order_packets us
      then (us_ack_nr us, us_recv_buffer us, bt_insert seq p (us_out_of_order_received us), us_max_out_of_order_packets us, us_closed us)
      else rx us)"
  by (simp add: receive_data_def Let_def rx_def)

lemma later_buffered:
  assumes "bt_wf ooo" and "later s ps (Suc j) ooo" and "j < i" and "i < length ps"
  shows "later s ps (Suc j) (bt_insert (s + of_nat i) (ps ! i) ooo)"
    and "fst ` set (bt_insert (s + of_nat i) (ps ! i) ooo) = insert (s + of_nat i) (fst ` set ooo)"
proof -
  have set: "set (bt_insert (s + of_nat i) (ps ! i) ooo) = insert (s + of_nat i, ps ! i) {e \<in> set ooo. fst e \<noteq> s + of_nat i}"
    using assms(1) by (rule set_bt_insert)
  have "\<exists>ia\<ge>Suc j. ia < length ps \<and> s + of_nat i = s + of_nat ia \<and> ps ! i = ps ! ia"
    using assms(3,4) by (intro exI [of _ i]) simp
  then show "later s ps (Suc j) (bt_insert (s + of_nat i) (ps ! i) ooo)" using assms(2) unfolding later_def set by blast
  show "fst ` set (bt_insert (s + of_nat i) (ps ! i) ooo) = insert (s + of_nat i) (fst ` set ooo)" unfolding set by auto
qed

lemma receive_inv_next:
  assumes small: "length ps \<le> 32768" and inv: "rx_inv s ps j out us" and "j < length ps"
    and nxt: "us_ack_nr us \<noteq> 0" "s + of_nat j = us_ack_nr us + 1"
    and us': "us' = receive_data (s + of_nat j) (ps ! j) us"
  shows "\<exists>j'>j. rx_inv s ps j' out us' \<and> (\<forall>k<length ps. s + of_nat k \<in> fst ` set (us_out_of_order_received us) \<longrightarrow>
      k < j' \<or> s + of_nat k \<in> fst ` set (us_out_of_order_received us'))"
proof -
  let ?ooo = "us_out_of_order_received us"
  note I = inv [unfolded rx_inv_def]
  obtain a r m where st: "stitch (s + of_nat (Suc j - 1)) (us_recv_buffer us @ ps ! j) ?ooo = (a, r, m)"
    by (cases "stitch (s + of_nat (Suc j - 1)) (us_recv_buffer us @ ps ! j) ?ooo")
  have data: "out @ us_recv_buffer us @ ps ! j = concat (take (Suc j) ps)"
    using I assms(3) by (simp add: take_Suc_conv_app_nth flip: append_assoc)
  from stitch_inv [OF small _ Suc_leI [OF assms(3)] data _ _ st] I
  obtain j' where j': "j' \<ge> Suc j" "j' \<le> length ps" "a = s + of_nat (j' - 1)" "out @ r = concat (take j' ps)" "bt_wf m"
    "later s ps (Suc j') m" "\<forall>i<length ps. s + of_nat i \<in> fst ` set ?ooo \<longrightarrow> i < j' \<or> s + of_nat i \<in> fst ` set m"
    by auto
  have r: "rx us' = (a, r, m, us_max_out_of_order_packets us, us_closed us)"
    unfolding us' by (rule receive_next) (use st nxt in \<open>simp_all only: diff_Suc_1 not_False_eq_True\<close>)
  then have "rx_inv s ps j' out us'" using j' I by (simp add: rx_inv_def rx_def)
  moreover have "us_out_of_order_received us' = m" using r by (simp add: rx_def)
  ultimately show ?thesis using j' by (intro exI [of _ j']) auto
qed

lemma receive_inv:
  assumes small: "length ps \<le> 32768" and inv: "rx_inv s ps j out us" and i: "i < length ps"
    and nz: "\<forall>i<length ps. s + of_nat i \<noteq> 0"
    and us': "us' = receive_data (s + of_nat i) (ps ! i) us"
  shows "\<exists>j'\<ge>j. rx_inv s ps j' out us' \<and> (\<forall>k<length ps. k < j \<or> s + of_nat k \<in> fst ` set (us_out_of_order_received us)
        \<or> k = i \<and> length (us_out_of_order_received us) < us_max_out_of_order_packets us \<longrightarrow>
      k < j' \<or> s + of_nat k \<in> fst ` set (us_out_of_order_received us'))"
proof -
  let ?ack = "s + of_nat (j - 1)" and ?ooo = "us_out_of_order_received us"
  note I = inv [unfolded rx_inv_def]
  have "j - 1 < length ps" using I by auto
  then have ack: "us_ack_nr us = ?ack" "?ack \<noteq> 0" using I nz by blast+
  have nxt: "?ack + 1 = s + of_nat j" using I by (cases j) simp_all
  have is_next: "s + of_nat i = ?ack + 1 \<longleftrightarrow> i = j" unfolding nxt using I i small by (intro seq_inj) auto
  consider (old) "i < j" | (now) "i = j" | (ahead) "j < i" by linarith
  then show ?thesis
  proof cases
    case old
    then have "seq_acked (s + of_nat i) (us_ack_nr us)" unfolding ack(1) using I small by (intro seq_behind) auto
    moreover have "us_ack_nr us \<noteq> 0" "s + of_nat i \<noteq> us_ack_nr us + 1" unfolding ack(1) using is_next old ack(2) by blast+
    ultimately have "rx us' = rx us" unfolding us' by (intro receive_old)
    then have "rx_inv s ps j out us'" "us_out_of_order_received us' = ?ooo"
      using inv rx_invD [of us' us s ps j out] by (simp_all only: rx_def prod.inject)
    then show ?thesis using old by (intro exI [of _ j]) auto
  next
    case now
    have "us_ack_nr us \<noteq> 0" "s + of_nat j = us_ack_nr us + 1" unfolding ack(1) using ack(2) nxt by (blast, simp only: nxt)
    from receive_inv_next [OF small inv i [unfolded now] this us' [unfolded now]] obtain j' where
      "j < j'" "rx_inv s ps j' out us'" "\<forall>k<length ps. s + of_nat k \<in> fst ` set ?ooo \<longrightarrow>
        k < j' \<or> s + of_nat k \<in> fst ` set (us_out_of_order_received us')" by blast
    then show ?thesis using now by (intro exI [of _ j']) auto
  next
    case ahead
    have "s + of_nat i - ?ack < 32768" "\<not> seq_acked (s + of_nat i) ?ack"
      by (rule seq_distance; use ahead i small in linarith)+
    then have step: "rx us' = (if length ?ooo < us_max_out_of_order_packets us
        then (us_ack_nr us, us_recv_buffer us, bt_insert (s + of_nat i) (ps ! i) ?ooo, us_max_out_of_order_packets us, us_closed us)
        else rx us)"
      unfolding us' ack(1) [symmetric] by (intro receive_ahead) (use is_next ahead ack in auto)
    show ?thesis
    proof (cases "length ?ooo < us_max_out_of_order_packets us")
      case True
      let ?m = "bt_insert (s + of_nat i) (ps ! i) ?ooo"
      have r: "rx us' = (?ack, us_recv_buffer us, ?m, us_max_out_of_order_packets us, us_closed us)"
        using True step ack(1) by simp
      have buf: "later s ps (Suc j) ?m" "fst ` set ?m = insert (s + of_nat i) (fst ` set ?ooo)"
        using later_buffered [OF _ _ ahead i] I by blast+
      then have "rx_inv s ps j out us'" using r I by (simp add: rx_inv_def rx_def bt_insert_wf)
      moreover have "us_out_of_order_received us' = ?m" using r by (simp add: rx_def)
      ultimately show ?thesis using buf(2) by (intro exI [of _ j]) auto
    next
      case False
      then have "rx us' = rx us" using step by simp
      then have "rx_inv s ps j out us'" "us_out_of_order_received us' = ?ooo"
        using inv rx_invD [of us' us s ps j out] by (simp_all only: rx_def prod.inject)
      then show ?thesis using False by (intro exI [of _ j]) auto
    qed
  qed
qed

text \<open>
  A datagram that carries packet \<open>i\<close> of the stream: a data packet with its number, any other header
  fields, and no longer than the receiver's buffer. The network may deliver such datagrams in any
  order and any number of times, with timeouts and connection resets in between.
\<close>

definition data_datagram :: "u16 \<Rightarrow> bytes \<Rightarrow> bytes \<Rightarrow> bool" where
  "data_datagram seq payload d \<longleftrightarrow> (\<exists>h. d = utp_encode h @ payload \<and> valid_header h \<and> hd_packet_type h = UtpData
     \<and> hd_seq_nr h = seq \<and> length d \<le> 2048)"

definition carries :: "u16 \<Rightarrow> bytes list \<Rightarrow> nat \<times> UdpEvent \<Rightarrow> nat \<Rightarrow> bool" where
  "carries s ps e i \<longleftrightarrow> i < length ps \<and> (\<exists>now d. e = (now, Datagram d) \<and> data_datagram (s + of_nat i) (ps ! i) d)"

definition network_event :: "u16 \<Rightarrow> bytes list \<Rightarrow> nat \<times> UdpEvent \<Rightarrow> bool" where
  "network_event s ps e \<longleftrightarrow> snd e = RecvTimeout \<or> snd e = RecvConnReset \<or> (\<exists>i. carries s ps e i)"

lemma handle_carried:
  assumes "valid_header h" and "hd_packet_type h = UtpData" and "length (utp_encode h @ p) \<le> 2048"
  shows "\<exists>us1 us2. handle_datagram n now (utp_encode h @ p) us = drain_buffer n us2
    \<and> rx us1 = rx us \<and> rx us2 = rx (receive_data (hd_seq_nr h) p us1)"
proof -
  let ?us = "us\<lparr>us_metrics := (us_metrics us)\<lparr>packets_recv := packets_recv (us_metrics us) + 1\<rparr>\<rparr>"
  let ?us1 = "process_acks now h ?us"
  have "\<not> length (utp_encode h @ p) < 20" by (simp add: length_utp_encode total_header_len_def)
  moreover have "drop (total_header_len h) (utp_encode h @ p) = p" by (simp add: length_utp_encode)
  moreover have "take 2048 (utp_encode h @ p) = utp_encode h @ p" using assms(3) by simp
  ultimately have "handle_datagram n now (utp_encode h @ p) us =
      drain_buffer n (send_ack now (receive_data (hd_seq_nr h) p ?us1))"
    using assms(2) utp_decode_encode [OF assms(1), of p] by (simp only: handle_datagram_def Let_def) simp
  moreover have "rx ?us1 = rx us" by simp
  ultimately show ?thesis
    by (intro exI [of _ ?us1] exI [of _ "send_ack now (receive_data (hd_seq_nr h) p ?us1)"]) simp
qed

definition rx_state :: "u16 \<Rightarrow> bytes list \<Rightarrow> nat set \<Rightarrow> bytes \<Rightarrow> UtpSocketAdapter \<Rightarrow> bool" where
  "rx_state s ps K out us \<longleftrightarrow> us_max_out_of_order_packets us = 512 \<and> (\<exists>j. rx_inv s ps j out us
     \<and> (length ps \<le> 512 \<longrightarrow>
         (\<forall>k\<in>K. k < length ps \<longrightarrow> k < j \<or> s + of_nat k \<in> fst ` set (us_out_of_order_received us))))"

lemma rx_state_rx: "rx us = rx us' \<Longrightarrow> rx_state s ps K out us \<longleftrightarrow> rx_state s ps K out us'"
  unfolding rx_state_def using rx_invD [of us us'] by (simp add: rx_def)

lemma rx_state_sub: "rx_state s ps K out us \<Longrightarrow> L \<subseteq> K \<Longrightarrow> rx_state s ps L out us"
  unfolding rx_state_def by blast

lemma receive_max: "us_max_out_of_order_packets (receive_data seq p us) = us_max_out_of_order_packets us"
  by (simp add: receive_data_def Let_def split: prod.split)

lemma later_length:
  assumes "bt_wf ooo" and "later s ps (Suc j) ooo" and "length ps \<le> 32768"
  shows "length ooo \<le> length ps - Suc j"
proof -
  have "fst ` set ooo \<subseteq> (\<lambda>i. s + of_nat i) ` {Suc j..<length ps}" using assms(2) unfolding later_def by force
  then have "card (fst ` set ooo) \<le> length ps - Suc j"
    by (metis card_atLeastLessThan card_image_le card_mono finite_atLeastLessThan finite_imageI order_trans)
  moreover have "card (fst ` set ooo) = length ooo"
    using distinct_card [OF bt_distinct [OF assms(1)]] by simp
  ultimately show ?thesis by simp
qed

lemma receive_state:
  assumes "length ps \<le> 32768" and "rx_state s ps K out us" and "i < length ps" and "\<forall>i<length ps. s + of_nat i \<noteq> 0"
  shows "rx_state s ps (insert i K) out (receive_data (s + of_nat i) (ps ! i) us)"
proof -
  obtain j where j: "rx_inv s ps j out us" and m: "us_max_out_of_order_packets us = 512" and K: "length ps \<le> 512 \<Longrightarrow>
         \<forall>k\<in>K. k < length ps \<longrightarrow> k < j \<or> s + of_nat k \<in> fst ` set (us_out_of_order_received us)"
    using assms(2) by (auto simp: rx_state_def)
  have cap: "length (us_out_of_order_received us) < us_max_out_of_order_packets us" if "length ps \<le> 512"
    using later_length [of _ s ps j] that assms(1,3) j m by (force simp: rx_inv_def)
  obtain j' where "rx_inv s ps j' out (receive_data (s + of_nat i) (ps ! i) us)"
    and "\<forall>k<length ps. k < j \<or> s + of_nat k \<in> fst ` set (us_out_of_order_received us)
        \<or> k = i \<and> length (us_out_of_order_received us) < us_max_out_of_order_packets us \<longrightarrow>
      k < j' \<or> s + of_nat k \<in> fst ` set (us_out_of_order_received (receive_data (s + of_nat i) (ps ! i) us))"
    using receive_inv [OF assms(1) j assms(3,4) refl] by blast
  then show ?thesis unfolding rx_state_def using K cap by (intro conjI exI [of _ j']) (auto simp: receive_max m)
qed

lemma drain_state:
  assumes "rx_state s ps K out us" and "drain_buffer n us = (r, us')"
  shows "case r of None \<Rightarrow> us' = us \<and> us_recv_buffer us = []
    | Some o' \<Rightarrow> rx_state s ps K (out @ o') us' \<and> (0 < n \<longrightarrow> o' \<noteq> [])"
proof (cases "us_recv_buffer us = []")
  case True
  then show ?thesis using assms(2) by (simp add: drain_buffer_def)
next
  case False
  then have eq: "r = Some (take n (us_recv_buffer us))" "us' = us\<lparr>us_recv_buffer := drop n (us_recv_buffer us)\<rparr>"
    using assms(2) by (simp_all add: drain_buffer_def)
  have "rx_inv s ps j (out @ take n (us_recv_buffer us)) us'" if "rx_inv s ps j out us" for j
    using that by (simp only: eq rx_inv_def) simp
  then have "rx_state s ps K (out @ take n (us_recv_buffer us)) us'"
    using assms(1) unfolding rx_state_def eq(2) by auto
  then show ?thesis using False by (simp add: eq(1))
qed

lemma datagram_state:
  assumes "length ps \<le> 32768" and "\<forall>i<length ps. s + of_nat i \<noteq> 0" and "rx_state s ps K out us"
    and "carries s ps (now, Datagram d) i" and "handle_datagram n now d us = (r, us')"
  shows "case r of None \<Rightarrow> rx_state s ps (insert i K) out us' \<and> us_recv_buffer us' = []
    | Some o' \<Rightarrow> rx_state s ps (insert i K) (out @ o') us' \<and> (0 < n \<longrightarrow> o' \<noteq> [])"
proof -
  obtain h where h: "d = utp_encode h @ ps ! i" "valid_header h" "hd_packet_type h = UtpData" "hd_seq_nr h = s + of_nat i"
      "length (utp_encode h @ ps ! i) \<le> 2048" and i: "i < length ps"
    using assms(4) by (auto simp: carries_def data_datagram_def)
  from handle_carried [OF h(2,3,5), of n now us] obtain us1 us2 where
    u: "handle_datagram n now d us = drain_buffer n us2" "rx us1 = rx us" "rx us2 = rx (receive_data (s + of_nat i) (ps ! i) us1)"
    unfolding h(1,4) by blast
  have "rx_state s ps (insert i K) out us2"
    using receive_state [OF assms(1) _ i assms(2)] rx_state_rx [OF u(2)] rx_state_rx [OF u(3)] assms(3) by blast
  from drain_state [OF this, of n r us'] show ?thesis
    using assms(5) u(1) \<open>rx_state s ps (insert i K) out us2\<close> by (auto split: option.splits)
qed

definition arrivals :: "u16 \<Rightarrow> bytes list \<Rightarrow> (nat \<times> UdpEvent) list \<Rightarrow> nat set" where
  "arrivals s ps es = {i. \<exists>e\<in>set es. carries s ps e i}"

lemma carries_unique:
  assumes "length ps \<le> 32768" and "carries s ps e i" and "carries s ps e k"
  shows "i = k"
proof -
  obtain now d where e: "e = (now, Datagram d)" using assms(2) by (auto simp: carries_def data_datagram_def)
  have "\<exists>h. utp_decode d = Inr h \<and> hd_seq_nr h = s + of_nat i" if "carries s ps e i" for i
    using that utp_decode_encode by (auto simp: e carries_def data_datagram_def)
  from this [OF assms(2)] this [OF assms(3)] have "s + of_nat i = s + of_nat k" by auto
  moreover have "i < length ps" "k < length ps" using assms(2,3) by (auto simp: carries_def data_datagram_def)
  ultimately show ?thesis using seq_inj [of i k s] assms(1) by simp
qed

lemma arrivals_Cons:
  assumes "length ps \<le> 32768" and "carries s ps e i"
  shows "arrivals s ps (e # es) = insert i (arrivals s ps es)"
proof -
  have "carries s ps e k \<longleftrightarrow> k = i" for k using carries_unique [OF assms(1) assms(2), of k] assms(2) by blast
  then show ?thesis unfolding arrivals_def by auto
qed

lemma arrivals_other: "snd e = RecvTimeout \<or> snd e = RecvConnReset \<Longrightarrow> arrivals s ps (e # es) = arrivals s ps es"
  by (auto simp: arrivals_def carries_def data_datagram_def)

text \<open>One \<open>read\<close>: it takes events from the network until it has bytes to return.\<close>

lemma read_loop_state:
  assumes "length ps \<le> 32768" and "\<forall>i<length ps. s + of_nat i \<noteq> 0"
    and "rx_state s ps K out us" and "us_recv_buffer us = []" and "\<forall>e\<in>set es. network_event s ps e"
    and "utp_read_loop n es us = (r, es', us')"
  shows "(\<forall>e\<in>set es'. network_event s ps e) \<and> (case r of
      None \<Rightarrow> es' = [] \<and> us_recv_buffer us' = [] \<and> rx_state s ps (K \<union> arrivals s ps es) out us'
    | Some (Inl _) \<Rightarrow> False
    | Some (Inr o') \<Rightarrow> (0 < n \<longrightarrow> o' \<noteq> [])
        \<and> (\<exists>L. K \<union> arrivals s ps es = L \<union> arrivals s ps es' \<and> rx_state s ps L (out @ o') us'))"
  using assms(3-)
proof (induction es arbitrary: us K)
  case Nil
  then have "\<not> us_closed us" by (auto simp: rx_state_def rx_inv_def)
  then show ?case using Nil by (auto simp: utp_read_loop.simps [of n "[]"] arrivals_def)
next
  case (Cons e es)
  have open_socket: "\<not> us_closed us" using Cons.prems(1) by (auto simp: rx_state_def rx_inv_def)
  obtain now ev where e: "e = (now, ev)" by (cases e)
  consider (time) "ev = RecvTimeout" | (reset) "ev = RecvConnReset" | (data) d i where "ev = Datagram d" "carries s ps e i"
    using Cons.prems(3) by (auto simp: network_event_def e carries_def data_datagram_def)
  then show ?case
  proof cases
    case time
    then have "utp_read_loop n es (check_timeouts now us) = (r, es', us')"
      using Cons.prems(4) open_socket by (simp add: utp_read_loop.simps [of n "_ # es"] e)
    moreover have "rx_state s ps K out (check_timeouts now us)" "us_recv_buffer (check_timeouts now us) = []"
      using Cons.prems(1,2) rx_state_rx [OF rx_check_timeouts] rx_check_timeouts [of now us] by (auto simp: rx_def)
    moreover have arr: "arrivals s ps (e # es) = arrivals s ps es" using time e by (intro arrivals_other) simp
    ultimately show ?thesis unfolding arr using Cons.IH [of K "check_timeouts now us"] Cons.prems(3) by simp
  next
    case reset
    then have "utp_read_loop n es us = (r, es', us')"
      using Cons.prems(4) open_socket by (simp add: utp_read_loop.simps [of n "_ # es"] e)
    moreover have arr: "arrivals s ps (e # es) = arrivals s ps es" using reset e by (intro arrivals_other) simp
    ultimately show ?thesis unfolding arr using Cons.IH [of K us] Cons.prems by simp
  next
    case data
    obtain o' us1 where h: "handle_datagram n now d us = (o', us1)" by (cases "handle_datagram n now d us")
    have arr: "K \<union> arrivals s ps (e # es) = insert i K \<union> arrivals s ps es"
      using arrivals_Cons [OF assms(1) data(2)] by simp
    note d = datagram_state [OF assms(1,2) Cons.prems(1) data(2) [unfolded e data(1)] h]
    show ?thesis
    proof (cases o')
      case None
      then have "utp_read_loop n es us1 = (r, es', us')"
        using Cons.prems(4) open_socket h by (simp add: utp_read_loop.simps [of n "_ # es"] e data(1))
      then show ?thesis using Cons.IH [of "insert i K" us1] d Cons.prems(3) None unfolding arr by simp
    next
      case (Some x)
      then have "r = Some (Inr x)" "es' = es" "us' = us1"
        using Cons.prems(4) open_socket h by (simp_all add: utp_read_loop.simps [of n "_ # es"] e data(1))
      then show ?thesis using d Some Cons.prems(3) unfolding arr by auto
    qed
  qed
qed

lemma read_state:
  assumes "length ps \<le> 32768" and "\<forall>i<length ps. s + of_nat i \<noteq> 0"
    and "rx_state s ps K out us" and "\<forall>e\<in>set es. network_event s ps e" and "utp_read n es us = (r, es', us')"
  shows "(\<forall>e\<in>set es'. network_event s ps e) \<and> (case r of
      None \<Rightarrow> es' = [] \<and> us_recv_buffer us' = [] \<and> rx_state s ps (K \<union> arrivals s ps es) out us'
    | Some (Inl _) \<Rightarrow> False
    | Some (Inr o') \<Rightarrow> (0 < n \<longrightarrow> o' \<noteq> [])
        \<and> (\<exists>L. K \<union> arrivals s ps es = L \<union> arrivals s ps es' \<and> rx_state s ps L (out @ o') us'))"
proof -
  have open_socket: "\<not> us_closed us" using assms(3) by (auto simp: rx_state_def rx_inv_def)
  obtain o' us1 where d: "drain_buffer n us = (o', us1)" by (cases "drain_buffer n us")
  show ?thesis
  proof (cases o')
    case None
    then have "utp_read_loop n es us = (r, es', us')" "us_recv_buffer us = []"
      using assms(5) open_socket d drain_state [OF assms(3) d] by (simp_all add: utp_read_def)
    then show ?thesis using read_loop_state [OF assms(1-3) _ assms(4)] by blast
  next
    case (Some x)
    then have "r = Some (Inr x)" "es' = es" "us' = us1"
      using assms(5) open_socket d by (simp_all add: utp_read_def)
    then show ?thesis using drain_state [OF assms(3) d] Some assms(4) by auto
  qed
qed

text \<open>
  A reader that calls \<open>read\<close> with buffers of the sizes \<open>ns\<close>, until it blocks or fails.
\<close>

fun utp_reads :: "nat list \<Rightarrow> (nat \<times> UdpEvent) list \<Rightarrow> UtpSocketAdapter \<Rightarrow> bytes" where
  "utp_reads [] es us = []"
| "utp_reads (n # ns) es us = (case utp_read n es us of
     (Some (Inr out), es, us) \<Rightarrow> out @ utp_reads ns es us
   | _ \<Rightarrow> [])"

lemma rx_state_prefix: "rx_state s ps K out us \<Longrightarrow> \<exists>rest. out @ rest = concat ps"
  unfolding rx_state_def rx_inv_def by (metis append.assoc append_take_drop_id concat_append)

lemma rx_state_complete:
  assumes "rx_state s ps K out us" and "length ps \<le> 32768" and "length ps \<le> 512" and "{..<length ps} \<subseteq> K"
    and "us_recv_buffer us = []"
  shows "out = concat ps"
proof -
  obtain j where j: "rx_inv s ps j out us"
      "\<forall>k\<in>K. k < length ps \<longrightarrow> k < j \<or> s + of_nat k \<in> fst ` set (us_out_of_order_received us)"
    using assms(1,3) by (auto simp: rx_state_def)
  have "j = length ps"
  proof (rule ccontr)
    assume "j \<noteq> length ps"
    then have lt: "j < length ps" using j(1) by (auto simp: rx_inv_def)
    then have "s + of_nat j \<in> fst ` set (us_out_of_order_received us)" using j(2) assms(4) by auto
    then obtain i where "i \<ge> Suc j" "i < length ps" "s + of_nat j = s + of_nat i"
      using j(1) unfolding rx_inv_def later_def by force
    then show False using seq_inj [of j i s] lt assms(2) by simp
  qed
  then show ?thesis using j(1) assms(5) by (simp add: rx_inv_def)
qed

lemma reads_state:
  assumes "length ps \<le> 32768" and "\<forall>i<length ps. s + of_nat i \<noteq> 0"
    and "rx_state s ps K out us" and "\<forall>e\<in>set es. network_event s ps e"
  shows "(\<exists>rest. (out @ utp_reads ns es us) @ rest = concat ps)
    \<and> (length ps \<le> 512 \<longrightarrow> {..<length ps} \<subseteq> K \<union> arrivals s ps es \<longrightarrow> (\<forall>n\<in>set ns. 0 < n)
        \<longrightarrow> length (concat ps) < length out + length ns \<longrightarrow> out @ utp_reads ns es us = concat ps)"
  using assms(3,4)
proof (induction ns arbitrary: K out es us)
  case Nil
  obtain rest where "out @ rest = concat ps" using rx_state_prefix [OF Nil(1)] by blast
  then have "length out \<le> length (concat ps)" by (metis le_add1 length_append)
  then show ?case using rx_state_prefix [OF Nil(1)] by simp
next
  case (Cons n ns)
  obtain r es' us' where r: "utp_read n es us = (r, es', us')" by (cases "utp_read n es us")
  note st = read_state [OF assms(1,2) Cons.prems r]
  show ?case
  proof (cases r)
    case None
    then have "rx_state s ps (K \<union> arrivals s ps es) out us'" "us_recv_buffer us' = []" using st by simp_all
    then show ?thesis using None r rx_state_complete [OF _ assms(1)] rx_state_prefix by simp
  next
    case (Some x)
    then obtain o' L where x: "x = Inr o'" and o': "0 < n \<longrightarrow> o' \<noteq> []" and L: "K \<union> arrivals s ps es = L \<union> arrivals s ps es'"
        "rx_state s ps L (out @ o') us'" "\<forall>e\<in>set es'. network_event s ps e"
      using st by (cases x) auto
    have "utp_reads (n # ns) es us = o' @ utp_reads ns es' us'" by (simp add: r Some x)
    moreover have "0 < n \<Longrightarrow> length (concat ps) < length out + Suc (length ns) \<Longrightarrow> length (concat ps) < length (out @ o') + length ns"
      using o' by (cases o') auto
    ultimately show ?thesis using Cons.IH [OF L(2,3)] unfolding L(1) by simp
  qed
qed

lemma first_datagram:
  assumes "length ps \<le> 32768" and "carries s ps e 0"
  obtains us where "rx_state s ps {0} [] us" and "utp_reads ns (e # es) (from_raw_socket cid) = utp_reads ns es us"
proof (cases ns)
  case Nil
  have "rx_state s ps {0} [] ((from_raw_socket cid)\<lparr>us_ack_nr := s, us_recv_buffer := ps ! 0\<rparr>)"
    using assms by (cases ps) (auto simp: rx_state_def rx_inv_def from_raw_socket_def carries_def data_datagram_def later_def intro!: exI [of _ 1])
  then show thesis using that Nil by simp
next
  case (Cons n ns')
  let ?us = "from_raw_socket cid"
  obtain now h where h: "e = (now, Datagram (utp_encode h @ ps ! 0))" "valid_header h" "hd_packet_type h = UtpData" "hd_seq_nr h = s"
      "length (utp_encode h @ ps ! 0) \<le> 2048" and ne: "ps \<noteq> []"
    using assms(2) by (auto simp: carries_def data_datagram_def)
  from handle_carried [OF h(2,3,5), of n now ?us] obtain us1 us2 where
    u: "handle_datagram n now (utp_encode h @ ps ! 0) ?us = drain_buffer n us2" "rx us1 = rx ?us"
      "rx us2 = rx (receive_data s (ps ! 0) us1)"
    unfolding h(4) by blast
  have us2: "rx us2 = (s, ps ! 0, [], 512, False)"
    using u(2) unfolding u(3) by (simp add: rx_def from_raw_socket_def receive_data_def Let_def)
  then have "rx_inv s ps 1 [] us2" using ne by (cases ps) (simp_all add: rx_inv_def rx_def later_def)
  then have "rx_state s ps {0} [] us2" using us2 by (auto simp: rx_state_def rx_def)
  moreover have "utp_read n (e # es) ?us = utp_read n es us2"
    using us2 u(1) by (simp add: utp_read_def rx_def h(1) utp_read_loop.simps [of n "_ # es"] from_raw_socket_def drain_buffer_def)
  ultimately show thesis using that Cons by simp
qed


definition sample_datagram :: "u16 \<Rightarrow> bytes \<Rightarrow> UdpEvent" where
  "sample_datagram seq payload = Datagram (utp_encode (sample_header\<lparr>hd_packet_type := UtpData, hd_seq_nr := seq\<rparr>) @ payload)"

lemma sample_carries:
  "i < length ps \<Longrightarrow> length (ps ! i) \<le> 1024 \<Longrightarrow> carries s ps (now, sample_datagram (s + of_nat i) (ps ! i)) i"
  unfolding carries_def data_datagram_def sample_datagram_def
  by (auto simp: valid_header_def first_extension_def UTP_EXT_SACK_def sample_header_def length_utp_encode total_header_len_def
      intro!: exI [of _ "sample_header\<lparr>hd_packet_type := UtpData, hd_seq_nr := s + of_nat i\<rparr>"])


section \<open>Where the stream is not kept\<close>

text \<open>
  Every packet takes a sequence number, acknowledgements included, but a receiver counts data packets
  only. A side that acknowledges data between two of its own writes leaves a number that no data packet
  will ever fill: its peer keeps the second write in the reordering buffer for ever, although no packet
  was lost or reordered.
\<close>

definition peer_datagram :: "u16 \<Rightarrow> bytes \<Rightarrow> UdpEvent" where
  "peer_datagram seq payload = Datagram (utp_encode \<lparr>hd_packet_type = UtpData, hd_version = 1, hd_extension = 0,
     hd_connection_id = 5, hd_timestamp_us = 0, hd_timestamp_difference_us = 0, hd_wnd_size = 1048576, hd_seq_nr = seq,
     hd_ack_nr = 0, hd_extensions = []\<rparr> @ payload)"

definition answering_sender :: UtpSocketAdapter where
  "answering_sender =
    (let us = snd (utp_write 0 0 [1] (from_raw_socket 5));
         (_, _, us) = utp_read 16 [(1, peer_datagram 1 [9])] us
     in snd (utp_write 2 2 [2] us))"

lemma answering_sender_numbers:
  "map (\<lambda>d. case utp_decode d of Inr h \<Rightarrow> (hd_packet_type h, hd_seq_nr h)) (us_outbox answering_sender) =
    [(UtpData, 1), (UtpState, 2), (UtpData, 3)]"
  by code_simp

lemma acks_stall_stream:
  "utp_reads [4, 4, 4] (map (\<lambda>d. (3, Datagram d)) (us_outbox answering_sender)) (from_raw_socket 5) = [1]"
  by code_simp

text \<open>
  The acknowledgement number 0 stands for ``nothing received''. It is also the number of every 65536th
  packet: after it the receiver takes whatever comes for the next packet, and drops what comes late.
\<close>

lemma zero_ack_reorders:
  "utp_reads [4, 4, 4, 4] [(0, peer_datagram 65535 [1]), (1, peer_datagram 0 [2]), (2, peer_datagram 2 [4]),
     (3, peer_datagram 1 [3])] (from_raw_socket 5) = [1, 2, 4]"
  by code_simp

text \<open>\<open>write\<close> puts its whole buffer into one datagram; the receiver reads 2048 bytes of it.\<close>

lemma long_write_truncated:
  assumes "2028 < length buf"
  shows "fst (utp_write now now buf (from_raw_socket cid)) = Inr (length buf)"
    and "\<exists>us'. utp_read 4096 [(t, Datagram (last (us_outbox (snd (utp_write now now buf (from_raw_socket cid))))))] (from_raw_socket cid')
      = (Some (Inr (take 2028 buf)), [], us')"
proof -
  let ?h = "\<lparr>hd_packet_type = UtpData, hd_version = 1, hd_extension = 0, hd_connection_id = cid, hd_timestamp_us = of_nat now,
    hd_timestamp_difference_us = 0, hd_wnd_size = 1048576, hd_seq_nr = 1, hd_ack_nr = 0, hd_extensions = []\<rparr>"
  have ct: "check_timeouts now (from_raw_socket cid) = from_raw_socket cid"
    by (simp add: check_timeouts_def from_raw_socket_def)
  show "fst (utp_write now now buf (from_raw_socket cid)) = Inr (length buf)"
    unfolding utp_write_def ct by (simp add: from_raw_socket_def send_packet_def send_packet_with_extensions_def udp_send_def Let_def)
  have out: "last (us_outbox (snd (utp_write now now buf (from_raw_socket cid)))) = utp_encode ?h @ buf"
    unfolding utp_write_def ct
    by (simp add: from_raw_socket_def send_packet_def send_packet_with_extensions_def udp_send_def timestamp_difference_def Let_def)
  have len: "length (utp_encode ?h) = 20" by (simp add: length_utp_encode total_header_len_def)
  have cut: "handle_datagram 4096 t (utp_encode ?h @ buf) = handle_datagram 4096 t (utp_encode ?h @ take 2028 buf)"
    by (rule ext) (simp add: handle_datagram_def len)
  have v: "valid_header ?h" by (simp add: valid_header_def first_extension_def)
  have l: "length (utp_encode ?h @ take 2028 buf) \<le> 2048" by (simp add: len)
  obtain us1 us2 where u: "handle_datagram 4096 t (utp_encode ?h @ take 2028 buf) (from_raw_socket cid') = drain_buffer 4096 us2"
    "rx us1 = rx (from_raw_socket cid')" "rx us2 = rx (receive_data 1 (take 2028 buf) us1)"
    using handle_carried [OF v _ l, of 4096 t "from_raw_socket cid'"] by auto
  have "us_recv_buffer us2 = take 2028 buf"
    using u(2,3) by (simp add: rx_def from_raw_socket_def receive_data_def Let_def)
  moreover have "buf \<noteq> []" using assms by auto
  moreover have fresh: "\<not> us_closed (from_raw_socket cid')" "us_recv_buffer (from_raw_socket cid') = []"
    by (simp_all add: from_raw_socket_def)
  ultimately have "drain_buffer 4096 us2 = (Some (take 2028 buf), us2\<lparr>us_recv_buffer := []\<rparr>)" by (simp add: drain_buffer_def)
  then show "\<exists>us'. utp_read 4096 [(t, Datagram (last (us_outbox (snd (utp_write now now buf (from_raw_socket cid))))))] (from_raw_socket cid')
      = (Some (Inr (take 2028 buf)), [], us')"
    using u(1) fresh unfolding out by (simp add: utp_read_def utp_read_loop.simps [of _ "[_]"] cut drain_buffer_def)
qed

text \<open>
  The queue of packets that wait for an acknowledgement holds 256: a sender further ahead forgets the
  oldest of them, which is then never sent again.
\<close>

lemma unacked_packet_forgotten:
  assumes "us_down us = None" and "us_sent_packets us = p # ps" and "length ps = 255"
  shows "\<exists>q. us_sent_packets (snd (send_packet now UtpData buf us)) = ps @ [q] \<and> sp_seq q = us_seq_nr us"
  using assms by (simp add: send_packet_def send_packet_with_extensions_def udp_send_def Let_def)

end
