(* ===== verification/Utp_Stream.thy ===== *)
theory Utp_Stream
  imports Utp_Socket
begin

text \<open>
  The sending half of a uTP connection (\<open>UtpSocketAdapter\<close> of \<open>network/utp.rs\<close>) and its composition with
  the receiving half. Every datagram a sender puts on the wire, retransmissions after a timeout or a
  selective acknowledgement included, carries the bytes that were written under its sequence
  number; nothing leaves the retransmission queue unacknowledged; and a receiver that gets those datagrams
  returns what was written.
\<close>

section \<open>What the sender has written\<close>

definition pending :: "UtpSocketAdapter \<Rightarrow> (u16 \<times> bytes) set" where
  "pending us = (\<lambda>p. (sp_seq p, sp_payload p)) ` set (us_sent_packets us)"

definition written :: "bytes list \<Rightarrow> (u16 \<times> bytes) set" where
  "written bufs = (\<lambda>i. (1 + of_nat i, bufs ! i)) ` {..<length bufs}"

text \<open>Every datagram of \<open>ds\<close> carries a packet that was written, and every such packet is on the wire.\<close>

definition truthful :: "bytes list \<Rightarrow> bytes list \<Rightarrow> bool" where
  "truthful bufs ds \<longleftrightarrow> (\<forall>d\<in>set ds. \<exists>x\<in>written bufs. data_datagram (fst x) (snd x) d)"

definition all_sent :: "bytes list \<Rightarrow> bytes list \<Rightarrow> bool" where
  "all_sent bufs ds \<longleftrightarrow> (\<forall>x\<in>written bufs. \<exists>d\<in>set ds. data_datagram (fst x) (snd x) d)"

lemma truthful_append [simp]: "truthful bufs (ds @ es) \<longleftrightarrow> truthful bufs ds \<and> truthful bufs es"
  by (auto simp: truthful_def)

lemma truthful_more: "truthful bufs ds \<Longrightarrow> written bufs \<subseteq> written bufs' \<Longrightarrow> truthful bufs' ds"
  unfolding truthful_def by blast

lemma truthful_Nil: "truthful [] ds \<Longrightarrow> ds = []"
  by (cases ds) (auto simp: truthful_def written_def)

lemma all_sent_append: "all_sent bufs ds \<Longrightarrow> all_sent bufs (ds @ es)"
  unfolding all_sent_def by auto

definition tx_inv :: "bytes list \<Rightarrow> UtpSocketAdapter \<Rightarrow> bool" where
  "tx_inv bufs us \<longleftrightarrow> us_down us = None \<and> \<not> us_closed us \<and> us_seq_nr us = 1 + of_nat (length bufs)
     \<and> length (us_sent_packets us) \<le> length bufs
     \<and> (\<forall>b\<in>set bufs. length b \<le> 2028) \<and> pending us \<subseteq> written bufs
     \<and> truthful bufs (us_outbox us) \<and> all_sent bufs (us_outbox us)
     \<and> (bufs \<noteq> [] \<longrightarrow> us_outbox us \<noteq> [] \<and> data_datagram 1 (bufs ! 0) (hd (us_outbox us)))"

text \<open>What the operations below change of the sender: they append datagrams of packets already written.\<close>

definition tx_step :: "bytes list \<Rightarrow> UtpSocketAdapter \<Rightarrow> UtpSocketAdapter \<Rightarrow> bool" where
  "tx_step bufs us us' \<longleftrightarrow> us_down us' = us_down us \<and> us_closed us' = us_closed us \<and> us_seq_nr us' = us_seq_nr us
     \<and> length (us_sent_packets us') \<le> length (us_sent_packets us) \<and> pending us' \<subseteq> pending us \<and> (\<exists>ds. us_outbox us' = us_outbox us @ ds \<and> truthful bufs ds)"

lemma tx_step_inv: "tx_inv bufs us \<Longrightarrow> tx_step bufs us us' \<Longrightarrow> tx_inv bufs us'"
  unfolding tx_inv_def tx_step_def by (elim conjE exE, intro conjI) (simp_all add: hd_append all_sent_append order_trans)

lemma tx_step_refl: "tx_step bufs us us"
  by (simp add: tx_step_def truthful_def)

lemma tx_step_trans: "tx_step bufs us us' \<Longrightarrow> tx_step bufs us' us'' \<Longrightarrow> tx_step bufs us us''"
  unfolding tx_step_def by (elim conjE exE) auto

lemma tx_step_update:
  "tx_step bufs us (us\<lparr>us_metrics := m\<rparr>)" "tx_step bufs us (us\<lparr>us_controller := c\<rparr>)"
  "tx_step bufs us (us\<lparr>us_last_remote_timestamp_us := t, us_last_remote_recv_us := r\<rparr>)"
  "(\<lambda>p. (sp_seq p, sp_payload p)) ` set ps \<subseteq> pending us \<Longrightarrow> length ps \<le> length (us_sent_packets us) \<Longrightarrow> tx_step bufs us (us\<lparr>us_sent_packets := ps\<rparr>)"
  by (simp_all add: tx_step_def pending_def truthful_def)

lemma tx_step_frame: "tx_step bufs us v \<Longrightarrow> tx_step bufs us (v\<lparr>us_controller := c, us_metrics := m\<rparr>)"
  by (simp add: tx_step_def pending_def)

lemma written_snoc: "written (bufs @ [b]) = insert (1 + of_nat (length bufs), b) (written bufs)"
proof -
  have "(\<lambda>i. (1 + of_nat i, (bufs @ [b]) ! i)) ` {..<length bufs} = written bufs"
    unfolding written_def by (intro image_cong) (simp_all add: nth_append)
  then show ?thesis by (simp add: written_def lessThan_Suc)
qed

lemma tx_written_length: "tx_inv bufs us \<Longrightarrow> (seq, p) \<in> written bufs \<Longrightarrow> length p \<le> 2028"
  by (auto simp: tx_inv_def written_def)

section \<open>Retransmission\<close>

lemma plain_datagram:
  assumes "length p \<le> 2028"
  shows "data_datagram seq p (utp_encode \<lparr>hd_packet_type = UtpData, hd_version = 1, hd_extension = 0, hd_connection_id = c,
    hd_timestamp_us = t, hd_timestamp_difference_us = t', hd_wnd_size = 1048576, hd_seq_nr = seq, hd_ack_nr = a,
    hd_extensions = []\<rparr> @ p)"
  unfolding data_datagram_def
  by (rule exI, rule conjI, rule refl)
    (use assms in \<open>simp add: valid_header_def first_extension_def length_utp_encode total_header_len_def\<close>)

lemma retransmit_step:
  assumes "tx_inv bufs us" and "(seq, p) \<in> written bufs"
  shows "tx_step bufs us (snd (retransmit_data_packet now seq p us))"
proof -
  have "us_down us = None" "length p \<le> 2028" using assms tx_written_length by (auto simp: tx_inv_def)
  then show ?thesis
    by (auto simp: tx_step_def retransmit_data_packet_def udp_send_def pending_def Let_def truthful_def plain_datagram intro!: bexI [OF _ assms(2)])
qed

lemma take_expired_pending:
  "take_expired now rto ps = (r, ps') \<Longrightarrow> map (\<lambda>p. (sp_seq p, sp_payload p)) ps' = map (\<lambda>p. (sp_seq p, sp_payload p)) ps
     \<and> (\<forall>x. r = Some x \<longrightarrow> x \<in> (\<lambda>p. (sp_seq p, sp_payload p)) ` set ps)"
  by (induction ps arbitrary: ps') (auto split: if_splits prod.splits simp: apsnd_def map_prod_def)

lemma retransmit_sent [simp]: "us_sent_packets (snd (retransmit_data_packet now seq p us)) = us_sent_packets us"
  by (simp add: retransmit_data_packet_def udp_send_def Let_def split: option.split)

lemma check_timeouts_step:
  assumes "tx_inv bufs us"
  shows "tx_step bufs us (check_timeouts now us)" and "pending (check_timeouts now us) = pending us"
proof -
  obtain r ps where t: "take_expired now (unat (lc_rto_us (us_controller us))) (us_sent_packets us) = (r, ps)"
    by (cases "take_expired now (unat (lc_rto_us (us_controller us))) (us_sent_packets us)")
  have "set (map (\<lambda>p. (sp_seq p, sp_payload p)) ps) = set (map (\<lambda>p. (sp_seq p, sp_payload p)) (us_sent_packets us))"
    using take_expired_pending [OF t] by presburger
  then have same: "(\<lambda>p. (sp_seq p, sp_payload p)) ` set ps = pending us" unfolding pending_def set_map .
  let ?us = "us\<lparr>us_sent_packets := ps\<rparr>"
  have "length ps = length (us_sent_packets us)" using take_expired_pending [OF t] map_eq_imp_length_eq by blast
  then have s: "tx_step bufs us ?us" using same by (intro tx_step_update) simp_all
  show "tx_step bufs us (check_timeouts now us)"
  proof (cases r)
    case None
    then show ?thesis using s by (simp add: check_timeouts_def t)
  next
    case (Some x)
    obtain seq p where x: "x = (seq, p)" by (cases x)
    have "(seq, p) \<in> pending us" using take_expired_pending [OF t] Some x by (simp add: pending_def)
    then have "(seq, p) \<in> written bufs" using assms by (auto simp: tx_inv_def)
    then have "tx_step bufs ?us (snd (retransmit_data_packet now seq p ?us))"
      by (intro retransmit_step tx_step_inv [OF assms s])
    then have "tx_step bufs us (snd (retransmit_data_packet now seq p ?us))" by (rule tx_step_trans [OF s])
    then show ?thesis unfolding check_timeouts_def t Some x prod.case option.case Let_def by (rule tx_step_frame)
  qed
  have "us_sent_packets (check_timeouts now us) = ps"
    by (simp add: check_timeouts_def t Let_def split: option.split prod.split)
  then show "pending (check_timeouts now us) = pending us" using same by (simp add: pending_def)
qed


section \<open>Acknowledgements\<close>

lemma ack_packets_pending:
  assumes "ack_packets now h ps acked hi c = (acked', hi', ps', c')"
  shows "(\<lambda>p. (sp_seq p, sp_payload p)) ` set ps' = {x \<in> (\<lambda>p. (sp_seq p, sp_payload p)) ` set ps. \<not> seq_acked (fst x) (hd_ack_nr h)}
    \<and> length ps' \<le> length ps"
  using assms
proof (induction ps arbitrary: acked hi c acked' hi' ps' c')
  case Nil
  then show ?case by simp
next
  case (Cons pkt ps)
  show ?case
  proof (cases "seq_acked (sp_seq pkt) (hd_ack_nr h)")
    case True
    then obtain a c2 where "ack_packets now h ps a hi c2 = (acked', hi', ps', c')"
      using Cons.prems by (auto simp: Let_def split: if_splits)
    from Cons.IH [OF this] show ?thesis using True by auto
  next
    case False
    then obtain a hi2 c2 pkt' ps2 where "ack_packets now h ps a hi2 c2 = (acked', hi', ps2, c')" "ps' = pkt' # ps2"
        "sp_seq pkt' = sp_seq pkt" "sp_payload pkt' = sp_payload pkt"
      using Cons.prems by (auto simp: Let_def split: if_splits prod.splits)
    then show ?thesis using Cons.IH False by auto
  qed
qed

lemma detect_losses_pending:
  assumes "detect_losses now hi ps = (lost, ps')"
  shows "(\<lambda>p. (sp_seq p, sp_payload p)) ` set ps' = (\<lambda>p. (sp_seq p, sp_payload p)) ` set ps"
    and "set lost \<subseteq> (\<lambda>p. (sp_seq p, sp_payload p)) ` set ps" and "length ps' = length ps"
proof -
  have "map (\<lambda>p. (sp_seq p, sp_payload p)) ps' = map (\<lambda>p. (sp_seq p, sp_payload p)) ps"
    using assms by (auto simp: detect_losses_def Let_def split: option.splits)
  from arg_cong [OF this, of set]
  show "(\<lambda>p. (sp_seq p, sp_payload p)) ` set ps' = (\<lambda>p. (sp_seq p, sp_payload p)) ` set ps" unfolding set_map .
  show "set lost \<subseteq> (\<lambda>p. (sp_seq p, sp_payload p)) ` set ps" "length ps' = length ps"
    using assms by (auto simp: detect_losses_def Let_def split: option.splits)
qed

lemma fast_retransmit_step:
  assumes "tx_inv bufs us" and "set lost \<subseteq> written bufs"
  shows "tx_step bufs us (fast_retransmit now lost us)" and "us_sent_packets (fast_retransmit now lost us) = us_sent_packets us"
proof -
  define f where "f = (\<lambda>us (seq, payload).
            let us = snd (retransmit_data_packet now seq payload us)
            in us\<lparr>us_metrics := (us_metrics us)\<lparr>retransmits_fast := retransmits_fast (us_metrics us) + 1\<rparr>\<rparr>)"
  have fold: "tx_step bufs v (foldl f v ls) \<and> us_sent_packets (foldl f v ls) = us_sent_packets v"
    if "tx_inv bufs v" "set ls \<subseteq> written bufs" for v ls
    using that
  proof (induction ls arbitrary: v)
    case Nil
    then show ?case by (simp add: tx_step_refl)
  next
    case (Cons l ls)
    obtain seq p where l: "l = (seq, p)" by (cases l)
    then have "tx_step bufs v (snd (retransmit_data_packet now seq p v))" using Cons.prems by (intro retransmit_step) simp_all
    then have s: "tx_step bufs v (f v l)" by (simp add: f_def l Let_def tx_step_def pending_def)
    moreover have "us_sent_packets (f v l) = us_sent_packets v" by (simp add: f_def l Let_def)
    ultimately show ?case using Cons.IH [of "f v l"] Cons.prems tx_step_inv tx_step_trans by (metis foldl_Cons insert_subset list.simps(15))
  qed
  have "tx_step bufs us (fast_retransmit now lost us) \<and> us_sent_packets (fast_retransmit now lost us) = us_sent_packets us"
  proof (cases "lost = []")
    case True
    then show ?thesis by (simp add: fast_retransmit_def tx_step_refl)
  next
    case False
    obtain new c where e: "enter_recovery (us_seq_nr us) (2 \<le> length lost) (us_controller us) = (new, c)"
      by (cases "enter_recovery (us_seq_nr us) (2 \<le> length lost) (us_controller us)")
    obtain m where eq: "fast_retransmit now lost us = foldl f (us\<lparr>us_controller := c, us_metrics := m\<rparr>) lost"
      unfolding fast_retransmit_def if_not_P [OF False] Let_def e prod.case f_def by blast
    have s: "tx_step bufs us (us\<lparr>us_controller := c, us_metrics := m\<rparr>)" by (rule tx_step_frame [OF tx_step_refl])
    from fold [OF tx_step_inv [OF assms(1) s] assms(2)] show ?thesis unfolding eq using tx_step_trans [OF s] by simp
  qed
  then show "tx_step bufs us (fast_retransmit now lost us)" "us_sent_packets (fast_retransmit now lost us) = us_sent_packets us"
    by simp_all
qed

lemma process_acks_step:
  assumes "tx_inv bufs us"
  shows "tx_step bufs us (process_acks now h us)"
    and "pending (process_acks now h us) = {x \<in> pending us. \<not> seq_acked (fst x) (hd_ack_nr h)}"
proof -
  obtain acked hi ps c where a: "ack_packets now h (us_sent_packets us) 0 None (us_controller us) = (acked, hi, ps, c)"
    by (cases "ack_packets now h (us_sent_packets us) 0 None (us_controller us)")
  obtain lost ps' where d: "detect_losses now hi ps = (lost, ps')" by (cases "detect_losses now hi ps")
  obtain dup c' where ha: "handle_ack (hd_ack_nr h) acked (hd_timestamp_difference_us h) (of_nat now) (set_remote_window (hd_wnd_size h) c) = (dup, c')"
    by (cases "handle_ack (hd_ack_nr h) acked (hd_timestamp_difference_us h) (of_nat now) (set_remote_window (hd_wnd_size h) c)")
  define u where "u = (if 0 < hd_timestamp_us h
           then us\<lparr>us_last_remote_timestamp_us := hd_timestamp_us h, us_last_remote_recv_us := of_nat now\<rparr> else us)"
  define v where "v = (if sack_bitmask h \<noteq> None
           then u\<lparr>us_metrics := (us_metrics u)\<lparr>sack_packets_recv := sack_packets_recv (us_metrics u) + 1\<rparr>\<rparr> else u)"
  define w where "w = v\<lparr>us_sent_packets := ps', us_controller := c',
      us_metrics := (if dup then (us_metrics v)\<lparr>duplicate_acks_count := duplicate_acks_count (us_metrics v) + 3\<rparr> else us_metrics v)\<rparr>"
  have v: "us_down v = us_down us" "us_closed v = us_closed us" "us_seq_nr v = us_seq_nr us" "us_outbox v = us_outbox us"
      "us_sent_packets v = us_sent_packets us" "us_controller v = us_controller us"
    by (simp_all add: v_def u_def)
  have eq: "process_acks now h us = fast_retransmit now lost w"
    unfolding process_acks_def Let_def u_def [symmetric] v_def [symmetric] v(5,6) a d ha prod.case w_def ..
  have w: "us_down w = us_down us" "us_closed w = us_closed us" "us_seq_nr w = us_seq_nr us" "us_outbox w = us_outbox us"
      "us_sent_packets w = ps'"
    by (simp_all add: w_def v)
  have pend: "pending w = {x \<in> pending us. \<not> seq_acked (fst x) (hd_ack_nr h)}"
    using ack_packets_pending [OF a] detect_losses_pending(1) [OF d] w by (simp add: pending_def)
  have s: "tx_step bufs us w"
    using ack_packets_pending [OF a] detect_losses_pending(3) [OF d] pend w by (simp add: tx_step_def truthful_def)
  have "(\<lambda>p. (sp_seq p, sp_payload p)) ` set ps \<subseteq> pending us" using ack_packets_pending [OF a] by (simp add: pending_def)
  then have "set lost \<subseteq> pending us" using detect_losses_pending(2) [OF d] by (rule order_trans [rotated])
  then have lost: "set lost \<subseteq> written bufs" using assms by (auto simp: tx_inv_def)
  note f = fast_retransmit_step [OF tx_step_inv [OF assms s] lost, of now]
  show "tx_step bufs us (process_acks now h us)" unfolding eq by (rule tx_step_trans [OF s f(1)])
  show "pending (process_acks now h us) = {x \<in> pending us. \<not> seq_acked (fst x) (hd_ack_nr h)}"
    using f(2) pend unfolding eq by (simp add: pending_def)
qed

section \<open>Writing\<close>

lemma write_step:
  assumes "tx_inv bufs us" and "length buf \<le> 2028"
  shows "fst (utp_write now t buf us) = Inr (length buf)" and "tx_inv (bufs @ [buf]) (snd (utp_write now t buf us))"
    and "length bufs < 256 \<Longrightarrow> insert (1 + of_nat (length bufs), buf) (pending us) \<subseteq> pending (snd (utp_write now t buf us))"
proof -
  let ?us = "check_timeouts now us"
  have inv: "tx_inv bufs ?us" by (rule tx_step_inv [OF assms(1) check_timeouts_step(1) [OF assms(1)]])
  have I: "us_down ?us = None" "\<not> us_closed ?us" "us_seq_nr ?us = 1 + of_nat (length bufs)" "length (us_sent_packets ?us) \<le> length bufs"
      "\<forall>b\<in>set bufs. length b \<le> 2028" "pending ?us \<subseteq> written bufs" "truthful bufs (us_outbox ?us)" "all_sent bufs (us_outbox ?us)"
      "bufs \<noteq> [] \<longrightarrow> us_outbox ?us \<noteq> [] \<and> data_datagram 1 (bufs ! 0) (hd (us_outbox ?us))"
    using inv by (simp_all add: tx_inv_def)
  have op: "\<not> us_closed us" using assms(1) by (simp add: tx_inv_def)
  let ?d = "utp_encode \<lparr>hd_packet_type = UtpData, hd_version = 1, hd_extension = 0, hd_connection_id = us_connection_id ?us,
      hd_timestamp_us = of_nat t, hd_timestamp_difference_us = timestamp_difference ?us, hd_wnd_size = 1048576,
      hd_seq_nr = us_seq_nr ?us, hd_ack_nr = us_ack_nr ?us, hd_extensions = []\<rparr> @ buf"
  let ?pkt = "\<lparr>sp_seq = us_seq_nr ?us, sp_timestamp = t, sp_payload = buf, sp_sacked = False, sp_retransmit_count = 0, sp_last_sent_time = t\<rparr>"
  let ?q = "us_sent_packets ?us @ [?pkt]"
  obtain us' where w: "utp_write now t buf us = (Inr (length buf), us')" and us': "us_down us' = None" "\<not> us_closed us'"
      "us_seq_nr us' = us_seq_nr ?us + 1" "us_outbox us' = us_outbox ?us @ [?d]" "us_sent_packets us' = (if 256 < length ?q then tl ?q else ?q)"
    using I(1,2) op by (simp add: utp_write_def send_packet_def send_packet_with_extensions_def udp_send_def Let_def)
  have dd: "data_datagram (1 + of_nat (length bufs)) buf ?d" unfolding I(3) by (rule plain_datagram [OF assms(2)])
  have "set (us_sent_packets us') \<subseteq> set ?q" unfolding us'(5) by (cases "us_sent_packets ?us") auto
  then have "pending us' \<subseteq> insert (1 + of_nat (length bufs), buf) (pending ?us)"
    unfolding pending_def I(3) by (intro image_subsetI) auto
  moreover have "truthful (bufs @ [buf]) (us_outbox us')"
    using truthful_more [OF I(7)] dd unfolding us'(4) truthful_append by (simp add: truthful_def written_snoc subset_insertI)
  moreover have "all_sent (bufs @ [buf]) (us_outbox us')"
    using all_sent_append [OF I(8)] dd unfolding us'(4) by (auto simp: all_sent_def written_snoc)
  moreover have "data_datagram 1 ((bufs @ [buf]) ! 0) (hd (us_outbox us'))"
    using I(9) dd truthful_Nil [of "us_outbox ?us"] I(7) unfolding us'(4) by (cases "bufs = []") (simp_all add: nth_append)
  ultimately have "tx_inv (bufs @ [buf]) us'"
    using I(4-6) assms(2) unfolding tx_inv_def by (simp add: us' I(3) written_snoc) blast
  then show "fst (utp_write now t buf us) = Inr (length buf)" "tx_inv (bufs @ [buf]) (snd (utp_write now t buf us))"
    by (simp_all add: w)
  show "insert (1 + of_nat (length bufs), buf) (pending us) \<subseteq> pending (snd (utp_write now t buf us))" if "length bufs < 256"
    using that us'(5) I(3,4) check_timeouts_step(2) [OF assms(1), of now] by (simp add: w pending_def)
qed

section \<open>A sender and its acknowledgements\<close>

text \<open>
  The calls of a side that sends: it writes, its reads time out, or they handle a datagram of the peer.
  The theorems are about one direction: the peer may acknowledge, selectively or not, reset, or send
  garbage, but not data (the last section of \<open>Utp_Socket\<close> shows what becomes of two directions).
\<close>

datatype SenderCall = WriteCall nat nat bytes | TimeoutCall nat | DatagramCall nat nat bytes

fun sender_call :: "SenderCall \<Rightarrow> UtpSocketAdapter \<Rightarrow> UtpSocketAdapter" where
  "sender_call (WriteCall now sent_at buf) us = snd (utp_write now sent_at buf us)"
| "sender_call (TimeoutCall now) us = check_timeouts now us"
| "sender_call (DatagramCall n now d) us = snd (handle_datagram n now d us)"

fun sender_ok :: "SenderCall \<Rightarrow> bool" where
  "sender_ok (WriteCall _ _ buf) \<longleftrightarrow> length buf \<le> 2028"
| "sender_ok (TimeoutCall _) \<longleftrightarrow> True"
| "sender_ok (DatagramCall _ _ d) \<longleftrightarrow> (case utp_decode (take 2048 d) of Inl _ \<Rightarrow> True | Inr h \<Rightarrow> hd_packet_type h \<noteq> UtpData)"

fun call_writes :: "SenderCall \<Rightarrow> bytes list" where
  "call_writes (WriteCall _ _ buf) = [buf]"
| "call_writes _ = []"

fun call_acks :: "SenderCall \<Rightarrow> u16 set" where
  "call_acks (DatagramCall _ _ d) = (case utp_decode (take 2048 d) of Inl _ \<Rightarrow> {} | Inr h \<Rightarrow> {hd_ack_nr h})"
| "call_acks _ = {}"

definition writes :: "SenderCall list \<Rightarrow> bytes list" where
  "writes cs = concat (map call_writes cs)"

definition acks :: "SenderCall list \<Rightarrow> u16 set" where
  "acks cs = \<Union> (call_acks ` set cs)"

definition sender_run :: "SenderCall list \<Rightarrow> UtpSocketAdapter \<Rightarrow> UtpSocketAdapter" where
  "sender_run cs us = fold sender_call cs us"

text \<open>A packet that was written is still queued for retransmission unless an acknowledgement covers it.\<close>

definition retained :: "bytes list \<Rightarrow> u16 set \<Rightarrow> UtpSocketAdapter \<Rightarrow> bool" where
  "retained bufs A us \<longleftrightarrow> (\<forall>x\<in>written bufs. x \<in> pending us \<or> (\<exists>a\<in>A. seq_acked (fst x) a))"

lemma handle_not_data:
  assumes "sender_ok (DatagramCall n now d)"
  shows "snd (handle_datagram n now d us) = (if length (take 2048 d) < 20 then us
    else let us' = us\<lparr>us_metrics := (us_metrics us)\<lparr>packets_recv := packets_recv (us_metrics us) + 1\<rparr>\<rparr>
      in case utp_decode (take 2048 d) of Inl _ \<Rightarrow> us' | Inr h \<Rightarrow> process_acks now h us')"
  using assms by (cases "utp_decode (take 2048 d)") (simp_all add: handle_datagram_def Let_def)

lemma datagram_call_step:
  assumes "tx_inv bufs us" and "sender_ok (DatagramCall n now d)"
  shows "tx_inv bufs (snd (handle_datagram n now d us))"
    and "retained bufs A us \<Longrightarrow> retained bufs (A \<union> call_acks (DatagramCall n now d)) (snd (handle_datagram n now d us))"
proof -
  let ?us = "us\<lparr>us_metrics := (us_metrics us)\<lparr>packets_recv := packets_recv (us_metrics us) + 1\<rparr>\<rparr>"
  have m: "tx_inv bufs ?us" by (rule tx_step_inv [OF assms(1) tx_step_update(1)])
  consider (ignored) "snd (handle_datagram n now d us) = us" | (bad) "snd (handle_datagram n now d us) = ?us"
    | (ack) h where "utp_decode (take 2048 d) = Inr h" "snd (handle_datagram n now d us) = process_acks now h ?us"
    unfolding handle_not_data [OF assms(2)] Let_def
    by (cases "length (take 2048 d) < 20"; cases "utp_decode (take 2048 d)") (simp_all only: if_True if_False sum.case)
  note cases = this
  show "tx_inv bufs (snd (handle_datagram n now d us))"
    using cases
  proof cases
    case ack
    then show ?thesis using tx_step_inv [OF m process_acks_step(1) [OF m]] by simp
  qed (use assms(1) m in simp_all)
  show "retained bufs (A \<union> call_acks (DatagramCall n now d)) (snd (handle_datagram n now d us))" if r: "retained bufs A us"
    using cases
  proof cases
    case ack
    then show ?thesis using r process_acks_step(2) [OF m, of now h] by (auto simp: retained_def pending_def)
  qed (use r in \<open>auto simp: retained_def pending_def\<close>)
qed

lemma sender_call_step:
  assumes "tx_inv bufs us" and "sender_ok c"
  shows "tx_inv (bufs @ call_writes c) (sender_call c us)"
    and "length (bufs @ call_writes c) \<le> 256 \<Longrightarrow> retained bufs A us \<Longrightarrow> retained (bufs @ call_writes c) (A \<union> call_acks c) (sender_call c us)"
proof -
  show "tx_inv (bufs @ call_writes c) (sender_call c us)"
    using assms write_step(2) [OF assms(1)] tx_step_inv [OF assms(1) check_timeouts_step(1) [OF assms(1)]] datagram_call_step(1) [OF assms(1)]
    by (cases c) (simp_all del: sender_ok.simps(3))
  show "retained (bufs @ call_writes c) (A \<union> call_acks c) (sender_call c us)"
    if "length (bufs @ call_writes c) \<le> 256" and r: "retained bufs A us"
  proof (cases c)
    case (WriteCall now t buf)
    then have "insert (1 + of_nat (length bufs), buf) (pending us) \<subseteq> pending (snd (utp_write now t buf us))"
      using that assms by (intro write_step) simp_all
    then show ?thesis using r WriteCall by (auto simp: retained_def written_snoc)
  next
    case (TimeoutCall now)
    then show ?thesis using r check_timeouts_step(2) [OF assms(1)] by (simp add: retained_def)
  next
    case (DatagramCall n now d)
    then show ?thesis using datagram_call_step(2) [OF assms(1)] assms(2) r by (simp del: sender_ok.simps(3) call_acks.simps(1))
  qed
qed

lemma sender_run_inv:
  assumes "\<forall>c\<in>set cs. sender_ok c" and "tx_inv bufs us"
  shows "tx_inv (bufs @ writes cs) (sender_run cs us)
    \<and> (length (bufs @ writes cs) \<le> 256 \<longrightarrow> retained bufs A us \<longrightarrow> retained (bufs @ writes cs) (A \<union> acks cs) (sender_run cs us))"
  using assms
proof (induction cs arbitrary: bufs us A)
  case Nil
  then show ?case by (simp add: writes_def acks_def sender_run_def)
next
  case (Cons c cs)
  have eq: "bufs @ writes (c # cs) = (bufs @ call_writes c) @ writes cs" "A \<union> acks (c # cs) = (A \<union> call_acks c) \<union> acks cs"
      "sender_run (c # cs) us = sender_run cs (sender_call c us)"
    by (auto simp: writes_def acks_def sender_run_def)
  show ?case unfolding eq
    using Cons.IH [of "bufs @ call_writes c" "sender_call c us" "A \<union> call_acks c"] Cons.prems sender_call_step [of bufs us c] by simp
qed

lemma fresh_sender: "tx_inv [] (from_raw_socket cid)" "retained [] {} (from_raw_socket cid)"
  by (simp_all add: tx_inv_def retained_def from_raw_socket_def written_def pending_def truthful_def all_sent_def)



text \<open>Delivery of a sender's datagrams: in any order and number, with timeouts and resets in between.\<close>

definition delivery :: "bytes list \<Rightarrow> nat \<times> UdpEvent \<Rightarrow> bool" where
  "delivery ds e \<longleftrightarrow> snd e = RecvTimeout \<or> snd e = RecvConnReset \<or> (\<exists>d\<in>set ds. snd e = Datagram d)"

lemma written_carries: "x \<in> written ps \<Longrightarrow> data_datagram (fst x) (snd x) d \<Longrightarrow> \<exists>i. carries 1 ps (now, Datagram d) i"
  by (auto simp: written_def carries_def)



end
