(* ===== verification/Spec2Isabelle.thy ===== *)
theory Spec2Isabelle
  imports Bencode_Tokenizer Peer_Message Selector Piece_Layers Pipeline_Limits Utp_Stream
begin

text \<open>
  Verification library of the BitTorrent engine in \<open>src/library/src\<close>.

  \<^bold>\<open>The program.\<close> A torrent's meta information is read with a bencode decoder. A torrent context
  holds the state of one download: which pieces are local or missing, how many peers have each of
  them, the block requests in flight, the peers of the swarm. Peers talk over framed messages; a
  selector picks the next piece for a peer; received blocks go through the endgame staging, an
  optional Merkle check and the block storage, a disk cache over the torrent's files. A complete
  piece is hashed at once or by a pool of verification workers, and is then recorded as local or
  rejected.

  \<^bold>\<open>Conventions.\<close> Integers keep their width (\<open>u8\<close> \<dots> \<open>u64\<close> are words) where the code can wrap;
  lengths and counters of memory objects are natural numbers. A fallible function returns
  \<open>'a result\<close>, with the error on the left; a function that can panic returns an option. The hash
  functions are parameters (\<open>sha1\<close>, \<open>H\<close> for SHA-256), as are the clock and the contents that the
  file system delivers. A hash map is an association list or a function to options; the order in
  which it is iterated never enters a statement. Mutexes and atomics are left out where a method
  runs under one lock; where threads interleave (buffer pool, verification pool) the model is a
  step relation.

  \<^bold>\<open>Theories\<close>, with the file of \<open>src/library/src\<close> each of them models.

  \<^item> \<open>BT_Prelude\<close>: errors (\<open>utils/error.rs\<close>), constants, checked arithmetic, byte order, decimal text.
  \<^item> \<open>Bencode\<close> (\<open>utils/bencode.rs\<close>), \<open>Bencode_Tokenizer\<close> (\<open>utils/bencode_tokenizer.rs\<close>): decoder, partial
    decoder and encoder, and the pull tokenizer. The decoder accepts exactly the grammar, both
    round trips hold, and the tokenizer emits the tokens of the decoded tree. The recursion of the
    decoder is bounded by the input length and by \<open>MAX_DEPTH\<close>.
  \<^item> \<open>Peer_Message\<close> (\<open>network/peer_message.rs\<close>, \<open>network/peer_network.rs\<close>): wire messages and the
    socket reader over a list of socket events; round trips, framing, length limits.
  \<^item> \<open>Util\<close> (\<open>utils/util.rs\<close>, \<open>utils/average.rs\<close>): byte codecs, the shared buffer pool as an interleaved
    step relation, the allowed-fast set. The digest loop of the latter takes fuel: it is as long
    as the list of digests that the hash chain is asked for.
  \<^item> \<open>Bitfield\<close>, \<open>Piece_Store\<close> (\<open>core/piece_store.rs\<close>, \<open>core/piece_manager.rs\<close>), \<open>Selector\<close>
    (\<open>core/selector.rs\<close>, \<open>core/views.rs\<close>): bitfields as sets of pieces, the rarity queue and the three
    selectors, which obtain every piece a peer can supply.
  \<^item> \<open>Piece_Buffer\<close> (\<open>storage/piece_buffer.rs\<close>, \<open>storage/assembler.rs\<close>): assembly of a piece from its
    blocks, the recycling pool, request reservations.
  \<^item> \<open>Block_Storage\<close> (\<open>storage/disk_block_storage.rs\<close>, \<open>storage/file_allocation.rs\<close>): the files of a torrent
    as one byte array; the interfaces \<open>block_storage\<close> and \<open>piece_storage\<close>.
  \<^item> \<open>Ordered_Map\<close>, \<open>Disk_Cache\<close> (\<open>storage/disk_cache.rs\<close>): the write-back cache over any storage. It
    refines a plain array on aligned blocks, keeps its limit and loses nothing.
  \<^item> \<open>Merkle\<close> (\<open>core/merkle.rs\<close>), \<open>Piece_Layers\<close> (\<open>storage/piece_layers_cache.rs\<close>): hash trees, audit paths,
    hash requests; the two-tier cache of piece layers with its file format and file system faults.
  \<^item> \<open>Bitfield_Scanner\<close> (\<open>storage/bitfield_scanner.rs\<close>): finding the pieces that are already on disk.
  \<^item> \<open>Erasure_Staging\<close> (\<open>storage/erasure_staging.rs\<close>): duplicate requests in the endgame.
  \<^item> \<open>Torrent_Context\<close>, \<open>Torrent_Accounting\<close> (\<open>core/torrent_context.rs\<close>, \<open>core/piece_accounting.rs\<close>): the
    context record with its lifecycle, accounting and file selection. The invariant \<open>tc_inv\<close> holds
    in every run, and the lifecycle refines a status machine.
  \<^item> \<open>Verification_Pool\<close> (\<open>storage/verification_pool.rs\<close>): jobs, workers, rechecks.
  \<^item> \<open>Piece_Processing\<close>, \<open>Pipeline_Safety\<close>, \<open>Disk_IO\<close> (\<open>storage/disk_io.rs\<close>), \<open>Pipeline_Progress\<close>,
    \<open>Pipeline_Limits\<close>: the intake of blocks, composed of all of the above. Only pieces with the
    right hash become local, and a piece whose blocks arrive becomes local; the last theory holds
    the runs in which the code falls short of that.

  \<^item> \<open>Float64\<close>: the \<open>f64\<close> arithmetic of the code as rationals rounded to 53 bits, ties to even; overflow
    and subnormal numbers do not occur in the values the code computes and are left out.
  \<^item> \<open>Utp_Packet\<close>, \<open>Utp_Congestion\<close>, \<open>Utp_Socket\<close>, \<open>Utp_Stream\<close> (\<open>network/utp.rs\<close>): the headers and selective
    acknowledgement masks of the uTP transport, its LEDBAT congestion controller, and a connection over
    timed network events. Masks are exact in the circular sequence space, the window and the timeout keep
    their limits, and what one side writes is what the other reads, in order, whatever the network
    reorders or repeats. The last section of \<open>Utp_Socket\<close> holds the runs that lose data.

  \<^bold>\<open>Interfaces.\<close> \<open>float_rounding\<close> of \<open>Float64\<close> states what the congestion bounds use of the rounding; \<open>f64\<close>
  interprets it. The locales of \<open>Block_Storage\<close> state what a storage promises; the disk storage, the
  cache over any storage and the cache over the disk interpret them. The block intake is proved
  once against \<open>piece_storage\<close>.

  \<^bold>\<open>Not modelled.\<close> Sockets, threads and timers of the sessions and trackers, the other transports and their encryption; directory
  creation and preallocation; logging and metrics snapshots; the client applications.
\<close>

end
